(* ===== verification/Prelude.thy ===== *)
theory Prelude
  imports Main "HOL-Library.Word"
begin

text \<open>
  Shared vocabulary of the development: the machine types of the C++ sources, byte strings
  read as little-endian numbers, the result type of fallible operations, and the generic
  lemmas on lists, words and results that the component theories use.

  \<^item> \<open>uint8_t\<close>, \<open>uint32_t\<close>, \<open>uint64_t\<close> are words of that width; \<open>int32_t\<close> and
    \<open>int64_t\<close> are words too where their wrap-around matters, read with \<open>sint\<close>;
  \<^item> \<open>uint256\<close> (\<open>primitives/block.h\<close>) is its array of 32 bytes, index 0 first, as a
    list; \<open>wf256\<close> says that the list has 32 elements;
  \<^item> an operation that returns \<open>false\<close> with an error message returns \<open>Inl e\<close> of an error
    datatype whose constructors stand for the messages.
\<close>

unbundle bit_operations_syntax

type_synonym byte = "8 word"
type_synonym bytes = "byte list"
type_synonym u16 = "16 word"
type_synonym u32 = "32 word"
type_synonym u64 = "64 word"
type_synonym i32 = "32 word"
type_synonym i64 = "64 word"
type_synonym uint256 = bytes

named_theorems res_simps \<open>evaluation of sequenced fallible operations\<close>
named_theorems wf_intros \<open>well-formedness facts of the component types\<close>

section \<open>Fallible operations in sequence\<close>

text \<open>
  \<open>bindE m f\<close> runs \<open>m\<close> and, unless it failed, \<open>f\<close> on its result: an early
  \<open>return false\<close> leaves the rest of the C++ function out.
\<close>

fun bindE :: "'e + 'a \<Rightarrow> ('a \<Rightarrow> 'e + 'b) \<Rightarrow> 'e + 'b" where
  "bindE (Inl e) f = Inl e"
| "bindE (Inr x) f = f x"

definition isOk :: "'e + 'a \<Rightarrow> bool" where
  "isOk r \<longleftrightarrow> (case r of Inl _ \<Rightarrow> False | Inr _ \<Rightarrow> True)"

section \<open>Little-endian byte strings\<close>

fun le_val :: "bytes \<Rightarrow> nat" where
  "le_val [] = 0"
| "le_val (b # bs) = unat b + 256 * le_val bs"

fun le_bytes :: "nat \<Rightarrow> nat \<Rightarrow> bytes" where
  "le_bytes 0 v = []"
| "le_bytes (Suc n) v = of_nat v # le_bytes n (v div 256)"

definition wf256 :: "uint256 \<Rightarrow> bool" where
  "wf256 h \<longleftrightarrow> length h = 32"

definition zero256 :: uint256 where
  "zero256 = replicate 32 0"

section \<open>Duplicate detection with a \<open>std::set\<close>\<close>

text \<open>
  The loop over a vector that inserts every element into a fresh \<open>std::set\<close> and stops at
  the first one that is already there.
\<close>

fun no_duplicates :: "'a list \<Rightarrow> 'a list \<Rightarrow> bool" where
  "no_duplicates seen [] = True"
| "no_duplicates seen (x # xs) = (if x \<in> set seen then False else no_duplicates (x # seen) xs)"

section \<open>Signed division of C++\<close>

text \<open>Integer division truncates toward zero and the remainder has the sign of the dividend.\<close>

definition cdiv :: "int \<Rightarrow> int \<Rightarrow> int" where
  "cdiv a b = sgn a * sgn b * (\<bar>a\<bar> div \<bar>b\<bar>)"

definition cmod :: "int \<Rightarrow> int \<Rightarrow> int" where
  "cmod a b = a - b * cdiv a b"

section \<open>Lemmas: results\<close>

lemma bindE_Inr_iff [res_simps]:
  "bindE m f = Inr y \<longleftrightarrow> (\<exists>x. m = Inr x \<and> f x = Inr y)"
  by (cases m) auto

lemma bindE_Inl_iff [res_simps]:
  "bindE m f = Inl e \<longleftrightarrow> m = Inl e \<or> (\<exists>x. m = Inr x \<and> f x = Inl e)"
  by (cases m) auto

lemma bindE_assoc: "bindE (bindE m f) g = bindE m (\<lambda>x. bindE (f x) g)"
  by (cases m) auto

lemma isOk_simps [simp, res_simps]: "isOk (Inr x)" "\<not> isOk (Inl e)"
  by (simp_all add: isOk_def)

lemma isOk_iff: "isOk r \<longleftrightarrow> (\<exists>x. r = Inr x)"
  by (cases r) auto

section \<open>Lemmas: little-endian byte strings\<close>

lemma length_le_bytes [simp]: "length (le_bytes n v) = n"
  by (induction n arbitrary: v) auto

lemma le_val_append: "le_val (xs @ ys) = le_val xs + 256 ^ length xs * le_val ys"
  by (induction xs) (auto simp: algebra_simps)

lemma unat_byte_lt: "unat (b :: byte) < 256"
  using unsigned_less [of b] by simp

lemma unat_byte_le: "unat (b :: byte) \<le> 255"
  using unat_byte_lt [of b] by simp

lemma le_val_bound: "le_val bs < 256 ^ length bs"
proof (induction bs)
  case Nil
  then show ?case by simp
next
  case (Cons b bs)
  have "unat b + 256 * le_val bs < 256 + 256 * le_val bs"
    using unat_byte_lt [of b] by simp
  also have "\<dots> \<le> 256 * 256 ^ length bs"
    using Cons.IH by simp
  finally show ?case by simp
qed

lemma le_val_le_bytes: "le_val (le_bytes n v) = v mod 256 ^ n"
proof (induction n arbitrary: v)
  case 0
  then show ?case by simp
next
  case (Suc n)
  have "v mod 256 ^ Suc n = v mod 256 + 256 * (v div 256 mod 256 ^ n)"
    by (metis add.commute mod_mult2_eq power_Suc)
  then show ?case
    by (simp add: Suc.IH unsigned_of_nat take_bit_eq_mod)
qed

lemma le_bytes_le_val: "le_bytes (length bs) (le_val bs) = bs"
proof (induction bs)
  case Nil
  then show ?case by simp
next
  case (Cons b bs)
  have "(unat b + 256 * le_val bs) div 256 = le_val bs"
    using unat_byte_lt [of b] by simp
  moreover have "(of_nat (unat b + 256 * le_val bs) :: byte) = b"
    using unat_byte_lt [of b]
    by (simp add: word_unat_eq_iff unsigned_of_nat take_bit_eq_mod del: of_nat_add)
  ultimately show ?case using Cons.IH by simp
qed

lemma le_val_inject: "length xs = length ys \<Longrightarrow> le_val xs = le_val ys \<Longrightarrow> xs = ys"
  by (metis le_bytes_le_val)

lemma le_val_eq_0_iff: "le_val bs = 0 \<longleftrightarrow> (\<forall>b \<in> set bs. b = 0)"
  by (induction bs) (auto simp: unat_eq_zero)

lemma le_val_zero256 [simp]: "le_val zero256 = 0"
  by (simp add: zero256_def le_val_eq_0_iff)

lemma wf256_zero [simp, wf_intros]: "wf256 zero256"
  by (simp add: wf256_def zero256_def)

lemma le_val_replicate_0 [simp]: "le_val (replicate n 0) = 0"
  by (simp add: le_val_eq_0_iff)

lemma length_zero256 [simp]: "length zero256 = 32"
  by (simp add: zero256_def)

section \<open>Lemmas: words assembled from bytes\<close>

lemma ucast_or_push_8: "(ucast (b :: byte) :: 'a::len word) OR push_bit 8 x = ucast b + 256 * x"
proof -
  have "(ucast b :: 'a word) AND push_bit 8 x = 0"
    by (rule bit_word_eqI) (auto simp: bit_simps dest: bit_imp_le_length)
  then have "ucast b + push_bit 8 x = (ucast b :: 'a word) OR push_bit 8 x"
    by (rule disjunctive_add_eq_or)
  then show ?thesis by (simp add: push_bit_eq_mult mult.commute)
qed

lemma ucast_byte_unat: "(ucast (b :: byte) :: 'a::len word) = of_nat (unat b)"
  by simp

lemma unat_drop_bit: "unat (drop_bit k (v :: 'a::len word)) = unat v div 2 ^ k"
  unfolding unat_drop_bit_eq by (rule drop_bit_eq_div)

lemma ucast_drop_bit_byte:
  "(ucast (drop_bit k (v :: 'a::len word)) :: byte) = of_nat (unat v div 2 ^ k)"
proof -
  have "(ucast (drop_bit k v) :: byte) = of_nat (unat (drop_bit k v))" by simp
  then show ?thesis by (simp only: unat_drop_bit)
qed

lemma ucast_word_byte: "(ucast (v :: 'a::len word) :: byte) = of_nat (unat v)"
  by simp

lemma le_bytes_2: "le_bytes 2 v = [of_nat v, of_nat (v div 2 ^ 8)]"
proof -
  have "le_bytes (Suc (Suc 0)) v = [of_nat v, of_nat (v div 2 ^ 8)]"
    by (simp add: div_mult2_eq [symmetric])
  moreover have "(2 :: nat) = Suc (Suc 0)" by simp
  ultimately show ?thesis by (simp only:)
qed

lemma le_bytes_4:
  "le_bytes 4 v = [of_nat v, of_nat (v div 2 ^ 8), of_nat (v div 2 ^ 16), of_nat (v div 2 ^ 24)]"
proof -
  have "le_bytes (Suc (Suc (Suc (Suc 0)))) v =
      [of_nat v, of_nat (v div 2 ^ 8), of_nat (v div 2 ^ 16), of_nat (v div 2 ^ 24)]"
    by (simp add: div_mult2_eq [symmetric])
  moreover have "(4 :: nat) = Suc (Suc (Suc (Suc 0)))" by simp
  ultimately show ?thesis by (simp only:)
qed

lemma le_bytes_8:
  "le_bytes 8 v = [of_nat v, of_nat (v div 2 ^ 8), of_nat (v div 2 ^ 16), of_nat (v div 2 ^ 24),
     of_nat (v div 2 ^ 32), of_nat (v div 2 ^ 40), of_nat (v div 2 ^ 48), of_nat (v div 2 ^ 56)]"
proof -
  have "le_bytes (Suc (Suc (Suc (Suc (Suc (Suc (Suc (Suc 0)))))))) v =
      [of_nat v, of_nat (v div 2 ^ 8), of_nat (v div 2 ^ 16), of_nat (v div 2 ^ 24),
       of_nat (v div 2 ^ 32), of_nat (v div 2 ^ 40), of_nat (v div 2 ^ 48), of_nat (v div 2 ^ 56)]"
    by (simp add: div_mult2_eq [symmetric])
  moreover have "(8 :: nat) = Suc (Suc (Suc (Suc (Suc (Suc (Suc (Suc 0)))))))" by simp
  ultimately show ?thesis by (simp only:)
qed

lemma le_word_2:
  "(ucast (b0 :: byte) :: 'a::len word) OR push_bit 8 (ucast (b1 :: byte)) = of_nat (le_val [b0, b1])"
  by (simp only: ucast_or_push_8)
    (simp only: ucast_byte_unat le_val.simps of_nat_add of_nat_mult of_nat_numeral of_nat_0
       mult_zero_right add_0_right)

lemma le_word_4:
  "(ucast (b0 :: byte) :: 'a::len word) OR push_bit 8 (ucast (b1 :: byte)) OR
     push_bit 16 (ucast (b2 :: byte)) OR push_bit 24 (ucast (b3 :: byte)) =
   of_nat (le_val [b0, b1, b2, b3])"
proof -
  have "(ucast b0 :: 'a word) OR push_bit 8 (ucast b1) OR push_bit 16 (ucast b2) OR
      push_bit 24 (ucast b3) =
      ucast b0 OR push_bit 8 (ucast b1 OR push_bit 8 (ucast b2 OR push_bit 8 (ucast b3)))"
    by (simp only: push_bit_or push_bit_push_bit) simp
  also have "\<dots> = of_nat (le_val [b0, b1, b2, b3])"
    by (simp only: ucast_or_push_8)
      (simp only: ucast_byte_unat le_val.simps of_nat_add of_nat_mult of_nat_numeral of_nat_0
         mult_zero_right add_0_right)
  finally show ?thesis .
qed

lemma le_word_8:
  "(ucast (b0 :: byte) :: 'a::len word) OR push_bit 8 (ucast (b1 :: byte)) OR
     push_bit 16 (ucast (b2 :: byte)) OR push_bit 24 (ucast (b3 :: byte)) OR
     push_bit 32 (ucast (b4 :: byte)) OR push_bit 40 (ucast (b5 :: byte)) OR
     push_bit 48 (ucast (b6 :: byte)) OR push_bit 56 (ucast (b7 :: byte)) =
   of_nat (le_val [b0, b1, b2, b3, b4, b5, b6, b7])"
proof -
  have "(ucast b0 :: 'a word) OR push_bit 8 (ucast b1) OR push_bit 16 (ucast b2) OR
      push_bit 24 (ucast b3) OR push_bit 32 (ucast b4) OR push_bit 40 (ucast b5) OR
      push_bit 48 (ucast b6) OR push_bit 56 (ucast b7) =
      ucast b0 OR push_bit 8 (ucast b1 OR push_bit 8 (ucast b2 OR push_bit 8 (ucast b3 OR
        push_bit 8 (ucast b4 OR push_bit 8 (ucast b5 OR push_bit 8 (ucast b6 OR
        push_bit 8 (ucast b7)))))))"
    by (simp only: push_bit_or push_bit_push_bit) simp
  also have "\<dots> = of_nat (le_val [b0, b1, b2, b3, b4, b5, b6, b7])"
    by (simp only: ucast_or_push_8)
      (simp only: ucast_byte_unat le_val.simps of_nat_add of_nat_mult of_nat_numeral of_nat_0
         mult_zero_right add_0_right)
  finally show ?thesis .
qed

lemma list_of_length_4: "length xs = 4 \<Longrightarrow> \<exists>a b c d. xs = [a, b, c, d]"
  by (auto simp: numeral_eq_Suc length_Suc_conv)

lemma list_of_length_8: "length xs = 8 \<Longrightarrow> \<exists>a b c d e f g h. xs = [a, b, c, d, e, f, g, h]"
  by (auto simp: numeral_eq_Suc length_Suc_conv)

lemma u16_range: "unat (v :: u16) < 65536"
  using unsigned_less [of v] by simp

lemma u32_range: "unat (v :: u32) < 2 ^ 32"
  using unsigned_less [of v] by simp

lemma u64_range: "unat (v :: u64) < 2 ^ 64"
  using unsigned_less [of v] by simp

lemma unat_ucast_small: "unat (v :: 'a::len word) < 2 ^ LENGTH('b) \<Longrightarrow> unat (ucast v :: 'b::len word) = unat v"
  by (simp add: unsigned_ucast_eq unsigned_take_bit_eq take_bit_nat_eq_self)

lemma unat_of_nat_len: "n < 2 ^ 64 \<Longrightarrow> unat (of_nat n :: u64) = n"
  by (simp add: unsigned_of_nat take_bit_nat_eq_self)

lemma unat_of_nat_u32: "n < 2 ^ 32 \<Longrightarrow> unat (of_nat n :: u32) = n"
  by (simp add: unsigned_of_nat take_bit_nat_eq_self)

lemma unat_max_sub: "unat ((-1) - acc :: u64) = 2 ^ 64 - 1 - unat acc"
proof -
  have m: "unat (-1 :: u64) = 2 ^ 64 - 1" by (simp add: unsigned_minus_1_eq_mask mask_eq_exp_minus_1)
  then have "acc \<le> -1" using u64_range [of acc] by (simp add: word_le_nat_alt)
  then show ?thesis by (simp only: unat_sub m)
qed

lemma add_fits_iff:
  "(v :: u64) > (-1) - acc \<longleftrightarrow> 2 ^ 64 \<le> unat acc + unat v"
  using u64_range [of acc] unfolding word_less_nat_alt unat_max_sub by linarith

lemma unat_add_fits: "unat acc + unat (v :: u64) < 2 ^ 64 \<Longrightarrow> unat (acc + v) = unat acc + unat v"
  by (simp add: unat_word_ariths)

section \<open>Lemmas: duplicate detection\<close>

lemma no_duplicates_iff: "no_duplicates seen xs \<longleftrightarrow> distinct xs \<and> set seen \<inter> set xs = {}"
  by (induction xs arbitrary: seen) auto

lemma no_duplicates_distinct [simp]: "no_duplicates [] xs = distinct xs"
  by (simp add: no_duplicates_iff)

section \<open>Lemmas: loops that append\<close>

lemma foldl_append: "foldl (\<lambda>d x. d @ f x) d xs = d @ concat (map f xs)"
  by (induction xs arbitrary: d) auto

lemma concat_length_ge:
  "(\<forall>x \<in> set xs. m \<le> length (f x)) \<Longrightarrow> length xs * m \<le> length (concat (map f xs))"
  by (induction xs) auto

lemma foldl_add_sum: "foldl (\<lambda>s x. s + f x) a xs = a + sum_list (map f xs)" for a :: nat
  by (induction xs arbitrary: a) auto

lemma length_concat_map: "(\<forall>x\<in>set xs. length (f x) = g x) \<Longrightarrow> length (concat (map f xs)) = sum_list (map g xs)"
  by (induction xs) auto

section \<open>Lemmas: digits, masks and bits of byte strings\<close>

lemma le_val_take_Suc: "i < length xs \<Longrightarrow> le_val (take (Suc i) xs) = le_val (take i xs) + 256 ^ i * unat (xs ! i)"
  by (simp add: take_Suc_conv_app_nth le_val_append)

lemma le_val_take_bound: "le_val (take i xs) < 256 ^ i"
proof -
  have "le_val (take i xs) < 256 ^ length (take i xs)" by (rule le_val_bound)
  also have "\<dots> \<le> 256 ^ i" by (rule power_increasing) simp_all
  finally show ?thesis .
qed

lemma digit_less:
  assumes "(x :: nat) < w" "a < b"
  shows "x + w * a < y + w * b"
proof -
  have "x + w * a < w + w * a" using assms(1) by simp
  also have "\<dots> = w * Suc a" by simp
  also have "\<dots> \<le> w * b" using assms(2) by (intro mult_le_mono2) simp
  finally show ?thesis by simp
qed

lemma le_val_update:
  assumes "i < length xs" "xs ! i = 0"
  shows "le_val (xs[i := b]) = le_val xs + 256 ^ i * unat b"
proof -
  have "le_val (xs[i := b]) = le_val (take i xs) + 256 ^ i * (unat b + 256 * le_val (drop (Suc i) xs))"
    using assms by (simp add: upd_conv_take_nth_drop le_val_append min_def)
  moreover have "le_val xs = le_val (take i xs) + 256 ^ i * (256 * le_val (drop (Suc i) xs))"
    using assms by (subst id_take_nth_drop [OF assms(1)]) (simp add: le_val_append min_def)
  ultimately show ?thesis by (simp add: algebra_simps)
qed

lemma unat_and_mask: "unat (v AND mask n) = unat v mod 2 ^ n"
  unfolding take_bit_eq_mask [symmetric] unsigned_take_bit_eq by (rule take_bit_eq_mod)

lemma mask_lits:
  "(0x7fffff :: u32) = mask 23" "(0xffffff :: u32) = mask 24" "(0xff :: u32) = mask 8" "(0xff :: u64) = mask 8"
  by (simp_all add: mask_eq_exp_minus_1)

lemma unat_byte_and: "unat (ucast (v AND 0xff) :: byte) = unat (v :: u32) mod 256"
  "unat (ucast (w AND 0xff) :: byte) = unat (w :: u64) mod 256"
proof -
  have "unat (v AND 0xff) = unat v mod 256" "unat (w AND 0xff) = unat w mod 256"
    unfolding mask_lits unat_and_mask by simp_all
  then show "unat (ucast (v AND 0xff) :: byte) = unat v mod 256"
    "unat (ucast (w AND 0xff) :: byte) = unat w mod 256"
    by (subst unat_ucast_small; simp)+
qed

lemma three_digits:
  assumes "(m :: nat) < 2 ^ 24"
  shows "m mod 256 + 256 * (m div 2 ^ 8 mod 256) + 65536 * (m div 2 ^ 16 mod 256) = m"
proof -
  define k where "k = m div 2 ^ 8"
  have k: "m div 2 ^ 16 = k div 256" by (simp add: k_def div_mult2_eq [symmetric])
  moreover have "m div 2 ^ 16 < 256" using assms by (simp add: less_mult_imp_div_less)
  ultimately have top: "m div 2 ^ 16 mod 256 = k div 256" by simp
  have "k mod 256 + 256 * (k div 256) = k" "m mod 256 + 256 * k = m"
    by (simp_all add: k_def)
  then show ?thesis unfolding top k_def [symmetric] by linarith
qed

lemma unat_push_bit: "unat (push_bit k (y :: 'a::len word)) = unat y * 2 ^ k mod 2 ^ LENGTH('a)"
proof -
  have "unat (push_bit k y) = take_bit LENGTH('a) (push_bit k (unat y))" by (rule unsigned_push_bit_eq)
  then show ?thesis by (simp only: push_bit_eq_mult take_bit_eq_mod)
qed

lemma or_push_val:
  fixes x y :: "'a::len word"
  assumes "unat x < 2 ^ k" "unat x + unat y * 2 ^ k < 2 ^ LENGTH('a)"
  shows "unat (x OR push_bit k y) = unat x + unat y * 2 ^ k"
proof -
  have "take_bit k x = x"
    using assms(1) by (simp add: word_unat_eq_iff unsigned_take_bit_eq take_bit_nat_eq_self)
  then have "x AND push_bit k y = 0"
    by (intro bit_word_eqI) (auto simp: bit_simps, metis bit_take_bit_iff linorder_not_less)
  then have "x + push_bit k y = x OR push_bit k y" by (rule disjunctive_add_eq_or)
  moreover have p: "unat (push_bit k y) = unat y * 2 ^ k"
    using assms(2) by (simp add: unat_push_bit)
  moreover have "unat (x + push_bit k y) = unat x + unat (push_bit k y)"
    using assms(2) unfolding p by (simp add: unat_word_ariths p)
  ultimately show ?thesis by simp
qed

lemma le_val_take_zeros:
  assumes "\<forall>j. s \<le> j \<and> j < length t \<longrightarrow> t ! j = 0"
  shows "le_val (take s t) = le_val t"
proof -
  have "le_val (drop s t) = 0"
    using assms by (auto simp: le_val_eq_0_iff in_set_conv_nth)
  then show ?thesis
    using le_val_append [of "take s t" "drop s t"] by simp
qed

lemma le_word_3:
  "(ucast (b0 :: byte) :: 'a::len word) OR push_bit 8 (ucast (b1 :: byte)) OR
     push_bit 16 (ucast (b2 :: byte)) = of_nat (le_val [b0, b1, b2])"
  using le_word_4 [of b0 b1 b2 0] by simp

lemma take3: "k + 2 < length t \<Longrightarrow> take (3 + k) t = take k t @ [t ! k, t ! (k + 1), t ! (k + 2)]"
  by (simp add: take_Suc_conv_app_nth numeral_3_eq_3)

lemma div_trunc_close:
  assumes "(w :: nat) > 0" "V > 0" "w = 1 \<or> 2 ^ 15 \<le> V div w"
  shows "V div w * w \<le> V \<and> V * 2 ^ 15 < V div w * w * (2 ^ 15 + 1)"
proof (cases "w = 1")
  case True
  then show ?thesis using assms(2) by simp
next
  case False
  let ?q = "V div w"
  have "V < (?q + 1) * w" using assms(1) by (simp add: dividend_less_div_times add.commute)
  then have "V * 2 ^ 15 < (?q + 1) * w * 2 ^ 15" by simp
  also have "\<dots> = ?q * w * 2 ^ 15 + 2 ^ 15 * w" by (simp add: algebra_simps)
  also have "\<dots> \<le> ?q * w * 2 ^ 15 + ?q * w" using assms(3) False by simp
  also have "\<dots> = ?q * w * (2 ^ 15 + 1)" by (simp add: algebra_simps)
  finally show ?thesis by simp
qed

lemma mod_high_add:
  assumes "v < 2 ^ 23" shows "(s * 2 ^ 24 + v) mod 2 ^ 23 = (v :: nat)"
proof -
  have "s * 2 ^ 24 + v = v + (s * 2) * 2 ^ 23" by simp
  then show ?thesis using assms by (simp only: mod_mult_self1) simp
qed

lemma unat_max64: "unat (-1 :: u64) = 2 ^ 64 - 1"
  by (simp add: unsigned_minus_1_eq_mask mask_eq_exp_minus_1)

lemma mul_overflow_iff:
  fixes x b :: u64
  shows "(x \<noteq> 0 \<and> b > (-1) div x) \<longleftrightarrow> 2 ^ 64 \<le> unat x * unat b"
proof (cases "x = 0")
  case False
  then have "unat x > 0" by (simp add: unat_gt_0)
  moreover have "b > (-1) div x \<longleftrightarrow> (2 ^ 64 - 1) div unat x < unat b"
    by (simp only: word_less_nat_alt unat_div unat_max64)
  moreover have "(2 ^ 64 - 1) div unat x < unat b \<longleftrightarrow> 2 ^ 64 - 1 < unat x * unat b" if "unat x > 0"
    using that by (simp add: div_less_iff_less_mult mult.commute)
  ultimately show ?thesis using False by auto
qed simp

lemma unat_mult_fits: "unat x * unat b < 2 ^ 64 \<Longrightarrow> unat (x * b :: u64) = unat x * unat b"
  by (simp add: unat_word_ariths)

lemma unat_ucast_byte64 [simp]: "unat (ucast (x :: byte) :: u64) = unat x"
  using unat_byte_lt [of x] by (intro unat_ucast_small) simp

lemma word_of_unat: "unat (w :: 'a::len word) = n \<Longrightarrow> w = of_nat n"
  by auto

lemma div_split: "(0 :: nat) < d \<Longrightarrow> (w * x + y) div d = w * (x div d) + (w * (x mod d) + y) div d"
proof -
  assume d: "0 < d"
  have "w * x = w * (d * (x div d) + x mod d)" by simp
  also have "\<dots> = d * (w * (x div d)) + w * (x mod d)"
    by (simp only: distrib_left mult.left_commute)
  finally have "w * x + y = d * (w * (x div d)) + (w * (x mod d) + y)" by simp
  then have "(w * x + y) div d = (d * (w * (x div d)) + (w * (x mod d) + y)) div d" by (rule arg_cong)
  also have "\<dots> = w * (x div d) + (w * (x mod d) + y) div d" using d by (intro div_mult_self4) simp
  finally show ?thesis .
qed

lemma bit_le_val: "bit (le_val bs) n \<longleftrightarrow> n div 8 < length bs \<and> bit (bs ! (n div 8)) (n mod 8)"
proof (induction bs arbitrary: n)
  case Nil
  then show ?case by simp
next
  case (Cons b bs)
  have "unat b = take_bit 8 (unat b)" using unat_byte_lt [of b] by (simp add: take_bit_nat_eq_self)
  then have s: "bit (unat b) n \<Longrightarrow> n < 8" for n by (metis bit_take_bit_iff)
  then have "unat b AND push_bit 8 (le_val bs) = 0"
    by (intro bit_eqI) (simp only: bit_and_iff bit_push_bit_iff, force)
  then have "unat b + push_bit 8 (le_val bs) = unat b OR push_bit 8 (le_val bs)"
    by (rule disjunctive_add_eq_or)
  then have v: "le_val (b # bs) = unat b OR push_bit 8 (le_val bs)"
    by (simp add: push_bit_eq_mult mult.commute)
  show ?case
  proof (cases "n < 8")
    case True
    then show ?thesis unfolding v bit_or_iff bit_push_bit_iff bit_unsigned_iff by simp
  next
    case False
    then obtain m where m: "n = 8 + m" using le_Suc_ex [of 8 n] by auto
    have "\<not> bit (unat b) n" using False s by blast
    moreover have "(8 + m) div 8 = Suc (m div 8)" by simp
    ultimately show ?thesis unfolding v bit_or_iff bit_push_bit_iff Cons.IH m by simp
  qed
qed

lemma bit_le_val_at: "j < 8 \<Longrightarrow> bit (le_val v) (8 * q + j) \<longleftrightarrow> q < length v \<and> bit (v ! q) j"
  by (simp add: bit_le_val)

lemma le_val_eqI_bits:
  assumes "\<And>n. n < 8 * length bs \<Longrightarrow> bit (bs ! (n div 8)) (n mod 8) \<longleftrightarrow> bit v n"
  shows "le_val bs = take_bit (8 * length bs) v"
proof (rule bit_eqI)
  fix n
  have "n div 8 < length bs \<longleftrightarrow> n < 8 * length bs" by (simp add: div_less_iff_less_mult mult.commute)
  then show "bit (le_val bs) n = bit (take_bit (8 * length bs) v) n"
    using assms [of n] by (auto simp: bit_le_val bit_take_bit_iff)
qed

lemma le_val_ones: "le_val (replicate n 0xFF) = 256 ^ n - 1"
proof (induction n)
  case (Suc n)
  obtain k where "(256 :: nat) ^ n = Suc k" by (cases "(256 :: nat) ^ n") auto
  then show ?case using Suc by simp
qed simp

lemma unat_ucast_byte32 [simp]: "unat (ucast (x :: byte) :: u32) = unat x"
  using unat_byte_lt [of x] by (intro unat_ucast_small) simp

lemma cdiv_exact: "cdiv (8 * k) 8 = k"
  by (simp add: cdiv_def abs_mult sgn_mult sgn_mult_abs)

lemma le_bytes_back: "unat (n :: 'a::len word) < 256 ^ k \<Longrightarrow> of_nat (le_val (le_bytes k (unat n))) = n"
  by (simp add: le_val_le_bytes)

lemma le_read [simp]:
  "of_nat (le_val (le_bytes 4 (unat (v :: u32)))) = v" "of_nat (le_val (le_bytes 8 (unat (x :: u64)))) = x"
  using u32_range [of v] u64_range [of x] by (simp_all add: le_bytes_back)

end
