(* ===== verification/Codec.thy ===== *)
theory Codec
  imports Prelude
begin

text \<open>
  The interface between an encoder that appends bytes and the decoder that reads them back
  from a moving pointer, and what a client may conclude from it. Interpretations of the locale
  on the serializers of \<open>primitives/transaction.cpp\<close> and \<open>consensus/validation.cpp\<close> stand
  in the theories that define them.
\<close>

text \<open>\<open>decode_n n dec p\<close> is the loop that decodes \<open>n\<close> elements one after the other.\<close>

fun decode_n :: "nat \<Rightarrow> (bytes \<Rightarrow> 'e + 'a \<times> bytes) \<Rightarrow> bytes \<Rightarrow> 'e + 'a list \<times> bytes" where
  "decode_n 0 dec p = Inr ([], p)"
| "decode_n (Suc n) dec p =
     bindE (dec p) (\<lambda>(x, p). bindE (decode_n n dec p) (\<lambda>(xs, p). Inr (x # xs, p)))"

text \<open>
  A decoder \<open>dec\<close> reads back what \<open>enc\<close> wrote for every value in \<open>ok\<close>, whatever bytes
  follow.
\<close>

locale codec =
  fixes enc :: "'a \<Rightarrow> bytes"
    and dec :: "bytes \<Rightarrow> 'e + 'a \<times> bytes"
    and ok :: "'a \<Rightarrow> bool"
  assumes dec_enc: "ok x \<Longrightarrow> dec (enc x @ rest) = Inr (x, rest)"
begin

lemma dec_enc_all: "ok x \<Longrightarrow> dec (enc x) = Inr (x, [])"
  using dec_enc [of x "[]"] by simp

text \<open>No valid encoding is a proper prefix of another, so \<open>enc\<close> is injective.\<close>

lemma enc_prefix_free:
  assumes "ok x" "ok y" "enc x @ r = enc y @ s"
  shows "x = y \<and> r = s"
proof -
  have "Inr (x, r) = dec (enc x @ r)" using assms(1) by (rule dec_enc [symmetric])
  also have "\<dots> = dec (enc y @ s)" by (simp only: assms(3))
  also have "\<dots> = Inr (y, s)" using assms(2) by (rule dec_enc)
  finally show ?thesis by simp
qed

lemma enc_inject: "ok x \<Longrightarrow> ok y \<Longrightarrow> enc x = enc y \<Longrightarrow> x = y"
  using enc_prefix_free [of x y "[]" "[]"] by simp

text \<open>Sequences: decoding as many elements as were encoded gives them back.\<close>

lemma decode_n_concat:
  assumes "\<forall>x \<in> set xs. ok x"
  shows "decode_n (length xs) dec (concat (map enc xs) @ rest) = Inr (xs, rest)"
  using assms
proof (induction xs)
  case Nil
  then show ?case by simp
next
  case (Cons x xs)
  then show ?case by (simp add: dec_enc)
qed

lemma concat_enc_inject:
  assumes "\<forall>x \<in> set xs. ok x" "\<forall>y \<in> set ys. ok y" "length xs = length ys"
    and "concat (map enc xs) @ r = concat (map enc ys) @ s"
  shows "xs = ys \<and> r = s"
proof -
  have "Inr (xs, r) = decode_n (length xs) dec (concat (map enc xs) @ r)"
    using assms(1) by (rule decode_n_concat [symmetric])
  also have "\<dots> = decode_n (length ys) dec (concat (map enc ys) @ s)"
    by (simp only: assms(3,4))
  also have "\<dots> = Inr (ys, s)"
    using assms(2) by (rule decode_n_concat)
  finally show ?thesis by simp
qed

end

lemma suffix_chain:
  assumes "\<exists>u. p = u @ q \<and> m \<le> length u" "\<exists>u. q = u @ r \<and> n \<le> length u"
  shows "\<exists>u. p = u @ r \<and> m + n \<le> length u"
proof -
  from assms obtain u v where "p = u @ q" "m \<le> length u" "q = v @ r" "n \<le> length v" by blast
  then show ?thesis by (intro exI [of _ "u @ v"]) simp
qed

lemma suffix_drop: "n \<le> length p \<Longrightarrow> \<exists>u. p = u @ drop n p \<and> n \<le> length u"
  by (intro exI [of _ "take n p"]) simp

text \<open>
  A decoder is \<^emph>\<open>sound\<close> when what it returns satisfies \<open>post\<close> and the pointer only moves
  forward, by at least \<open>m\<close> bytes; loops keep both.
\<close>

locale sound_decoder =
  fixes dec :: "bytes \<Rightarrow> 'e + 'a \<times> bytes"
    and post :: "'a \<Rightarrow> bool"
    and m :: nat
  assumes dec_post: "dec p = Inr (x, p') \<Longrightarrow> post x"
    and dec_suffix: "dec p = Inr (x, p') \<Longrightarrow> \<exists>u. p = u @ p' \<and> m \<le> length u"
begin

lemma decode_n_post:
  "decode_n n dec p = Inr (xs, p') \<Longrightarrow> length xs = n \<and> (\<forall>x \<in> set xs. post x)"
proof (induction n arbitrary: p xs)
  case 0
  then show ?case by simp
next
  case (Suc n)
  then show ?case
    by (fastforce simp: bindE_Inr_iff split: prod.splits dest: dec_post)
qed

lemma decode_n_suffix:
  "decode_n n dec p = Inr (xs, p') \<Longrightarrow> \<exists>u. p = u @ p' \<and> n * m \<le> length u"
proof (induction n arbitrary: p xs)
  case 0
  then show ?case by simp
next
  case (Suc n)
  then obtain x q ys where d: "dec p = Inr (x, q)" and r: "decode_n n dec q = Inr (ys, p')"
    by (auto simp: bindE_Inr_iff split: prod.splits)
  obtain u where "p = u @ q" "m \<le> length u" using dec_suffix [OF d] by blast
  moreover obtain v where "q = v @ p'" "n * m \<le> length v" using Suc.IH [OF r] by blast
  ultimately show ?case by (intro exI [of _ "u @ v"]) simp
qed

end

end
