(* ===== verification/Transaction.thy ===== *)
theory Transaction
  imports Codec
begin

text \<open>
  \<open>src/src/primitives/transaction.h\<close> and \<open>transaction.cpp\<close>: outpoints, inputs, outputs and
  transactions with their hash cache; the serializer, the signing preimage, the size
  computation, the structural check, the output total and the deserializer.

  Pointers into the input buffer are the list of the bytes from the pointer to the end. A
  failed \<open>Deserialize\<close> returns the error only; the half-filled object that C++ leaves behind
  is not represented. SHA3-256 is the parameter \<open>sha3\<close>.
\<close>

section \<open>Data\<close>

record COutPoint =
  op_hash :: uint256
  op_n :: u32

record CTxIn =
  prevout :: COutPoint
  scriptSig :: bytes
  nSequence :: u32

record CTxOut =
  nValue :: u64
  scriptPubKey :: bytes

record CTransaction =
  nVersion :: i32
  vin :: "CTxIn list"
  vout :: "CTxOut list"
  nLockTime :: u32
  hash_cached :: uint256
  hash_valid :: bool

datatype tx_error =
    InsufficientDataUint32
  | InsufficientDataUint64
  | InsufficientDataCompactSize
  | InsufficientDataCompactSize2
  | TooManyInputs
  | ClaimsMoreInputsThanData
  | InsufficientDataPrevoutHash
  | ScriptSigTooLarge
  | InsufficientDataScriptSig
  | TooManyOutputs
  | ClaimsMoreOutputsThanData
  | ScriptPubKeyTooLarge
  | InsufficientDataScriptPubKey
  | ExtraDataAfterTransaction

definition IsNull256 :: "uint256 \<Rightarrow> bool" where
  "IsNull256 h \<longleftrightarrow> list_all (\<lambda>b. b = 0) h"

definition COutPoint_IsNull :: "COutPoint \<Rightarrow> bool" where
  "COutPoint_IsNull o' \<longleftrightarrow> IsNull256 (op_hash o') \<and> op_n o' = 0xffffffff"

definition SEQUENCE_FINAL :: u32 where
  "SEQUENCE_FINAL = 0xffffffff"

text \<open>The default constructor, the copy constructor and \<open>SetNull\<close>.\<close>

definition CTransaction_default :: CTransaction where
  "CTransaction_default = \<lparr>nVersion = 1, vin = [], vout = [], nLockTime = 0,
     hash_cached = zero256, hash_valid = False\<rparr>"

definition CTransaction_copy :: "CTransaction \<Rightarrow> CTransaction" where
  "CTransaction_copy tx = \<lparr>nVersion = nVersion tx, vin = vin tx, vout = vout tx,
     nLockTime = nLockTime tx, hash_cached = zero256, hash_valid = False\<rparr>"

definition CTransaction_SetNull :: "CTransaction \<Rightarrow> CTransaction" where
  "CTransaction_SetNull tx =
     tx\<lparr>nVersion := 1, vin := [], vout := [], nLockTime := 0, hash_valid := False\<rparr>"

definition CTransaction_IsNull :: "CTransaction \<Rightarrow> bool" where
  "CTransaction_IsNull tx \<longleftrightarrow> vin tx = [] \<and> vout tx = []"

definition IsCoinBase :: "CTransaction \<Rightarrow> bool" where
  "IsCoinBase tx \<longleftrightarrow> length (vin tx) = 1 \<and> COutPoint_IsNull (prevout (vin tx ! 0))"

section \<open>Serialization\<close>

definition SerializeUint32 :: "bytes \<Rightarrow> u32 \<Rightarrow> bytes" where
  "SerializeUint32 data value = data @
     [ucast value, ucast (drop_bit 8 value), ucast (drop_bit 16 value), ucast (drop_bit 24 value)]"

definition SerializeUint64 :: "bytes \<Rightarrow> u64 \<Rightarrow> bytes" where
  "SerializeUint64 data value = data @
     [ucast value, ucast (drop_bit 8 value), ucast (drop_bit 16 value), ucast (drop_bit 24 value),
      ucast (drop_bit 32 value), ucast (drop_bit 40 value), ucast (drop_bit 48 value),
      ucast (drop_bit 56 value)]"

definition SerializeCompactSize :: "bytes \<Rightarrow> u64 \<Rightarrow> bytes" where
  "SerializeCompactSize data size' =
     (if size' < 253 then data @ [ucast size']
      else if size' \<le> 0xFFFF then data @ [253, ucast size', ucast (drop_bit 8 size')]
      else if size' \<le> 0xFFFFFFFF then SerializeUint32 (data @ [254]) (ucast size')
      else SerializeUint64 (data @ [255]) size')"

definition SerializeTxIn :: "bytes \<Rightarrow> CTxIn \<Rightarrow> bytes" where
  "SerializeTxIn data txin =
     (let data = data @ op_hash (prevout txin);
          data = SerializeUint32 data (op_n (prevout txin));
          data = SerializeCompactSize data (of_nat (length (scriptSig txin)));
          data = data @ scriptSig txin
      in SerializeUint32 data (nSequence txin))"

definition SerializeTxOut :: "bytes \<Rightarrow> CTxOut \<Rightarrow> bytes" where
  "SerializeTxOut data txout =
     (let data = SerializeUint64 data (nValue txout);
          data = SerializeCompactSize data (of_nat (length (scriptPubKey txout)))
      in data @ scriptPubKey txout)"

definition Serialize :: "CTransaction \<Rightarrow> bytes" where
  "Serialize tx =
     (let data = SerializeUint32 [] (nVersion tx);
          data = SerializeCompactSize data (of_nat (length (vin tx)));
          data = foldl SerializeTxIn data (vin tx);
          data = SerializeCompactSize data (of_nat (length (vout tx)));
          data = foldl SerializeTxOut data (vout tx)
      in SerializeUint32 data (nLockTime tx))"

text \<open>\<open>GetHash\<close> fills the cache and returns the object with it.\<close>

definition GetHash :: "(bytes \<Rightarrow> uint256) \<Rightarrow> CTransaction \<Rightarrow> uint256 \<times> CTransaction" where
  "GetHash sha3 tx =
     (let tx' = (if \<not> hash_valid tx
                 then tx\<lparr>hash_cached := sha3 (Serialize tx), hash_valid := True\<rparr> else tx)
      in (hash_cached tx', tx'))"

text \<open>\<open>GetSigningHash\<close>: the same layout with every scriptSig replaced by the empty one.\<close>

definition SigningTxIn :: "bytes \<Rightarrow> CTxIn \<Rightarrow> bytes" where
  "SigningTxIn data txin =
     (let data = data @ op_hash (prevout txin);
          data = SerializeUint32 data (op_n (prevout txin));
          data = SerializeCompactSize data 0
      in SerializeUint32 data (nSequence txin))"

definition SigningPreimage :: "CTransaction \<Rightarrow> bytes" where
  "SigningPreimage tx =
     (let data = SerializeUint32 [] (nVersion tx);
          data = SerializeCompactSize data (of_nat (length (vin tx)));
          data = foldl SigningTxIn data (vin tx);
          data = SerializeCompactSize data (of_nat (length (vout tx)));
          data = foldl SerializeTxOut data (vout tx)
      in SerializeUint32 data (nLockTime tx))"

definition GetSigningHash :: "(bytes \<Rightarrow> uint256) \<Rightarrow> CTransaction \<Rightarrow> uint256" where
  "GetSigningHash sha3 tx = sha3 (SigningPreimage tx)"

definition CompactSizeLen :: "nat \<Rightarrow> nat" where
  "CompactSizeLen size' =
     (if size' < 253 then 1 else if size' \<le> 0xFFFF then 3
      else if size' \<le> 0xFFFFFFFF then 5 else 9)"

definition GetSerializedSize :: "CTransaction \<Rightarrow> nat" where
  "GetSerializedSize tx =
     (let size' = 4;
          size' = size' + CompactSizeLen (length (vin tx));
          size' = foldl (\<lambda>s txin. s + 32 + 4 + CompactSizeLen (length (scriptSig txin))
                    + length (scriptSig txin) + 4) size' (vin tx);
          size' = size' + CompactSizeLen (length (vout tx));
          size' = foldl (\<lambda>s txout. s + 8 + CompactSizeLen (length (scriptPubKey txout))
                    + length (scriptPubKey txout)) size' (vout tx)
      in size' + 4)"

section \<open>Checks\<close>

text \<open>The loop over the outputs: value cap and overflow test on the running total.\<close>

fun CheckOutputTotals :: "u64 \<Rightarrow> CTxOut list \<Rightarrow> bool" where
  "CheckOutputTotals totalOut [] = True"
| "CheckOutputTotals totalOut (txout # txouts) =
     (if nValue txout > 21000000 * 100000000 then False
      else if nValue txout > (-1) - totalOut then False
      else CheckOutputTotals (totalOut + nValue txout) txouts)"

definition CheckBasicStructure :: "CTransaction \<Rightarrow> bool" where
  "CheckBasicStructure tx =
     (if vin tx = [] then False
      else if vout tx = [] then False
      else if \<not> CheckOutputTotals 0 (vout tx) then False
      else if GetSerializedSize tx > 1000000 then False
      else if IsCoinBase tx then
        \<not> (length (scriptSig (vin tx ! 0)) < 2 \<or> length (scriptSig (vin tx ! 0)) > 6000)
      else if list_ex (\<lambda>txin. COutPoint_IsNull (prevout txin)) (vin tx) then False
      else no_duplicates [] (map prevout (vin tx)))"

text \<open>\<open>GetValueOut\<close> throws on overflow: \<open>None\<close>.\<close>

fun GetValueOut_loop :: "u64 \<Rightarrow> CTxOut list \<Rightarrow> u64 option" where
  "GetValueOut_loop acc [] = Some acc"
| "GetValueOut_loop acc (txout # txouts) =
     (if nValue txout > (-1) - acc then None
      else GetValueOut_loop (acc + nValue txout) txouts)"

definition GetValueOut :: "CTransaction \<Rightarrow> u64 option" where
  "GetValueOut tx = GetValueOut_loop 0 (vout tx)"

section \<open>Deserialization\<close>

fun DeserializeUint32 :: "bytes \<Rightarrow> tx_error + u32 \<times> bytes" where
  "DeserializeUint32 (b0 # b1 # b2 # b3 # ptr) =
     Inr (ucast b0 OR push_bit 8 (ucast b1) OR push_bit 16 (ucast b2) OR push_bit 24 (ucast b3), ptr)"
| "DeserializeUint32 _ = Inl InsufficientDataUint32"

fun DeserializeUint64 :: "bytes \<Rightarrow> tx_error + u64 \<times> bytes" where
  "DeserializeUint64 (b0 # b1 # b2 # b3 # b4 # b5 # b6 # b7 # ptr) =
     Inr (ucast b0 OR push_bit 8 (ucast b1) OR push_bit 16 (ucast b2) OR push_bit 24 (ucast b3) OR
          push_bit 32 (ucast b4) OR push_bit 40 (ucast b5) OR push_bit 48 (ucast b6) OR
          push_bit 56 (ucast b7), ptr)"
| "DeserializeUint64 _ = Inl InsufficientDataUint64"

definition DeserializeCompactSize :: "bytes \<Rightarrow> tx_error + u64 \<times> bytes" where
  "DeserializeCompactSize ptr =
     (case ptr of [] \<Rightarrow> Inl InsufficientDataCompactSize
      | first # ptr \<Rightarrow>
          if first < 253 then Inr (ucast first, ptr)
          else if first = 253 then
            (case ptr of
               b0 # b1 # ptr \<Rightarrow> Inr (ucast b0 OR push_bit 8 (ucast b1), ptr)
             | _ \<Rightarrow> Inl InsufficientDataCompactSize2)
          else if first = 254 then
            bindE (DeserializeUint32 ptr) (\<lambda>(size32, ptr). Inr (ucast size32, ptr))
          else DeserializeUint64 ptr)"

definition DeserializeTxIn :: "bytes \<Rightarrow> tx_error + CTxIn \<times> bytes" where
  "DeserializeTxIn ptr =
     (if length ptr < 32 then Inl InsufficientDataPrevoutHash
      else
        bindE (DeserializeUint32 (drop 32 ptr)) (\<lambda>(n, ptr1).
        bindE (DeserializeCompactSize ptr1) (\<lambda>(scriptSig_len, ptr2).
          if scriptSig_len > 20000 then Inl ScriptSigTooLarge
          else if length ptr2 < unat scriptSig_len then Inl InsufficientDataScriptSig
          else
            bindE (DeserializeUint32 (drop (unat scriptSig_len) ptr2)) (\<lambda>(sequence, ptr3).
              Inr (\<lparr>prevout = \<lparr>op_hash = take 32 ptr, op_n = n\<rparr>,
                    scriptSig = take (unat scriptSig_len) ptr2, nSequence = sequence\<rparr>, ptr3)))))"

definition DeserializeTxOut :: "bytes \<Rightarrow> tx_error + CTxOut \<times> bytes" where
  "DeserializeTxOut ptr =
     bindE (DeserializeUint64 ptr) (\<lambda>(value, ptr1).
     bindE (DeserializeCompactSize ptr1) (\<lambda>(scriptPubKey_len, ptr2).
       if scriptPubKey_len > 10000 then Inl ScriptPubKeyTooLarge
       else if length ptr2 < unat scriptPubKey_len then Inl InsufficientDataScriptPubKey
       else Inr (\<lparr>nValue = value, scriptPubKey = take (unat scriptPubKey_len) ptr2\<rparr>,
                 drop (unat scriptPubKey_len) ptr2)))"

text \<open>
  \<open>Deserialize this data wants\<close>: \<open>wants\<close> says that the caller passed \<open>bytesConsumed\<close>; the
  number of bytes read is returned beside the transaction.
\<close>

definition Deserialize :: "CTransaction \<Rightarrow> bytes \<Rightarrow> bool \<Rightarrow> tx_error + CTransaction \<times> nat" where
  "Deserialize this data wants =
     bindE (DeserializeUint32 data) (\<lambda>(version, ptr).
     bindE (DeserializeCompactSize ptr) (\<lambda>(vin_count, ptr).
       if vin_count > 100000 then Inl TooManyInputs
       else if unat vin_count * 41 > length ptr then Inl ClaimsMoreInputsThanData
       else
         bindE (decode_n (unat vin_count) DeserializeTxIn ptr) (\<lambda>(ins, ptr).
         bindE (DeserializeCompactSize ptr) (\<lambda>(vout_count, ptr).
           if vout_count > 100000 then Inl TooManyOutputs
           else if unat vout_count * 9 > length ptr then Inl ClaimsMoreOutputsThanData
           else
             bindE (decode_n (unat vout_count) DeserializeTxOut ptr) (\<lambda>(outs, ptr).
             bindE (DeserializeUint32 ptr) (\<lambda>(lockTime, ptr).
               if \<not> wants \<and> ptr \<noteq> [] then Inl ExtraDataAfterTransaction
               else Inr ((CTransaction_SetNull this)\<lparr>nVersion := version, vin := ins, vout := outs,
                           nLockTime := lockTime, hash_valid := False\<rparr>,
                         length data - length ptr)))))))"

section \<open>What the wire format can carry\<close>

definition wf_txin :: "CTxIn \<Rightarrow> bool" where
  "wf_txin t \<longleftrightarrow> wf256 (op_hash (prevout t)) \<and> length (scriptSig t) \<le> 20000"

definition wf_txout :: "CTxOut \<Rightarrow> bool" where
  "wf_txout t \<longleftrightarrow> length (scriptPubKey t) \<le> 10000"

definition wf_tx :: "CTransaction \<Rightarrow> bool" where
  "wf_tx tx \<longleftrightarrow> length (vin tx) \<le> 100000 \<and> length (vout tx) \<le> 100000 \<and>
     list_all wf_txin (vin tx) \<and> list_all wf_txout (vout tx)"

definition drop_scriptSigs :: "CTransaction \<Rightarrow> CTransaction" where
  "drop_scriptSigs tx = tx\<lparr>vin := map (\<lambda>i. i\<lparr>scriptSig := []\<rparr>) (vin tx)\<rparr>"

definition hash_inv :: "(bytes \<Rightarrow> uint256) \<Rightarrow> CTransaction \<Rightarrow> bool" where
  "hash_inv sha3 tx \<longleftrightarrow> (hash_valid tx \<longrightarrow> hash_cached tx = sha3 (Serialize tx))"

definition output_sum :: "CTransaction \<Rightarrow> nat" where
  "output_sum tx = sum_list (map (\<lambda>o'. unat (nValue o')) (vout tx))"

section \<open>Lemmas: the codecs\<close>

lemma SerializeUint32_le: "SerializeUint32 data v = data @ le_bytes 4 (unat v)"
  unfolding SerializeUint32_def le_bytes_4 ucast_drop_bit_byte unfolding ucast_word_byte ..

lemma SerializeUint64_le: "SerializeUint64 data v = data @ le_bytes 8 (unat v)"
  unfolding SerializeUint64_def le_bytes_8 ucast_drop_bit_byte unfolding ucast_word_byte ..

lemma DeserializeUint32_append:
  assumes "length bs = 4"
  shows "DeserializeUint32 (bs @ ptr) = Inr (of_nat (le_val bs), ptr)"
proof -
  obtain a b c d where "bs = [a, b, c, d]" using list_of_length_4 [OF assms] by blast
  then show ?thesis by (simp only: append.simps DeserializeUint32.simps le_word_4)
qed

lemma DeserializeUint64_append:
  assumes "length bs = 8"
  shows "DeserializeUint64 (bs @ ptr) = Inr (of_nat (le_val bs), ptr)"
proof -
  obtain a b c d e f g h where "bs = [a, b, c, d, e, f, g, h]"
    using list_of_length_8 [OF assms] by blast
  then show ?thesis by (simp only: append.simps DeserializeUint64.simps le_word_8)
qed

interpretation u32: codec "SerializeUint32 []" DeserializeUint32 "\<lambda>_. True"
  by unfold_locales
    (use u32_range in \<open>simp add: SerializeUint32_le DeserializeUint32_append le_val_le_bytes\<close>)

interpretation u64: codec "SerializeUint64 []" DeserializeUint64 "\<lambda>_. True"
  by unfold_locales
    (use u64_range in \<open>simp add: SerializeUint64_le DeserializeUint64_append le_val_le_bytes\<close>)

lemma SerializeCompactSize_append:
  "SerializeCompactSize data n = data @ SerializeCompactSize [] n"
  by (simp add: SerializeCompactSize_def SerializeUint32_le SerializeUint64_le)

lemma length_SerializeCompactSize:
  "length (SerializeCompactSize [] n) = CompactSizeLen (unat n)"
  by (auto simp: SerializeCompactSize_def CompactSizeLen_def SerializeUint32_le SerializeUint64_le
      word_less_nat_alt word_le_nat_alt)

lemma DeserializeCompactSize_enc:
  "DeserializeCompactSize (SerializeCompactSize [] n @ rest) = Inr (n, rest)"
proof -
  consider (a) "n < 253" | (b) "253 \<le> n" "n \<le> 0xFFFF" | (c) "0xFFFF < n" "n \<le> 0xFFFFFFFF"
    | (d) "0xFFFFFFFF < n" by force
  then show ?thesis
  proof cases
    case a
    then have n: "unat n < 253" by (simp add: word_less_nat_alt)
    then have b: "unat (ucast n :: byte) = unat n"
      by (intro unat_ucast_small) simp
    have "unat (ucast (ucast n :: byte) :: u64) = unat n"
      using n by (subst unat_ucast_small) (simp_all add: b)
    moreover have "(ucast n :: byte) < 253"
      using n b by (simp add: word_less_nat_alt)
    ultimately show ?thesis
      using a by (simp add: word_unat_eq_iff SerializeCompactSize_def DeserializeCompactSize_def)
  next
    case b
    have n: "unat n < 65536" using b(2) by (simp add: word_le_nat_alt)
    have "SerializeCompactSize [] n = 253 # le_bytes 2 (unat n)"
      using b unfolding SerializeCompactSize_def le_bytes_2 ucast_drop_bit_byte
      by simp
    moreover have "of_nat (le_val (le_bytes 2 (unat n))) = n"
      using n by (simp only: le_val_le_bytes) (simp)
    moreover have "DeserializeCompactSize (253 # le_bytes 2 (unat n) @ rest) =
        Inr (of_nat (le_val (le_bytes 2 (unat n))), rest)"
      unfolding le_bytes_2 by (simp add: DeserializeCompactSize_def le_word_2 del: le_val.simps)
    ultimately show ?thesis by simp
  next
    case c
    have n: "unat n < 2 ^ 32" using c(2) by (simp add: word_le_nat_alt)
    then have "(ucast (ucast n :: u32) :: u64) = n"
      by (intro word_unat_eq_iff [THEN iffD2]) (simp add: unat_ucast_small)
    moreover have "SerializeCompactSize [] n = 254 # SerializeUint32 [] (ucast n)"
      using c by (simp add: SerializeCompactSize_def SerializeUint32_le word_less_nat_alt word_le_nat_alt)
    ultimately show ?thesis
      by (simp add: DeserializeCompactSize_def u32.dec_enc)
  next
    case d
    then have "SerializeCompactSize [] n = 255 # SerializeUint64 [] n"
      by (simp add: SerializeCompactSize_def SerializeUint64_le word_less_nat_alt word_le_nat_alt)
    then show ?thesis
      by (simp add: DeserializeCompactSize_def u64.dec_enc)
  qed
qed

interpretation compact: codec "SerializeCompactSize []" DeserializeCompactSize "\<lambda>_. True"
  by unfold_locales (rule DeserializeCompactSize_enc)

lemma SerializeTxIn_append: "SerializeTxIn data t = data @ SerializeTxIn [] t"
  unfolding SerializeTxIn_def Let_def SerializeUint32_le
  by (subst (1 2) SerializeCompactSize_append) simp

lemma SerializeTxOut_append: "SerializeTxOut data t = data @ SerializeTxOut [] t"
  unfolding SerializeTxOut_def Let_def SerializeUint64_le
  by (subst (1 2) SerializeCompactSize_append) simp

lemma SerializeTxIn_eq:
  "SerializeTxIn [] t = op_hash (prevout t) @ SerializeUint32 [] (op_n (prevout t)) @
     SerializeCompactSize [] (of_nat (length (scriptSig t))) @ scriptSig t @
     SerializeUint32 [] (nSequence t)"
  unfolding SerializeTxIn_def Let_def SerializeUint32_le
  by (subst SerializeCompactSize_append) simp

lemma SerializeTxOut_eq:
  "SerializeTxOut [] t = SerializeUint64 [] (nValue t) @
     SerializeCompactSize [] (of_nat (length (scriptPubKey t))) @ scriptPubKey t"
  unfolding SerializeTxOut_def Let_def SerializeUint64_le
  by (subst SerializeCompactSize_append) simp

lemma Serialize_eq:
  "Serialize tx = SerializeUint32 [] (nVersion tx) @ SerializeCompactSize [] (of_nat (length (vin tx))) @
     concat (map (SerializeTxIn []) (vin tx)) @ SerializeCompactSize [] (of_nat (length (vout tx))) @
     concat (map (SerializeTxOut []) (vout tx)) @ SerializeUint32 [] (nLockTime tx)"
proof -
  have i: "foldl SerializeTxIn d xs = d @ concat (map (SerializeTxIn []) xs)" for d xs
    by (subst foldl_append [symmetric]) (simp only: SerializeTxIn_append [symmetric])
  have o: "foldl SerializeTxOut d xs = d @ concat (map (SerializeTxOut []) xs)" for d xs
    by (subst foldl_append [symmetric]) (simp only: SerializeTxOut_append [symmetric])
  show ?thesis
    unfolding Serialize_def Let_def i o SerializeUint32_le
    by (subst SerializeCompactSize_append, subst (2) SerializeCompactSize_append) simp
qed

lemma DeserializeTxIn_enc:
  assumes "wf_txin t"
  shows "DeserializeTxIn (SerializeTxIn [] t @ rest) = Inr (t, rest)"
proof -
  let ?n = "of_nat (length (scriptSig t)) :: u64"
  have "length (op_hash (prevout t)) = 32" and l: "length (scriptSig t) \<le> 20000"
    using assms by (auto simp: wf_txin_def wf256_def)
  moreover have "unat ?n = length (scriptSig t)"
    using l by (intro unat_of_nat_len) simp
  moreover have "\<not> ?n > 20000"
    using l \<open>unat ?n = length (scriptSig t)\<close> by (simp add: word_less_nat_alt)
  ultimately show ?thesis
    unfolding DeserializeTxIn_def SerializeTxIn_eq
    by (simp add: u32.dec_enc compact.dec_enc)
qed

lemma DeserializeTxOut_enc:
  assumes "wf_txout t"
  shows "DeserializeTxOut (SerializeTxOut [] t @ rest) = Inr (t, rest)"
proof -
  let ?n = "of_nat (length (scriptPubKey t)) :: u64"
  have l: "length (scriptPubKey t) \<le> 10000"
    using assms by (auto simp: wf_txout_def)
  moreover have "unat ?n = length (scriptPubKey t)"
    using l by (intro unat_of_nat_len) simp
  moreover have "\<not> ?n > 10000"
    using l \<open>unat ?n = length (scriptPubKey t)\<close> by (simp add: word_less_nat_alt)
  ultimately show ?thesis
    unfolding DeserializeTxOut_def SerializeTxOut_eq
    by (simp add: u64.dec_enc compact.dec_enc)
qed

interpretation txin: codec "SerializeTxIn []" DeserializeTxIn wf_txin
  by unfold_locales (rule DeserializeTxIn_enc)

interpretation txout: codec "SerializeTxOut []" DeserializeTxOut wf_txout
  by unfold_locales (rule DeserializeTxOut_enc)

lemma CTransaction_SetNull_fields:
  "(CTransaction_SetNull this)\<lparr>nVersion := v, vin := i, vout := o', nLockTime := l, hash_valid := False\<rparr>
   = this\<lparr>nVersion := v, vin := i, vout := o', nLockTime := l, hash_valid := False\<rparr>"
  by (simp add: CTransaction_SetNull_def)

lemma length_SerializeTxIn:
  assumes "wf256 (op_hash (prevout t))" "length (scriptSig t) < 2 ^ 64"
  shows "length (SerializeTxIn [] t) = 40 + CompactSizeLen (length (scriptSig t)) + length (scriptSig t)"
  using assms
  by (simp add: SerializeTxIn_eq SerializeUint32_le length_SerializeCompactSize unat_of_nat_len wf256_def)

lemma length_SerializeTxOut:
  assumes "length (scriptPubKey t) < 2 ^ 64"
  shows "length (SerializeTxOut [] t) = 8 + CompactSizeLen (length (scriptPubKey t)) + length (scriptPubKey t)"
  using assms
  by (simp add: SerializeTxOut_eq SerializeUint64_le length_SerializeCompactSize unat_of_nat_len)

lemma CompactSizeLen_pos: "1 \<le> CompactSizeLen n"
  by (simp add: CompactSizeLen_def)

lemma decode_vin:
  assumes "wf_tx tx"
  shows "decode_n (length (vin tx)) DeserializeTxIn (concat (map (SerializeTxIn []) (vin tx)) @ r) = Inr (vin tx, r)"
  using assms by (intro txin.decode_n_concat) (auto simp: wf_tx_def list_all_iff)

lemma decode_vout:
  assumes "wf_tx tx"
  shows "decode_n (length (vout tx)) DeserializeTxOut (concat (map (SerializeTxOut []) (vout tx)) @ r) = Inr (vout tx, r)"
  using assms by (intro txout.decode_n_concat) (auto simp: wf_tx_def list_all_iff)

lemma vin_bytes: 
  assumes "wf_tx tx"
  shows "length (vin tx) * 41 \<le> length (concat (map (SerializeTxIn []) (vin tx)))"
proof (rule concat_length_ge, rule ballI)
  fix t assume "t \<in> set (vin tx)"
  with assms have "wf_txin t" by (simp add: wf_tx_def list_all_iff)
  then show "41 \<le> length (SerializeTxIn [] t)"
    using CompactSizeLen_pos [of "length (scriptSig t)"]
    by (simp add: wf_txin_def length_SerializeTxIn)
qed

lemma vout_bytes: 
  assumes "wf_tx tx"
  shows "length (vout tx) * 9 \<le> length (concat (map (SerializeTxOut []) (vout tx)))"
proof (rule concat_length_ge, rule ballI)
  fix t assume "t \<in> set (vout tx)"
  with assms have "wf_txout t" by (simp add: wf_tx_def list_all_iff)
  then show "9 \<le> length (SerializeTxOut [] t)"
    using CompactSizeLen_pos [of "length (scriptPubKey t)"]
    by (simp add: wf_txout_def length_SerializeTxOut)
qed

lemma Deserialize_Serialize:
  assumes "wf_tx tx"
  shows "Deserialize this (Serialize tx @ rest) wants =
     (if wants \<or> rest = [] then
        Inr (this\<lparr>nVersion := nVersion tx, vin := vin tx, vout := vout tx, nLockTime := nLockTime tx,
                  hash_valid := False\<rparr>, length (Serialize tx))
      else Inl ExtraDataAfterTransaction)"
proof -
  let ?i = "of_nat (length (vin tx)) :: u64" and ?o = "of_nat (length (vout tx)) :: u64"
  have i: "unat ?i = length (vin tx)" "\<not> ?i > 100000"
    and o: "unat ?o = length (vout tx)" "\<not> ?o > 100000"
    using assms by (auto simp: wf_tx_def unat_of_nat_len word_less_nat_alt)
  have il: "\<not> length (concat (map (SerializeTxIn []) (vin tx)) @ r) < length (vin tx) * 41"
    and ol: "\<not> length (concat (map (SerializeTxOut []) (vout tx)) @ r) < length (vout tx) * 9" for r
    using vin_bytes [OF assms] vout_bytes [OF assms] by simp_all
  show ?thesis
    unfolding Deserialize_def CTransaction_SetNull_fields Serialize_eq append_assoc
    by (simp only: u32.dec_enc compact.dec_enc bindE.simps prod.case i o il ol if_False
        decode_vin [OF assms] decode_vout [OF assms]) simp
qed

lemma length_Serialize:
  assumes "\<forall>i \<in> set (vin tx). wf256 (op_hash (prevout i)) \<and> length (scriptSig i) < 2 ^ 64"
    "\<forall>o' \<in> set (vout tx). length (scriptPubKey o') < 2 ^ 64"
    "length (vin tx) < 2 ^ 64" "length (vout tx) < 2 ^ 64"
  shows "length (Serialize tx) = GetSerializedSize tx"
proof -
  have "length (concat (map (SerializeTxIn []) (vin tx))) =
     sum_list (map (\<lambda>t. 32 + 4 + CompactSizeLen (length (scriptSig t)) + length (scriptSig t) + 4) (vin tx))"
    by (rule length_concat_map) (use assms(1) in \<open>simp add: length_SerializeTxIn\<close>)
  moreover have "length (concat (map (SerializeTxOut []) (vout tx))) =
     sum_list (map (\<lambda>t. 8 + CompactSizeLen (length (scriptPubKey t)) + length (scriptPubKey t)) (vout tx))"
    by (rule length_concat_map) (use assms(2) in \<open>simp add: length_SerializeTxOut\<close>)
  ultimately show ?thesis
    using assms(3,4) unfolding Serialize_eq GetSerializedSize_def Let_def
    by (simp add: SerializeUint32_le length_SerializeCompactSize unat_of_nat_len foldl_add_sum add.assoc
       del: length_concat)
qed

lemma DeserializeUint32_suffix:
  "DeserializeUint32 p = Inr (v, p') \<Longrightarrow> \<exists>u. p = u @ p' \<and> 4 \<le> length u"
  by (induction p rule: DeserializeUint32.induct) (auto intro: exI [of _ "[_, _, _, _]"])

lemma DeserializeUint64_suffix:
  "DeserializeUint64 p = Inr (v, p') \<Longrightarrow> \<exists>u. p = u @ p' \<and> 8 \<le> length u"
  by (induction p rule: DeserializeUint64.induct) (auto intro: exI [of _ "[_, _, _, _, _, _, _, _]"])

lemma DeserializeCompactSize_suffix:
  assumes "DeserializeCompactSize p = Inr (v, p')"
  shows "\<exists>u. p = u @ p' \<and> 1 \<le> length u"
proof -
  obtain b q where p: "p = b # q"
    using assms by (cases p) (auto simp: DeserializeCompactSize_def)
  consider "q = p'" | b0 b1 where "q = b0 # b1 # p'"
    | w where "DeserializeUint32 q = Inr (w, p')" | "DeserializeUint64 q = Inr (v, p')"
    using assms
    by (auto simp: p DeserializeCompactSize_def bindE_Inr_iff split: if_splits list.splits)
  then have "\<exists>u. q = u @ p'"
    by cases (auto dest: DeserializeUint32_suffix DeserializeUint64_suffix intro: exI [of _ "[_, _]"])
  then obtain u where "q = u @ p'" by blast
  then show ?thesis using p by (intro exI [of _ "b # u"]) simp
qed

interpretation u32s: sound_decoder DeserializeUint32 "\<lambda>_. True" 4
  by unfold_locales (simp_all add: DeserializeUint32_suffix)

interpretation u64s: sound_decoder DeserializeUint64 "\<lambda>_. True" 8
  by unfold_locales (simp_all add: DeserializeUint64_suffix)

interpretation compacts: sound_decoder DeserializeCompactSize "\<lambda>_. True" 1
  by unfold_locales (simp, rule DeserializeCompactSize_suffix)

lemma DeserializeTxIn_InrE:
  assumes "DeserializeTxIn p = Inr (t, p')"
  obtains n p1 l p2 s where "32 \<le> length p" "DeserializeUint32 (drop 32 p) = Inr (n, p1)"
    "DeserializeCompactSize p1 = Inr (l, p2)" "l \<le> 20000" "unat l \<le> length p2"
    "DeserializeUint32 (drop (unat l) p2) = Inr (s, p')"
    "t = \<lparr>prevout = \<lparr>op_hash = take 32 p, op_n = n\<rparr>, scriptSig = take (unat l) p2, nSequence = s\<rparr>"
  using assms by (auto simp: DeserializeTxIn_def bindE_Inr_iff not_less split: if_splits)

lemma DeserializeTxOut_InrE:
  assumes "DeserializeTxOut p = Inr (t, p')"
  obtains v p1 l p2 where "DeserializeUint64 p = Inr (v, p1)"
    "DeserializeCompactSize p1 = Inr (l, p2)" "l \<le> 10000" "unat l \<le> length p2"
    "p' = drop (unat l) p2" "t = \<lparr>nValue = v, scriptPubKey = take (unat l) p2\<rparr>"
  using assms by (auto simp: DeserializeTxOut_def bindE_Inr_iff not_less split: if_splits)

interpretation txins: sound_decoder DeserializeTxIn wf_txin 41
proof unfold_locales
  fix p t p' assume "DeserializeTxIn p = Inr (t, p')"
  then show "wf_txin t"
    by (rule DeserializeTxIn_InrE) (auto simp: wf_txin_def wf256_def word_le_nat_alt)
next
  fix p t p' assume "DeserializeTxIn p = Inr (t, p')"
  then show "\<exists>u. p = u @ p' \<and> 41 \<le> length u"
  proof (rule DeserializeTxIn_InrE)
    fix n p1 l p2 s
    assume d: "32 \<le> length p" "DeserializeUint32 (drop 32 p) = Inr (n, p1)"
      "DeserializeCompactSize p1 = Inr (l, p2)" "unat l \<le> length p2"
      "DeserializeUint32 (drop (unat l) p2) = Inr (s, p')"
    have "\<exists>u. p = u @ p' \<and> 32 + (4 + (1 + (unat l + 4))) \<le> length u"
      by (intro suffix_chain [OF suffix_drop [OF d(1)]] suffix_chain [OF u32s.dec_suffix [OF d(2)]]
          suffix_chain [OF compacts.dec_suffix [OF d(3)]] suffix_chain [OF suffix_drop [OF d(4)]]
          u32s.dec_suffix [OF d(5)])
    then show ?thesis by auto
  qed
qed

interpretation txouts: sound_decoder DeserializeTxOut wf_txout 9
proof unfold_locales
  fix p t p' assume "DeserializeTxOut p = Inr (t, p')"
  then show "wf_txout t"
    by (rule DeserializeTxOut_InrE) (auto simp: wf_txout_def word_le_nat_alt)
next
  fix p t p' assume "DeserializeTxOut p = Inr (t, p')"
  then show "\<exists>u. p = u @ p' \<and> 9 \<le> length u"
  proof (rule DeserializeTxOut_InrE)
    fix v p1 l p2
    assume d: "DeserializeUint64 p = Inr (v, p1)"
      "DeserializeCompactSize p1 = Inr (l, p2)" "unat l \<le> length p2" "p' = drop (unat l) p2"
    have "\<exists>u. p = u @ p' \<and> 8 + (1 + unat l) \<le> length u"
      unfolding d(4)
      by (intro suffix_chain [OF u64s.dec_suffix [OF d(1)]]
          suffix_chain [OF compacts.dec_suffix [OF d(2)]] suffix_drop [OF d(3)])
    then show ?thesis by auto
  qed
qed

lemma Deserialize_sound:
  assumes "Deserialize this data wants = Inr (tx, n)"
  shows "wf_tx tx \<and> \<not> hash_valid tx \<and> 41 * length (vin tx) + 9 * length (vout tx) + 10 \<le> n \<and>
     n \<le> length data \<and> (\<not> wants \<longrightarrow> n = length data)"
proof -
  from assms obtain ver p1 ic p2 ins p3 oc p4 outs p5 lt p6 where
    d: "DeserializeUint32 data = Inr (ver, p1)" "DeserializeCompactSize p1 = Inr (ic, p2)"
       "decode_n (unat ic) DeserializeTxIn p2 = Inr (ins, p3)"
       "DeserializeCompactSize p3 = Inr (oc, p4)"
       "decode_n (unat oc) DeserializeTxOut p4 = Inr (outs, p5)"
       "DeserializeUint32 p5 = Inr (lt, p6)"
    and g: "ic \<le> 100000" "oc \<le> 100000" "wants \<or> p6 = []"
    and r: "n = length data - length p6" "vin tx = ins" "vout tx = outs" "\<not> hash_valid tx"
    by (auto simp: Deserialize_def bindE_Inr_iff not_less split: if_splits)
  have "\<exists>u. data = u @ p6 \<and> 4 + (1 + (unat ic * 41 + (1 + (unat oc * 9 + 4)))) \<le> length u"
    by (intro suffix_chain [OF u32s.dec_suffix [OF d(1)]]
        suffix_chain [OF compacts.dec_suffix [OF d(2)]]
        suffix_chain [OF txins.decode_n_suffix [OF d(3)]]
        suffix_chain [OF compacts.dec_suffix [OF d(4)]]
        suffix_chain [OF txouts.decode_n_suffix [OF d(5)]] u32s.dec_suffix [OF d(6)])
  then show ?thesis
    using txins.decode_n_post [OF d(3)] txouts.decode_n_post [OF d(5)] g r
    by (auto simp: wf_tx_def list_all_iff word_le_nat_alt)
qed

lemma SigningTxIn_eq: "SigningTxIn data t = SerializeTxIn data (t\<lparr>scriptSig := []\<rparr>)"
  by (simp add: SigningTxIn_def SerializeTxIn_def)

lemma SigningPreimage_eq: "SigningPreimage tx = Serialize (drop_scriptSigs tx)"
proof -
  have "SigningTxIn = (\<lambda>data t. SerializeTxIn data (t\<lparr>scriptSig := []\<rparr>))"
    by (intro ext) (rule SigningTxIn_eq)
  then show ?thesis
    by (simp add: SigningPreimage_def Serialize_def drop_scriptSigs_def foldl_map)
qed

lemma wf_drop_scriptSigs: "wf_tx tx \<Longrightarrow> wf_tx (drop_scriptSigs tx)"
  by (auto simp: wf_tx_def drop_scriptSigs_def list_all_iff wf_txin_def)

lemma Serialize_inject:
  assumes "wf_tx a" "wf_tx b" "Serialize a = Serialize b"
  shows "nVersion a = nVersion b \<and> vin a = vin b \<and> vout a = vout b \<and> nLockTime a = nLockTime b"
proof -
  have "Deserialize a (Serialize a) False = Deserialize a (Serialize b) False" using assms(3) by simp
  moreover note Deserialize_Serialize [OF assms(1), of a "[]" False]
    Deserialize_Serialize [OF assms(2), of a "[]" False]
  ultimately have "a\<lparr>hash_valid := False\<rparr> = a\<lparr>nVersion := nVersion b, vin := vin b, vout := vout b,
      nLockTime := nLockTime b, hash_valid := False\<rparr>"
    by simp
  then show ?thesis by (cases a) simp
qed

lemma GetValueOut_loop_eq:
  "GetValueOut_loop acc os =
     (let s = unat acc + sum_list (map (\<lambda>o'. unat (nValue o')) os)
      in if s < 2 ^ 64 then Some (of_nat s) else None)"
proof (induction os arbitrary: acc)
  case Nil
  then show ?case using u64_range [of acc] by simp
next
  case (Cons o' os)
  then show ?case
    by (simp add: add_fits_iff unat_add_fits not_le add.assoc)
qed

lemma GetValueOut_eq:
  "GetValueOut tx = (if output_sum tx < 2 ^ 64 then Some (of_nat (output_sum tx)) else None)"
  by (simp add: GetValueOut_def GetValueOut_loop_eq output_sum_def)

lemma output_cap_iff: "(v :: u64) > 2100000000000000 \<longleftrightarrow> unat v > 2100000000000000"
  by (simp add: word_less_nat_alt)

lemma CheckOutputTotals_iff:
  "CheckOutputTotals acc os \<longleftrightarrow>
     (\<forall>o' \<in> set os. unat (nValue o') \<le> 21000000 * 100000000) \<and>
     unat acc + sum_list (map (\<lambda>o'. unat (nValue o')) os) < 2 ^ 64"
proof (induction os arbitrary: acc)
  case Nil
  then show ?case using u64_range [of acc] by simp
next
  case (Cons o' os)
  then show ?case
    by (auto simp: add_fits_iff unat_add_fits not_le not_less add.assoc output_cap_iff)
qed

lemma CheckBasicStructure_iff:
  "CheckBasicStructure tx \<longleftrightarrow>
     vin tx \<noteq> [] \<and> vout tx \<noteq> [] \<and>
     (\<forall>o' \<in> set (vout tx). unat (nValue o') \<le> 21000000 * 100000000) \<and>
     GetValueOut tx \<noteq> None \<and> GetSerializedSize tx \<le> 1000000 \<and>
     (if IsCoinBase tx
      then 2 \<le> length (scriptSig (hd (vin tx))) \<and> length (scriptSig (hd (vin tx))) \<le> 6000
      else (\<forall>i \<in> set (vin tx). \<not> COutPoint_IsNull (prevout i)) \<and> distinct (map prevout (vin tx)))"
  by (auto simp: CheckBasicStructure_def CheckOutputTotals_iff GetValueOut_eq output_sum_def
      hd_conv_nth not_less list_ex_iff)

lemma Serialize_hash_fields [simp]:
  "Serialize (tx\<lparr>hash_cached := h\<rparr>) = Serialize tx"
  "Serialize (tx\<lparr>hash_valid := v\<rparr>) = Serialize tx"
  by (simp_all add: Serialize_def)

lemma GetHash_correct:
  assumes "hash_inv sha3 tx"
  shows "fst (GetHash sha3 tx) = sha3 (Serialize tx) \<and> hash_inv sha3 (snd (GetHash sha3 tx)) \<and>
     hash_valid (snd (GetHash sha3 tx)) \<and> Serialize (snd (GetHash sha3 tx)) = Serialize tx \<and>
     GetHash sha3 (snd (GetHash sha3 tx)) = GetHash sha3 tx"
  using assms by (auto simp: GetHash_def hash_inv_def Let_def)

lemma hash_inv_fresh:
  "hash_inv sha3 CTransaction_default" "hash_inv sha3 (CTransaction_copy tx)"
  "hash_inv sha3 (CTransaction_SetNull tx)"
  by (simp_all add: hash_inv_def CTransaction_default_def CTransaction_copy_def CTransaction_SetNull_def)

lemma strip_map_eq:
  "map (\<lambda>i. i\<lparr>scriptSig := []\<rparr>) xs = map (\<lambda>i. i\<lparr>scriptSig := []\<rparr>) ys \<longleftrightarrow>
   map (\<lambda>i. (prevout i, nSequence i)) xs = map (\<lambda>i. (prevout i, nSequence i)) (ys :: CTxIn list)"
proof (induction xs arbitrary: ys)
  case Nil
  then show ?case by auto
next
  case (Cons x xs)
  show ?case
  proof (cases ys)
    case Nil
    then show ?thesis by simp
  next
    case (Cons y ys')
    then show ?thesis using Cons.IH [of ys'] by (cases x; cases y) auto
  qed
qed

section \<open>Properties\<close>

definition ex_tx :: CTransaction where
  "ex_tx = \<lparr>nVersion = 1,
     vin = [\<lparr>prevout = \<lparr>op_hash = 9 # replicate 31 0, op_n = 3\<rparr>, scriptSig = [1, 2], nSequence = SEQUENCE_FINAL\<rparr>],
     vout = [\<lparr>nValue = 5000000000, scriptPubKey = [0x6a, 7]\<rparr>, \<lparr>nValue = 12, scriptPubKey = []\<rparr>],
     nLockTime = 100, hash_cached = zero256, hash_valid = False\<rparr>"

lemma wf_ex_tx: "wf_tx ex_tx"
  by (simp add: ex_tx_def wf_tx_def wf_txin_def wf_txout_def wf256_def)

text \<open>
  C12: decoding what \<open>Serialize\<close> wrote gives back the version, the inputs, the outputs and the
  lock time, for every transaction inside the limits of the wire format and whatever object the
  decoder is called on; the cached hash of that object is invalidated. Bytes after the
  transaction are left to a caller that asked for the number of consumed bytes, which is the
  length of the encoding, and are an error for any other caller.
\<close>

theorem tx_roundtrip:
  assumes "wf_tx tx"
  shows "Deserialize this (Serialize tx @ rest) wants =
     (if wants \<or> rest = [] then
        Inr (this\<lparr>nVersion := nVersion tx, vin := vin tx, vout := vout tx, nLockTime := nLockTime tx,
                  hash_valid := False\<rparr>, length (Serialize tx))
      else Inl ExtraDataAfterTransaction)"
  using assms by (rule Deserialize_Serialize)

theorem tx_roundtrip_witness:
  "wf_tx ex_tx \<and>
   Deserialize CTransaction_default (Serialize ex_tx @ [7]) True = Inr (ex_tx, 73) \<and>
   Deserialize CTransaction_default (Serialize ex_tx @ [7]) False = Inl ExtraDataAfterTransaction"
proof -
  have "CTransaction_default\<lparr>nVersion := nVersion ex_tx, vin := vin ex_tx, vout := vout ex_tx,
      nLockTime := nLockTime ex_tx, hash_valid := False\<rparr> = ex_tx"
    by (simp add: ex_tx_def CTransaction_default_def)
  moreover have "length (Serialize ex_tx) = 73" by code_simp
  ultimately show ?thesis
    using wf_ex_tx tx_roundtrip [OF wf_ex_tx, of CTransaction_default "[7]" True]
      tx_roundtrip [OF wf_ex_tx, of CTransaction_default "[7]" False]
    by simp
qed

text \<open>
  C19: a transaction that \<open>Deserialize\<close> accepts is inside the limits (at most 100000 inputs and
  outputs, scripts of at most 20000 and 10000 bytes, 32-byte hashes), its cached hash is invalid,
  the number of consumed bytes is at least what its inputs and outputs need and at most what was
  given, and without \<open>bytesConsumed\<close> the whole buffer was read. No count read from the wire
  makes the decoder build more elements than there are bytes for.
\<close>

theorem tx_deserialize_sound:
  assumes "Deserialize this data wants = Inr (tx, n)"
  shows "wf_tx tx \<and> \<not> hash_valid tx \<and> 41 * length (vin tx) + 9 * length (vout tx) + 10 \<le> n \<and>
     n \<le> length data \<and> (\<not> wants \<longrightarrow> n = length data)"
  using assms by (rule Deserialize_sound)

theorem tx_deserialize_sound_witness:
  "\<exists>tx. Deserialize CTransaction_default ([1,0,0,0, 0, 1, 5,0,0,0,0,0,0,0, 1, 0x51, 0,0,0,0]) False = Inr (tx, 20) \<and>
     wf_tx tx \<and> length (vout tx) = 1"
proof -
  let ?d = "[1,0,0,0, 0, 1, 5,0,0,0,0,0,0,0, 1, 0x51, 0,0,0,0] :: bytes"
  let ?t = "CTransaction_default\<lparr>vout := [\<lparr>nValue = 5, scriptPubKey = [0x51]\<rparr>]\<rparr>"
  have d: "Deserialize CTransaction_default ?d False = Inr (?t, 20)" by code_simp
  have "wf_tx ?t" using tx_deserialize_sound [OF d] by blast
  then show ?thesis using d by auto
qed

text \<open>
  \<open>GetSerializedSize\<close>, which computes the size without serializing, is the length of what
  \<open>Serialize\<close> writes, at every width of the CompactSize prefixes.
\<close>

theorem tx_size_exact:
  assumes "\<forall>i \<in> set (vin tx). wf256 (op_hash (prevout i)) \<and> length (scriptSig i) < 2 ^ 64"
    "\<forall>o' \<in> set (vout tx). length (scriptPubKey o') < 2 ^ 64"
    "length (vin tx) < 2 ^ 64" "length (vout tx) < 2 ^ 64"
  shows "GetSerializedSize tx = length (Serialize tx)"
  using length_Serialize [OF assms] by simp

theorem tx_size_exact_witness: "GetSerializedSize ex_tx = length (Serialize ex_tx) \<and> GetSerializedSize ex_tx = 73"
proof
  show "GetSerializedSize ex_tx = length (Serialize ex_tx)"
    by (rule tx_size_exact) (simp_all add: ex_tx_def wf256_def)
  show "GetSerializedSize ex_tx = 73" by code_simp
qed

text \<open>
  C20: the message hashed for a signature determines everything of the transaction but the
  scriptSigs: two transactions have the same signing preimage exactly when they have the same
  version, outputs and lock time and the same prevouts and sequence numbers in the same order.
  No field outside the scriptSigs can change under an unchanged preimage, and filling in the
  scriptSigs does not change it.
\<close>

theorem signing_preimage_binds:
  assumes "wf_tx a" "wf_tx b"
  shows "SigningPreimage a = SigningPreimage b \<longleftrightarrow>
     nVersion a = nVersion b \<and> vout a = vout b \<and> nLockTime a = nLockTime b \<and>
     map (\<lambda>i. (prevout i, nSequence i)) (vin a) = map (\<lambda>i. (prevout i, nSequence i)) (vin b)"
    (is "_ \<longleftrightarrow> ?R")
proof
  assume "SigningPreimage a = SigningPreimage b"
  then show ?R
    using Serialize_inject [OF wf_drop_scriptSigs [OF assms(1)] wf_drop_scriptSigs [OF assms(2)]]
    by (simp add: SigningPreimage_eq drop_scriptSigs_def strip_map_eq)
next
  assume ?R
  then show "SigningPreimage a = SigningPreimage b"
    by (simp add: SigningPreimage_eq drop_scriptSigs_def strip_map_eq [symmetric] Serialize_def)
qed

theorem signing_preimage_binds_witness:
  "SigningPreimage ex_tx = SigningPreimage (drop_scriptSigs ex_tx) \<and>
   SigningPreimage ex_tx \<noteq> SigningPreimage (ex_tx\<lparr>nLockTime := 101\<rparr>)"
proof -
  have "wf_tx (ex_tx\<lparr>nLockTime := 101\<rparr>)" using wf_ex_tx by (simp add: wf_tx_def)
  then show ?thesis
    using signing_preimage_binds [OF wf_ex_tx wf_drop_scriptSigs [OF wf_ex_tx]]
      signing_preimage_binds [OF wf_ex_tx, of "ex_tx\<lparr>nLockTime := 101\<rparr>"]
    by (simp add: drop_scriptSigs_def ex_tx_def)
qed

text \<open>
  The transaction hash. On an object whose cache is invalid or right, \<open>GetHash\<close> returns the
  SHA3-256 of the serialization, leaves a right cache and returns the same value when called
  again; the constructors, \<open>SetNull\<close> and \<open>Deserialize\<close> all leave such an object.
\<close>

theorem tx_hash_cache:
  "(hash_inv sha3 tx \<longrightarrow> fst (GetHash sha3 tx) = sha3 (Serialize tx) \<and>
      hash_inv sha3 (snd (GetHash sha3 tx)) \<and> GetHash sha3 (snd (GetHash sha3 tx)) = GetHash sha3 tx) \<and>
   hash_inv sha3 CTransaction_default \<and> hash_inv sha3 (CTransaction_copy tx) \<and>
   hash_inv sha3 (CTransaction_SetNull tx) \<and>
   (Deserialize tx data wants = Inr (tx', n) \<longrightarrow> hash_inv sha3 tx')"
  using GetHash_correct [of sha3 tx] hash_inv_fresh Deserialize_sound [of tx data wants tx' n]
  by (auto simp: hash_inv_def)

theorem tx_hash_cache_witness:
  "hash_inv (\<lambda>d. d) ex_tx \<and> fst (GetHash (\<lambda>d. d) ex_tx) = Serialize ex_tx"
  using tx_hash_cache [of "\<lambda>d. d" ex_tx] by (simp add: hash_inv_def ex_tx_def)

text \<open>
  \<open>GetValueOut\<close> never wraps: it is the mathematical sum of the output values when that fits
  64 bits, and the overflow error otherwise.
\<close>

theorem GetValueOut_exact:
  "GetValueOut tx = (if output_sum tx < 2 ^ 64 then Some (of_nat (output_sum tx)) else None)"
  by (rule GetValueOut_eq)

text \<open>
  What \<open>CheckBasicStructure\<close> accepts: inputs and outputs present, every value at most
  21 million coins of 10^8 ions, a total that fits 64 bits, at most 1000000 bytes; a coinbase with 2
  to 6000 bytes of scriptSig, and otherwise no null prevout and no prevout spent twice.
\<close>

theorem basic_structure_iff:
  "CheckBasicStructure tx \<longleftrightarrow>
     vin tx \<noteq> [] \<and> vout tx \<noteq> [] \<and>
     (\<forall>o' \<in> set (vout tx). unat (nValue o') \<le> 21000000 * 100000000) \<and>
     GetValueOut tx \<noteq> None \<and> GetSerializedSize tx \<le> 1000000 \<and>
     (if IsCoinBase tx
      then 2 \<le> length (scriptSig (hd (vin tx))) \<and> length (scriptSig (hd (vin tx))) \<le> 6000
      else (\<forall>i \<in> set (vin tx). \<not> COutPoint_IsNull (prevout i)) \<and> distinct (map prevout (vin tx)))"
  by (rule CheckBasicStructure_iff)

theorem basic_structure_iff_witness:
  "CheckBasicStructure ex_tx \<and> \<not> CheckBasicStructure (ex_tx\<lparr>vin := vin ex_tx @ vin ex_tx\<rparr>)"
proof
  show "CheckBasicStructure ex_tx"
    unfolding basic_structure_iff
    by (simp add: ex_tx_def GetValueOut_eq output_sum_def GetSerializedSize_def CompactSizeLen_def
        IsCoinBase_def COutPoint_IsNull_def IsNull256_def)
  show "\<not> CheckBasicStructure (ex_tx\<lparr>vin := vin ex_tx @ vin ex_tx\<rparr>)"
    unfolding basic_structure_iff by (simp add: ex_tx_def IsCoinBase_def)
qed

end
