(* ===== verification/Script.thy ===== *)
theory Script
  imports Transaction
begin

text \<open>
  \<open>src/src/script/script.h\<close> and \<open>interpreter.cpp\<close>: script numbers, script building and recognition, the
  signature checker of a transaction input, the stack machine and the verification of a script pair.

  A script is its list of bytes; an iterator is the list of the bytes from it to the end. The stack and the
  stack of execution states are kept top first. A failed evaluation returns the error only. The external
  Dilithium verification is the parameter \<open>verify\<close> (signature, message, public key; 0 means valid), SHA3-256 the
  parameter \<open>sha3\<close>.
\<close>

section \<open>Limits and opcodes\<close>

definition MAX_SCRIPT_SIZE :: nat where "MAX_SCRIPT_SIZE = 20000"
definition MAX_STACK_SIZE :: nat where "MAX_STACK_SIZE = 1000"
definition MAX_SCRIPT_ELEMENT_SIZE :: nat where "MAX_SCRIPT_ELEMENT_SIZE = 5300"
definition MAX_OPS_PER_SCRIPT :: nat where "MAX_OPS_PER_SCRIPT = 201"
definition DILITHIUM3_SIG_SIZE :: nat where "DILITHIUM3_SIG_SIZE = 3309"
definition DILITHIUM3_PK_SIZE :: nat where "DILITHIUM3_PK_SIZE = 1952"

definition OP_0 :: byte where "OP_0 = 0x00"
definition OP_PUSHDATA1 :: byte where "OP_PUSHDATA1 = 0x4c"
definition OP_PUSHDATA2 :: byte where "OP_PUSHDATA2 = 0x4d"
definition OP_PUSHDATA4 :: byte where "OP_PUSHDATA4 = 0x4e"
definition OP_1NEGATE :: byte where "OP_1NEGATE = 0x4f"
definition OP_1 :: byte where "OP_1 = 0x51"
definition OP_16 :: byte where "OP_16 = 0x60"
definition OP_NOP :: byte where "OP_NOP = 0x61"
definition OP_IF :: byte where "OP_IF = 0x63"
definition OP_NOTIF :: byte where "OP_NOTIF = 0x64"
definition OP_ELSE :: byte where "OP_ELSE = 0x67"
definition OP_ENDIF :: byte where "OP_ENDIF = 0x68"
definition OP_VERIFY :: byte where "OP_VERIFY = 0x69"
definition OP_RETURN :: byte where "OP_RETURN = 0x6a"
definition OP_DROP :: byte where "OP_DROP = 0x75"
definition OP_DUP :: byte where "OP_DUP = 0x76"
definition OP_SWAP :: byte where "OP_SWAP = 0x7c"
definition OP_SIZE :: byte where "OP_SIZE = 0x82"
definition OP_EQUAL :: byte where "OP_EQUAL = 0x87"
definition OP_EQUALVERIFY :: byte where "OP_EQUALVERIFY = 0x88"
definition OP_SHA3_256 :: byte where "OP_SHA3_256 = 0xa8"
definition OP_HASH160 :: byte where "OP_HASH160 = 0xa9"
definition OP_CHECKSIG :: byte where "OP_CHECKSIG = 0xac"
definition OP_CHECKMULTISIG :: byte where "OP_CHECKMULTISIG = 0xae"
definition OP_NOP1 :: byte where "OP_NOP1 = 0xb0"
definition OP_CHECKLOCKTIMEVERIFY :: byte where "OP_CHECKLOCKTIMEVERIFY = 0xb1"
definition OP_CHECKSEQUENCEVERIFY :: byte where "OP_CHECKSEQUENCEVERIFY = 0xb2"
definition OP_NOP4 :: byte where "OP_NOP4 = 0xb3"
definition OP_NOP10 :: byte where "OP_NOP10 = 0xb9"

definition SCRIPT_VERIFY_CHECKLOCKTIMEVERIFY :: u32 where "SCRIPT_VERIFY_CHECKLOCKTIMEVERIFY = push_bit 1 1"
definition SCRIPT_VERIFY_CHECKSEQUENCEVERIFY :: u32 where "SCRIPT_VERIFY_CHECKSEQUENCEVERIFY = push_bit 2 1"

section \<open>Script numbers\<close>

text \<open>The digits of the absolute value, least significant first.\<close>

fun serialize_loop :: "nat \<Rightarrow> bytes" where
  "serialize_loop absvalue =
     (if absvalue = 0 then [] else of_nat absvalue # serialize_loop (absvalue div 256))"

declare serialize_loop.simps [simp del]

definition CScriptNum_serialize :: "i64 \<Rightarrow> bytes" where
  "CScriptNum_serialize value =
     (if value = 0 then []
      else
        (let neg = sint value < 0;
             absvalue = (if neg then - value else value);
             result = serialize_loop (unat absvalue)
         in if last result AND 0x80 \<noteq> 0 then result @ [if neg then 0x80 else 0]
            else if neg then butlast result @ [last result OR 0x80]
            else result))"

fun set_vch_loop :: "nat \<Rightarrow> i64 \<Rightarrow> bytes \<Rightarrow> i64" where
  "set_vch_loop i result [] = result"
| "set_vch_loop i result (b # bs) = set_vch_loop (Suc i) (result OR push_bit (8 * i) (ucast b)) bs"

definition CScriptNum_set_vch :: "bytes \<Rightarrow> i64" where
  "CScriptNum_set_vch vch =
     (if vch = [] then 0
      else
        (let result = set_vch_loop 0 0 vch
         in if last vch AND 0x80 \<noteq> 0
            then - (result AND NOT (push_bit (8 * (length vch - 1)) 0x80))
            else result))"

text \<open>The constructor from bytes; \<open>None\<close> is the exception.\<close>

definition CScriptNum_of_vch :: "bytes \<Rightarrow> nat \<Rightarrow> i64 option" where
  "CScriptNum_of_vch vch nMaxNumSize =
     (if length vch > nMaxNumSize then None else Some (CScriptNum_set_vch vch))"

section \<open>Building and recognising scripts\<close>

definition PushData :: "bytes \<Rightarrow> bytes" where
  "PushData data =
     (if length data < 0x4c then [of_nat (length data)]
      else if length data \<le> 0xff then [OP_PUSHDATA1, of_nat (length data)]
      else if length data \<le> 0xffff
      then [OP_PUSHDATA2, of_nat (length data), of_nat (length data div 2 ^ 8)]
      else [OP_PUSHDATA4, of_nat (length data), of_nat (length data div 2 ^ 8),
            of_nat (length data div 2 ^ 16), of_nat (length data div 2 ^ 24)]) @ data"

definition PushInt :: "i64 \<Rightarrow> bytes" where
  "PushInt n =
     (if n = - 1 \<or> (1 \<le> sint n \<and> sint n \<le> 16) then [ucast (n + (ucast OP_1 - 1))]
      else if n = 0 then [OP_0]
      else PushData (CScriptNum_serialize n))"

definition IsPayToPublicKeyHash :: "bytes \<Rightarrow> bool" where
  "IsPayToPublicKeyHash s \<longleftrightarrow> length s = 25 \<and> s ! 0 = OP_DUP \<and> s ! 1 = OP_HASH160 \<and> s ! 2 = 0x14 \<and>
     s ! 23 = OP_EQUALVERIFY \<and> s ! 24 = OP_CHECKSIG"

definition IsPayToScriptHash :: "bytes \<Rightarrow> bool" where
  "IsPayToScriptHash s \<longleftrightarrow> length s = 23 \<and> s ! 0 = OP_HASH160 \<and> s ! 1 = 0x14 \<and> s ! 22 = OP_EQUAL"

definition IsHTLC :: "bytes \<Rightarrow> bool" where
  "IsHTLC s \<longleftrightarrow> \<not> length s < 40 \<and> OP_IF \<in> set s \<and> OP_SHA3_256 \<in> set s \<and> OP_CHECKLOCKTIMEVERIFY \<in> set s"

definition IsUnspendable :: "bytes \<Rightarrow> bool" where
  "IsUnspendable s \<longleftrightarrow> length s > 0 \<and> s ! 0 = OP_RETURN"

definition IsLegacyScriptSig :: "bytes \<Rightarrow> bool" where
  "IsLegacyScriptSig s \<longleftrightarrow>
     length s = 2 + DILITHIUM3_SIG_SIZE + 2 + DILITHIUM3_PK_SIZE \<and>
     unat (ucast (s ! 0) OR push_bit 8 (ucast (s ! 1)) :: u16) = DILITHIUM3_SIG_SIZE"

section \<open>The signature checker\<close>

record SignatureChecker =
  CheckSig :: "bytes \<Rightarrow> bytes \<Rightarrow> bool"
  CheckLockTime :: "i64 \<Rightarrow> bool"
  CheckSequence :: "i64 \<Rightarrow> bool"

definition CastToBool :: "bytes \<Rightarrow> bool" where
  "CastToBool vch =
     (case dropWhile (\<lambda>b. b = 0) vch of
        [] \<Rightarrow> False
      | [b] \<Rightarrow> b \<noteq> 0x80
      | _ \<Rightarrow> True)"

definition AllZerosOrOnes :: "bytes \<Rightarrow> bool" where
  "AllZerosOrOnes bs \<longleftrightarrow> list_all (\<lambda>b. b = 0x00) bs \<or> list_all (\<lambda>b. b = 0xFF) bs"

text \<open>The signed message: transaction hash, input index, version, chain identifier.\<close>

definition SigMessage :: "(bytes \<Rightarrow> uint256) \<Rightarrow> CTransaction \<Rightarrow> u32 \<Rightarrow> u32 \<Rightarrow> bytes" where
  "SigMessage sha3 tx idx chain_id =
     SerializeUint32 (SerializeUint32 (SerializeUint32 (GetSigningHash sha3 tx) idx) (nVersion tx)) chain_id"

definition TxCheckSig ::
    "(bytes \<Rightarrow> uint256) \<Rightarrow> (bytes \<Rightarrow> bytes \<Rightarrow> bytes \<Rightarrow> int) \<Rightarrow> CTransaction \<Rightarrow> u32 \<Rightarrow> u32 \<Rightarrow> bytes \<Rightarrow> bytes \<Rightarrow> bool" where
  "TxCheckSig sha3 verify tx nIn chainId sig pubkey =
     (if length sig \<noteq> DILITHIUM3_SIG_SIZE then False
      else if length pubkey \<noteq> DILITHIUM3_PK_SIZE then False
      else if AllZerosOrOnes sig then False
      else if AllZerosOrOnes pubkey then False
      else
        (let sig_message = SigMessage sha3 tx nIn chainId
         in if length sig_message \<noteq> 44 then False
            else verify sig (sha3 sig_message) pubkey = 0))"

definition LOCKTIME_THRESHOLD :: u32 where "LOCKTIME_THRESHOLD = 500000000"

definition TxCheckLockTime :: "CTransaction \<Rightarrow> u32 \<Rightarrow> i64 \<Rightarrow> bool" where
  "TxCheckLockTime tx nIn lockTime =
     (if (nLockTime tx < LOCKTIME_THRESHOLD) \<noteq> (sint lockTime < uint LOCKTIME_THRESHOLD) then False
      else if sint lockTime > uint (nLockTime tx) then False
      else if unat nIn \<ge> length (vin tx) then False
      else if nSequence (vin tx ! unat nIn) = SEQUENCE_FINAL then False
      else True)"

definition SEQUENCE_LOCKTIME_TYPE_FLAG :: u32 where "SEQUENCE_LOCKTIME_TYPE_FLAG = push_bit 22 1"
definition SEQUENCE_LOCKTIME_MASK :: u32 where "SEQUENCE_LOCKTIME_MASK = 0x0000ffff"

definition TxCheckSequence :: "CTransaction \<Rightarrow> u32 \<Rightarrow> i64 \<Rightarrow> bool" where
  "TxCheckSequence tx nIn sequence =
     (if sequence AND push_bit 31 1 \<noteq> 0 then True
      else if sint (nVersion tx) < 2 then False
      else if unat nIn \<ge> length (vin tx) then False
      else
        (let txSequence = nSequence (vin tx ! unat nIn)
         in if txSequence AND push_bit 31 1 \<noteq> 0 then False
            else if txSequence AND SEQUENCE_LOCKTIME_TYPE_FLAG \<noteq>
                    ucast sequence AND SEQUENCE_LOCKTIME_TYPE_FLAG then False
            else if txSequence AND SEQUENCE_LOCKTIME_MASK < ucast sequence AND SEQUENCE_LOCKTIME_MASK then False
            else True))"

definition TransactionSignatureChecker ::
    "(bytes \<Rightarrow> uint256) \<Rightarrow> (bytes \<Rightarrow> bytes \<Rightarrow> bytes \<Rightarrow> int) \<Rightarrow> CTransaction \<Rightarrow> u32 \<Rightarrow> u32 \<Rightarrow> SignatureChecker" where
  "TransactionSignatureChecker sha3 verify tx nIn chainId =
     \<lparr>CheckSig = TxCheckSig sha3 verify tx nIn chainId,
      CheckLockTime = TxCheckLockTime tx nIn,
      CheckSequence = TxCheckSequence tx nIn\<rparr>"

section \<open>The stack machine\<close>

datatype script_error =
    ScriptSizeExceedsMaximum
  | PushPastEnd
  | PushTooLarge
  | Pushdata1PastEnd
  | Pushdata2PastEnd
  | Pushdata4PastEnd
  | OpcodeCountExceedsMaximum
  | IfRequiresElement
  | ElseWithoutIf
  | EndifWithoutIf
  | VerifyRequiresElement
  | VerifyFailed
  | ReturnEncountered
  | DupRequiresElement
  | DropRequiresElement
  | SwapRequiresTwo
  | SizeRequiresElement
  | EqualRequiresTwo
  | EqualVerifyFailed
  | Sha3RequiresElement
  | Hash160RequiresElement
  | ChecksigRequiresTwo
  | CltvRequiresElement
  | CltvNegative
  | CltvNotSatisfied
  | CsvRequiresElement
  | CsvNegative
  | CsvNotSatisfied
  | ChecksigMultiNotImplemented
  | UnknownOpcode byte
  | StackSizeExceedsMaximum
  | UnmatchedIf
  | ScriptNumberOverflow
  | EmptyStack
  | EvaluatedToFalse

text \<open>The size of a data push and the iterator behind it; \<open>None\<close> for the other opcodes.\<close>

definition PushSize :: "byte \<Rightarrow> bytes \<Rightarrow> (script_error + nat \<times> bytes) option" where
  "PushSize opcode pc =
     (if opcode > 0 \<and> opcode < OP_PUSHDATA1 then Some (Inr (unat opcode, pc))
      else if opcode = OP_PUSHDATA1 then
        Some (if 1 > length pc then Inl Pushdata1PastEnd else Inr (unat (pc ! 0), drop 1 pc))
      else if opcode = OP_PUSHDATA2 then
        Some (if 2 > length pc then Inl Pushdata2PastEnd
              else Inr (unat (ucast (pc ! 0) OR push_bit 8 (ucast (pc ! 1)) :: u64), drop 2 pc))
      else if opcode = OP_PUSHDATA4 then
        Some (if 4 > length pc then Inl Pushdata4PastEnd
              else Inr (unat (ucast (pc ! 0) OR push_bit 8 (ucast (pc ! 1)) OR push_bit 16 (ucast (pc ! 2)) OR
                              push_bit 24 (ucast (pc ! 3)) :: u64), drop 4 pc))
      else None)"

text \<open>Equality, and hashing of a public key.\<close>

definition Hash160 :: "(bytes \<Rightarrow> uint256) \<Rightarrow> bytes \<Rightarrow> bytes" where
  "Hash160 sha3 data = take 20 (sha3 (sha3 data))"

type_synonym stack = "bytes list"

text \<open>The \<open>switch\<close> over the opcodes that are not data pushes.\<close>

definition EvalFlow :: "byte \<Rightarrow> bool \<Rightarrow> stack \<Rightarrow> bool list \<Rightarrow> script_error + stack \<times> bool list" where
  "EvalFlow opcode fExec stk vfExec =
     (if opcode = OP_IF \<or> opcode = OP_NOTIF then
        (if fExec then
           (case stk of [] \<Rightarrow> Inl IfRequiresElement
            | el # stk' \<Rightarrow>
                (let fValue = CastToBool el;
                     fValue = (if opcode = OP_NOTIF then \<not> fValue else fValue)
                 in Inr (stk', fValue # vfExec)))
         else Inr (stk, False # vfExec))
      else if opcode = OP_ELSE then
        (case vfExec of [] \<Rightarrow> Inl ElseWithoutIf
         | b # rest \<Rightarrow>
             (let parentExec = (rest = [] \<or> hd rest)
              in Inr (stk, (if parentExec then \<not> b else b) # rest)))
      else \<comment> \<open>\<open>OP_ENDIF\<close>\<close>
        (case vfExec of [] \<Rightarrow> Inl EndifWithoutIf | b # rest \<Rightarrow> Inr (stk, rest)))"

definition EvalStack ::
    "(bytes \<Rightarrow> uint256) \<Rightarrow> SignatureChecker \<Rightarrow> byte \<Rightarrow> stack \<Rightarrow> script_error + stack" where
  "EvalStack sha3 checker opcode stk =
     (if opcode = OP_VERIFY then
        (case stk of [] \<Rightarrow> Inl VerifyRequiresElement
         | el # stk' \<Rightarrow> if \<not> CastToBool el then Inl VerifyFailed else Inr stk')
      else if opcode = OP_RETURN then Inl ReturnEncountered
      else if opcode = OP_DUP then
        (case stk of [] \<Rightarrow> Inl DupRequiresElement | el # stk' \<Rightarrow> Inr (el # el # stk'))
      else if opcode = OP_DROP then
        (case stk of [] \<Rightarrow> Inl DropRequiresElement | el # stk' \<Rightarrow> Inr stk')
      else if opcode = OP_SWAP then
        (case stk of x # y # stk' \<Rightarrow> Inr (y # x # stk') | _ \<Rightarrow> Inl SwapRequiresTwo)
      else if opcode = OP_SIZE then
        (case stk of [] \<Rightarrow> Inl SizeRequiresElement
         | el # stk' \<Rightarrow> Inr (CScriptNum_serialize (of_nat (length el)) # el # stk'))
      else if opcode = OP_EQUAL \<or> opcode = OP_EQUALVERIFY then
        (case stk of
           x # y # stk' \<Rightarrow>
             (let equal = (x = y)
              in if opcode = OP_EQUALVERIFY then (if \<not> equal then Inl EqualVerifyFailed else Inr stk')
                 else Inr ((if equal then [1] else []) # stk'))
         | _ \<Rightarrow> Inl EqualRequiresTwo)
      else if opcode = OP_SHA3_256 then
        (case stk of [] \<Rightarrow> Inl Sha3RequiresElement | el # stk' \<Rightarrow> Inr (sha3 el # stk'))
      else if opcode = OP_HASH160 then
        (case stk of [] \<Rightarrow> Inl Hash160RequiresElement | el # stk' \<Rightarrow> Inr (Hash160 sha3 el # stk'))
      else if opcode = OP_CHECKSIG then
        (case stk of
           pubkey # sig # stk' \<Rightarrow> Inr ((if CheckSig checker sig pubkey then [1] else []) # stk')
         | _ \<Rightarrow> Inl ChecksigRequiresTwo)
      else if opcode = OP_CHECKMULTISIG then Inl ChecksigMultiNotImplemented
      else Inl (UnknownOpcode opcode))"

definition EvalLock :: "u32 \<Rightarrow> SignatureChecker \<Rightarrow> byte \<Rightarrow> bool \<Rightarrow> stack \<Rightarrow> script_error + stack" where
  "EvalLock flags checker opcode fExec stk =
     (if opcode = OP_CHECKLOCKTIMEVERIFY then
        (if flags AND SCRIPT_VERIFY_CHECKLOCKTIMEVERIFY = 0 \<or> \<not> fExec then Inr stk
         else
           (case stk of [] \<Rightarrow> Inl CltvRequiresElement
            | el # _ \<Rightarrow>
                (case CScriptNum_of_vch el 5 of None \<Rightarrow> Inl ScriptNumberOverflow
                 | Some lockTime \<Rightarrow>
                     if sint lockTime < 0 then Inl CltvNegative
                     else if \<not> CheckLockTime checker lockTime then Inl CltvNotSatisfied
                     else Inr stk)))
      else \<comment> \<open>\<open>OP_CHECKSEQUENCEVERIFY\<close>\<close>
        (if flags AND SCRIPT_VERIFY_CHECKSEQUENCEVERIFY = 0 \<or> \<not> fExec then Inr stk
         else
           (case stk of [] \<Rightarrow> Inl CsvRequiresElement
            | el # _ \<Rightarrow>
                (case CScriptNum_of_vch el 5 of None \<Rightarrow> Inl ScriptNumberOverflow
                 | Some sequence \<Rightarrow>
                     if sint sequence < 0 then Inl CsvNegative
                     else if \<not> CheckSequence checker sequence then Inl CsvNotSatisfied
                     else Inr stk))))"

definition EvalOp ::
    "(bytes \<Rightarrow> uint256) \<Rightarrow> u32 \<Rightarrow> SignatureChecker \<Rightarrow> byte \<Rightarrow> bool \<Rightarrow> stack \<Rightarrow> bool list \<Rightarrow>
       script_error + stack \<times> bool list" where
  "EvalOp sha3 flags checker opcode fExec stk vfExec =
     (if opcode = OP_0 then Inr (if fExec then [] # stk else stk, vfExec)
      else if opcode = OP_1NEGATE then Inr (if fExec then CScriptNum_serialize (- 1) # stk else stk, vfExec)
      else if OP_1 \<le> opcode \<and> opcode \<le> OP_16 then
        Inr (if fExec then CScriptNum_serialize (ucast (opcode - (OP_1 - 1))) # stk else stk, vfExec)
      else if opcode = OP_NOP \<or> opcode = OP_NOP1 \<or> (OP_NOP4 \<le> opcode \<and> opcode \<le> OP_NOP10) then Inr (stk, vfExec)
      else if opcode = OP_IF \<or> opcode = OP_NOTIF \<or> opcode = OP_ELSE \<or> opcode = OP_ENDIF then
        EvalFlow opcode fExec stk vfExec
      else if opcode = OP_CHECKLOCKTIMEVERIFY \<or> opcode = OP_CHECKSEQUENCEVERIFY then
        bindE (EvalLock flags checker opcode fExec stk) (\<lambda>stk. Inr (stk, vfExec))
      else if \<not> fExec then Inr (stk, vfExec)
      else bindE (EvalStack sha3 checker opcode stk) (\<lambda>stk. Inr (stk, vfExec)))"

function EvalLoop ::
    "(bytes \<Rightarrow> uint256) \<Rightarrow> u32 \<Rightarrow> SignatureChecker \<Rightarrow> stack \<Rightarrow> bool list \<Rightarrow> nat \<Rightarrow> bytes \<Rightarrow> script_error + stack" where
  "EvalLoop sha3 flags checker stk vfExec nOpCount [] =
     (if vfExec \<noteq> [] then Inl UnmatchedIf else Inr stk)"
| "EvalLoop sha3 flags checker stk vfExec nOpCount (opcode # pc) =
     (let fExec = (vfExec = [] \<or> hd vfExec)
      in case PushSize opcode pc of
           Some (Inl e) \<Rightarrow> Inl e
         | Some (Inr (nSize, pc')) \<Rightarrow>
             if nSize > length pc' then Inl PushPastEnd
             else if nSize > MAX_SCRIPT_ELEMENT_SIZE then Inl PushTooLarge
             else EvalLoop sha3 flags checker (if fExec then take nSize pc' # stk else stk) vfExec nOpCount
                    (drop nSize pc')
         | None \<Rightarrow>
             (let nOpCount' = (if opcode > OP_16 then Suc nOpCount else nOpCount)
              in if opcode > OP_16 \<and> nOpCount' > MAX_OPS_PER_SCRIPT then Inl OpcodeCountExceedsMaximum
                 else
                   (case EvalOp sha3 flags checker opcode fExec stk vfExec of
                      Inl e \<Rightarrow> Inl e
                    | Inr (stk', vfExec') \<Rightarrow>
                        if length stk' > MAX_STACK_SIZE then Inl StackSizeExceedsMaximum
                        else EvalLoop sha3 flags checker stk' vfExec' nOpCount' pc)))"
  by pat_completeness auto

termination
proof (relation "measure (\<lambda>(_, _, _, _, _, _, script). length script)")
qed (auto simp: PushSize_def split: if_splits)

definition EvalScript ::
    "(bytes \<Rightarrow> uint256) \<Rightarrow> u32 \<Rightarrow> SignatureChecker \<Rightarrow> stack \<Rightarrow> bytes \<Rightarrow> script_error + stack" where
  "EvalScript sha3 flags checker stk script =
     (if length script > MAX_SCRIPT_SIZE then Inl ScriptSizeExceedsMaximum
      else EvalLoop sha3 flags checker stk [] 0 script)"

definition VerifyScript ::
    "(bytes \<Rightarrow> uint256) \<Rightarrow> u32 \<Rightarrow> SignatureChecker \<Rightarrow> bytes \<Rightarrow> bytes \<Rightarrow> script_error + unit" where
  "VerifyScript sha3 flags checker sig spk =
     bindE (EvalScript sha3 flags checker [] sig) (\<lambda>stk.
     bindE (EvalScript sha3 flags checker stk spk) (\<lambda>stk.
       (case stk of [] \<Rightarrow> Inl EmptyStack
        | el # _ \<Rightarrow> if \<not> CastToBool el then Inl EvaluatedToFalse else Inr ())))"

section \<open>Evaluation rules\<close>

declare EvalLoop.simps(2) [simp del]

named_theorems eval_simps \<open>evaluation of one opcode\<close>

lemmas opcode_defs =
  OP_0_def OP_PUSHDATA1_def OP_PUSHDATA2_def OP_PUSHDATA4_def OP_1NEGATE_def OP_1_def OP_16_def OP_NOP_def
  OP_IF_def OP_NOTIF_def OP_ELSE_def OP_ENDIF_def OP_VERIFY_def OP_RETURN_def OP_DROP_def OP_DUP_def
  OP_SWAP_def OP_SIZE_def OP_EQUAL_def OP_EQUALVERIFY_def OP_SHA3_256_def OP_HASH160_def OP_CHECKSIG_def
  OP_CHECKMULTISIG_def OP_NOP1_def OP_CHECKLOCKTIMEVERIFY_def OP_CHECKSEQUENCEVERIFY_def OP_NOP4_def OP_NOP10_def

lemmas script_limits =
  MAX_SCRIPT_SIZE_def MAX_STACK_SIZE_def MAX_SCRIPT_ELEMENT_SIZE_def MAX_OPS_PER_SCRIPT_def
  DILITHIUM3_SIG_SIZE_def DILITHIUM3_PK_SIZE_def

text \<open>One iteration of the loop for an opcode that is not a data push.\<close>

definition EvalNext ::
    "(bytes \<Rightarrow> uint256) \<Rightarrow> u32 \<Rightarrow> SignatureChecker \<Rightarrow> nat \<Rightarrow> bytes \<Rightarrow> stack \<times> bool list \<Rightarrow> script_error + stack" where
  "EvalNext sha3 flags checker n pc r =
     (if length (fst r) > MAX_STACK_SIZE then Inl StackSizeExceedsMaximum
      else EvalLoop sha3 flags checker (fst r) (snd r) n pc)"

lemma PushSize_op: "opcode = 0 \<or> OP_PUSHDATA4 < opcode \<Longrightarrow> PushSize opcode pc = None"
  by (auto simp: PushSize_def opcode_defs word_less_nat_alt)

lemma EvalLoop_op:
  assumes "OP_16 < opcode"
  shows "EvalLoop sha3 flags checker stk vfExec n (opcode # pc) =
    (if n \<ge> MAX_OPS_PER_SCRIPT then Inl OpcodeCountExceedsMaximum
     else bindE (EvalOp sha3 flags checker opcode (vfExec = [] \<or> hd vfExec) stk vfExec)
            (EvalNext sha3 flags checker (Suc n) pc))"
proof -
  have "OP_PUSHDATA4 < OP_16" by (simp add: opcode_defs)
  then have "PushSize opcode pc = None" using assms by (intro PushSize_op) auto
  with assms show ?thesis
    by (cases "EvalOp sha3 flags checker opcode (vfExec = [] \<or> hd vfExec) stk vfExec")
       (auto simp: EvalLoop.simps(2) Let_def EvalNext_def split: prod.split)
qed

lemma EvalLoop_small:
  assumes "opcode = OP_0 \<or> OP_PUSHDATA4 < opcode" "opcode \<le> OP_16"
  shows "EvalLoop sha3 flags checker stk vfExec n (opcode # pc) =
    bindE (EvalOp sha3 flags checker opcode (vfExec = [] \<or> hd vfExec) stk vfExec)
      (EvalNext sha3 flags checker n pc)"
proof -
  have "PushSize opcode pc = None" using assms(1) by (intro PushSize_op) (auto simp: OP_0_def)
  moreover have "\<not> OP_16 < opcode" using assms(2) by simp
  ultimately show ?thesis
    by (cases "EvalOp sha3 flags checker opcode (vfExec = [] \<or> hd vfExec) stk vfExec")
       (auto simp: EvalLoop.simps(2) Let_def EvalNext_def split: prod.split)
qed

lemma high_ops [simp]:
  "OP_16 < OP_IF" "OP_16 < OP_ELSE" "OP_16 < OP_ENDIF" "OP_16 < OP_RETURN" "OP_16 < OP_DROP" "OP_16 < OP_DUP"
  "OP_16 < OP_EQUALVERIFY" "OP_16 < OP_SHA3_256" "OP_16 < OP_HASH160" "OP_16 < OP_CHECKSIG"
  "OP_16 < OP_CHECKLOCKTIMEVERIFY"
  by (simp_all add: opcode_defs)

text \<open>The opcodes one by one.\<close>

lemma EvalOp_stack:
  assumes "opcode \<in> {OP_RETURN, OP_DROP, OP_DUP, OP_EQUALVERIFY, OP_SHA3_256, OP_HASH160, OP_CHECKSIG}"
  shows "EvalOp sha3 flags checker opcode fExec stk vf =
    (if fExec then bindE (EvalStack sha3 checker opcode stk) (\<lambda>stk. Inr (stk, vf)) else Inr (stk, vf))"
  using assms by (auto simp: EvalOp_def opcode_defs)

lemma EvalOp_skip [eval_simps]:
  assumes "opcode \<in> {OP_RETURN, OP_DROP, OP_DUP, OP_EQUALVERIFY, OP_SHA3_256, OP_HASH160, OP_CHECKSIG, OP_CHECKLOCKTIMEVERIFY}"
  shows "EvalOp sha3 flags checker opcode False stk vf = Inr (stk, vf)"
  using assms by (auto simp: EvalOp_def EvalLock_def opcode_defs)

lemma EvalOp_exec [eval_simps]:
  "EvalOp sha3 flags checker OP_RETURN True stk vf = Inl ReturnEncountered"
  "EvalOp sha3 flags checker OP_DROP True stk vf =
     (case stk of [] \<Rightarrow> Inl DropRequiresElement | x # s \<Rightarrow> Inr (s, vf))"
  "EvalOp sha3 flags checker OP_DUP True stk vf =
     (case stk of [] \<Rightarrow> Inl DupRequiresElement | x # s \<Rightarrow> Inr (x # x # s, vf))"
  "EvalOp sha3 flags checker OP_EQUALVERIFY True stk vf =
     (case stk of x # y # s \<Rightarrow> if x = y then Inr (s, vf) else Inl EqualVerifyFailed | _ \<Rightarrow> Inl EqualRequiresTwo)"
  "EvalOp sha3 flags checker OP_SHA3_256 True stk vf =
     (case stk of [] \<Rightarrow> Inl Sha3RequiresElement | x # s \<Rightarrow> Inr (sha3 x # s, vf))"
  "EvalOp sha3 flags checker OP_HASH160 True stk vf =
     (case stk of [] \<Rightarrow> Inl Hash160RequiresElement | x # s \<Rightarrow> Inr (Hash160 sha3 x # s, vf))"
  "EvalOp sha3 flags checker OP_CHECKSIG True stk vf =
     (case stk of pk # sig # s \<Rightarrow> Inr ((if CheckSig checker sig pk then [1] else []) # s, vf)
      | _ \<Rightarrow> Inl ChecksigRequiresTwo)"
  by (simp_all add: EvalOp_stack EvalStack_def opcode_defs Let_def split: list.split)

lemma EvalOp_flow [eval_simps]:
  "EvalOp sha3 flags checker OP_IF True stk vf =
     (case stk of [] \<Rightarrow> Inl IfRequiresElement | x # s \<Rightarrow> Inr (s, CastToBool x # vf))"
  "EvalOp sha3 flags checker OP_IF False stk vf = Inr (stk, False # vf)"
  "EvalOp sha3 flags checker OP_ELSE f stk (b # vf) = Inr (stk, (if vf = [] \<or> hd vf then \<not> b else b) # vf)"
  "EvalOp sha3 flags checker OP_ENDIF f stk (b # vf) = Inr (stk, vf)"
  by (simp_all add: EvalOp_def EvalFlow_def opcode_defs Let_def split: list.split)

lemma EvalOp_cltv [eval_simps]:
  assumes "flags AND SCRIPT_VERIFY_CHECKLOCKTIMEVERIFY \<noteq> 0"
  shows "EvalOp sha3 flags checker OP_CHECKLOCKTIMEVERIFY True stk vf =
     (case stk of [] \<Rightarrow> Inl CltvRequiresElement
      | x # s \<Rightarrow>
          (case CScriptNum_of_vch x 5 of None \<Rightarrow> Inl ScriptNumberOverflow
           | Some t \<Rightarrow> if sint t < 0 then Inl CltvNegative
                       else if CheckLockTime checker t then Inr (stk, vf) else Inl CltvNotSatisfied))"
  using assms by (simp add: EvalOp_def EvalLock_def opcode_defs split: list.split option.split)

text \<open>Data pushes.\<close>

lemma unat_byte_mod [simp]: "unat (of_nat n :: byte) = n mod 256"
  by (simp add: unsigned_of_nat take_bit_eq_mod)

lemma two_byte_size:
  assumes "n < 2 ^ 16"
  shows "unat (ucast (of_nat n :: byte) OR push_bit 8 (ucast (of_nat (n div 2 ^ 8) :: byte)) :: u64) = n"
proof -
  have d: "n div 2 ^ 8 mod 256 = n div 256" using assms by (simp add: less_mult_imp_div_less)
  have "le_val [of_nat n, of_nat (n div 2 ^ 8)] = n mod 256 + 256 * (n div 256)"
    by (simp only: le_val.simps unat_byte_mod d mult_0_right add_0_right)
  then have e: "le_val [of_nat n, of_nat (n div 2 ^ 8)] = n" by simp
  show ?thesis unfolding le_word_2 e using assms by (intro unat_of_nat_len) simp
qed

lemma PushSize_data:
  assumes "0 < length d" "length d \<le> MAX_SCRIPT_ELEMENT_SIZE"
  shows "\<exists>opc r. PushData d @ pc = opc # r \<and> PushSize opc r = Some (Inr (length d, d @ pc))"
proof -
  have le: "length d \<le> 5300" using assms(2) by (simp add: script_limits)
  consider "length d < 0x4c" | "0x4c \<le> length d" "length d \<le> 0xff" | "0xff < length d" by linarith
  then show ?thesis
  proof cases
    case 1
    then have "0 < (of_nat (length d) :: byte)" "(of_nat (length d) :: byte) < 0x4c"
      using assms(1) by (simp_all add: word_less_nat_alt)
    then show ?thesis using 1 by (simp add: PushData_def PushSize_def opcode_defs)
  next
    case 2
    then show ?thesis by (simp add: PushData_def PushSize_def opcode_defs)
  next
    case 3
    then have "PushData d @ pc = OP_PUSHDATA2 # of_nat (length d) # of_nat (length d div 2 ^ 8) # d @ pc"
      using le by (simp add: PushData_def)
    moreover have "PushSize OP_PUSHDATA2 (of_nat (length d) # of_nat (length d div 2 ^ 8) # d @ pc) =
        Some (Inr (length d, d @ pc))"
      using two_byte_size [of "length d"] le by (simp add: PushSize_def opcode_defs del: push_bit_of_nat)
    ultimately show ?thesis by blast
  qed
qed

lemma EvalLoop_PushData [eval_simps]:
  assumes "length d \<le> MAX_SCRIPT_ELEMENT_SIZE" "d \<noteq> []"
  shows "EvalLoop sha3 flags checker stk vf n (PushData d @ pc) =
    EvalLoop sha3 flags checker (if vf = [] \<or> hd vf then d # stk else stk) vf n pc"
proof -
  obtain opc r where "PushData d @ pc = opc # r" "PushSize opc r = Some (Inr (length d, d @ pc))"
    using PushSize_data assms by (metis length_greater_0_conv)
  then show ?thesis using assms by (simp add: EvalLoop.simps(2) Let_def)
qed

lemma EvalLoop_PushData_end [eval_simps]:
  assumes "length d \<le> MAX_SCRIPT_ELEMENT_SIZE" "d \<noteq> []"
  shows "EvalLoop sha3 flags checker stk vf n (PushData d) =
    EvalLoop sha3 flags checker (if vf = [] \<or> hd vf then d # stk else stk) vf n []"
  using EvalLoop_PushData [OF assms, of sha3 flags checker stk vf n "[]"] by simp

lemma EvalNext_simp [eval_simps]:
  "EvalNext sha3 flags checker n pc (stk, vf) =
     (if length stk > MAX_STACK_SIZE then Inl StackSizeExceedsMaximum else EvalLoop sha3 flags checker stk vf n pc)"
  by (simp add: EvalNext_def)

lemma EvalLoop_empty [eval_simps]:
  "EvalLoop sha3 flags checker stk vf n (OP_0 # pc) =
    EvalNext sha3 flags checker n pc (if vf = [] \<or> hd vf then [] # stk else stk, vf)"
  by (subst EvalLoop_small) (simp_all add: opcode_defs EvalOp_def)

section \<open>Script pairs\<close>

lemma p2pkh_parts:
  assumes "IsPayToPublicKeyHash s"
  shows "s = OP_DUP # OP_HASH160 # PushData (take 20 (drop 3 s)) @ [OP_EQUALVERIFY, OP_CHECKSIG]"
    "length (take 20 (drop 3 s)) = 20"
proof -
  have len: "length s = 25" and n: "s ! 0 = OP_DUP" "s ! 1 = OP_HASH160" "s ! 2 = 0x14" "s ! 23 = OP_EQUALVERIFY" "s ! 24 = OP_CHECKSIG"
    using assms by (simp_all add: IsPayToPublicKeyHash_def)
  show l: "length (take 20 (drop 3 s)) = 20" using len by simp
  have "drop 23 s = [s ! 23, s ! 24]" using len by (simp add: Cons_nth_drop_Suc [symmetric])
  then have "drop 3 s = take 20 (drop 3 s) @ [OP_EQUALVERIFY, OP_CHECKSIG]"
    using append_take_drop_id [of 20 "drop 3 s"] n by simp
  moreover have "s = s ! 0 # s ! 1 # s ! 2 # drop 3 s"
    using len Cons_nth_drop_Suc [of 0 s] Cons_nth_drop_Suc [of 1 s] Cons_nth_drop_Suc [of 2 s]
    by (simp add: numeral_2_eq_2 numeral_3_eq_3)
  ultimately show "s = OP_DUP # OP_HASH160 # PushData (take 20 (drop 3 s)) @ [OP_EQUALVERIFY, OP_CHECKSIG]"
    using n l by (simp add: PushData_def)
qed

lemma CastToBool_simps [simp]: "CastToBool [1]" "\<not> CastToBool []" "CastToBool [1] = True"
  by (simp_all add: CastToBool_def)

text \<open>A P2PKH script on any stack.\<close>

lemma EvalScript_p2pkh:
  assumes "IsPayToPublicKeyHash spk"
  shows "EvalScript sha3 flags checker stk spk = Inr r \<longleftrightarrow>
    (\<exists>pk sig stk'. stk = pk # sig # stk' \<and> length stk < MAX_STACK_SIZE \<and> Hash160 sha3 pk = take 20 (drop 3 spk) \<and>
       r = (if CheckSig checker sig pk then [1] else []) # stk')"
proof -
  define h where "h = take 20 (drop 3 spk)"
  have s: "spk = OP_DUP # OP_HASH160 # PushData h @ [OP_EQUALVERIFY, OP_CHECKSIG]" and l: "length h = 20"
    using p2pkh_parts [OF assms] by (simp_all add: h_def)
  have "length spk \<le> MAX_SCRIPT_SIZE" using assms by (simp add: IsPayToPublicKeyHash_def script_limits)
  moreover have hl: "h \<noteq> []" "length h \<le> MAX_SCRIPT_ELEMENT_SIZE" using l by (auto simp: script_limits)
  have "EvalLoop sha3 flags checker stk [] 0 spk = Inr r \<longleftrightarrow>
    (\<exists>pk sig stk'. stk = pk # sig # stk' \<and> length stk < MAX_STACK_SIZE \<and> Hash160 sha3 pk = h \<and>
       r = (if CheckSig checker sig pk then [1] else []) # stk')"
    unfolding s
    by (cases stk; cases "tl stk")
       (auto simp: EvalLoop_op eval_simps hl MAX_STACK_SIZE_def MAX_OPS_PER_SCRIPT_def)
  ultimately show ?thesis by (simp add: EvalScript_def h_def)
qed

lemma VerifyScript_p2pkh:
  assumes "IsPayToPublicKeyHash spk"
  shows "VerifyScript sha3 flags checker ss spk = Inr () \<longleftrightarrow>
    (\<exists>pk sig stk. EvalScript sha3 flags checker [] ss = Inr (pk # sig # stk) \<and> length stk + 2 < MAX_STACK_SIZE \<and>
       Hash160 sha3 pk = take 20 (drop 3 spk) \<and> CheckSig checker sig pk)"
proof -
  have "(case r of [] \<Rightarrow> Inl EmptyStack | el # _ \<Rightarrow> if \<not> CastToBool el then Inl EvaluatedToFalse else Inr ()) = Inr () \<longleftrightarrow>
      (\<exists>el s. r = el # s \<and> CastToBool el)" for r
    by (cases r) auto
  then show ?thesis
    unfolding VerifyScript_def bindE_Inr_iff EvalScript_p2pkh [OF assms] by (fastforce split: if_splits)
qed

lemma EvalScript_pushes:
  assumes "length a \<le> MAX_SCRIPT_ELEMENT_SIZE" "length b \<le> MAX_SCRIPT_ELEMENT_SIZE" "a \<noteq> []" "b \<noteq> []"
  shows "EvalScript sha3 flags checker [] (PushData a @ PushData b) = Inr [b, a]"
proof -
  have "EvalLoop sha3 flags checker [] [] 0 (PushData a @ PushData b @ []) = Inr [b, a]"
    using assms by (simp add: eval_simps)
  moreover have "length (PushData a @ PushData b) \<le> MAX_SCRIPT_SIZE"
    using assms by (simp add: PushData_def script_limits)
  ultimately show ?thesis by (simp add: EvalScript_def)
qed

lemma unspendable_never:
  assumes "IsUnspendable spk"
  shows "VerifyScript sha3 flags checker ss spk \<noteq> Inr ()"
proof -
  obtain pc where s: "spk = OP_RETURN # pc" using assms by (cases spk) (auto simp: IsUnspendable_def)
  show ?thesis
    unfolding VerifyScript_def bindE_Inr_iff EvalScript_def s
    by (auto simp: EvalLoop_op eval_simps MAX_OPS_PER_SCRIPT_def split: if_splits)
qed

text \<open>Data pushes are not counted and not checked against the stack limit.\<close>

lemma EvalLoop_many_pushes:
  "EvalLoop sha3 flags checker stk [] n (concat (replicate k (PushData [b])) ) = Inr (replicate k [b] @ stk)"
proof (induction k arbitrary: stk)
  case (Suc k)
  then show ?case
    by (simp add: EvalLoop_PushData [of "[b]"] MAX_SCRIPT_ELEMENT_SIZE_def replicate_app_Cons_same)
qed simp

section \<open>Script number round trip\<close>

lemma le_val_serialize_loop: "le_val (serialize_loop n) = n"
proof (induction n rule: serialize_loop.induct)
  case (1 n)
  then show ?case by (subst serialize_loop.simps) simp
qed

lemma serialize_loop_length: "n < 256 ^ k \<Longrightarrow> length (serialize_loop n) \<le> k"
proof (induction k arbitrary: n)
  case 0
  then show ?case by (subst serialize_loop.simps) simp
next
  case (Suc k)
  then have "n div 256 < 256 ^ k" by (simp add: less_mult_imp_div_less)
  then have "length (serialize_loop (n div 256)) \<le> k" by (rule Suc.IH)
  then show ?case by (subst serialize_loop.simps) simp
qed

lemma serialize_loop_nonempty: "0 < n \<Longrightarrow> serialize_loop n \<noteq> []"
  by (subst serialize_loop.simps) simp

lemma set_vch_loop_val:
  assumes "unat r < 2 ^ (8 * i)" "i + length bs \<le> 8"
  shows "unat (set_vch_loop i r bs) = unat r + le_val bs * 2 ^ (8 * i)"
  using assms
proof (induction bs arbitrary: i r)
  case (Cons b bs)
  have b: "unat b \<le> 255" using unat_byte_lt [of b] by simp
  have "2 ^ (8 * i) * 256 \<le> (2 :: nat) ^ 64"
    using Cons.prems(2) power_increasing [of "8 * Suc i" 64 "2 :: nat"] by (simp add: power_add)
  moreover have "unat b * 2 ^ (8 * i) \<le> 255 * 2 ^ (8 * i)" using b by (intro mult_right_mono) auto
  moreover have "(2 :: nat) ^ (8 * Suc i) = 2 ^ (8 * i) * 256" by (simp add: power_add)
  ultimately have lt: "unat r + unat b * 2 ^ (8 * i) < 2 ^ (8 * Suc i)" "unat r + unat b * 2 ^ (8 * i) < 2 ^ 64"
    using Cons.prems(1) by linarith+
  have o: "unat (r OR push_bit (8 * i) (ucast b)) = unat r + unat b * 2 ^ (8 * i)"
    using or_push_val [of r "8 * i" "ucast b"] Cons.prems(1) lt(2) by simp
  then have "unat (set_vch_loop (Suc i) (r OR push_bit (8 * i) (ucast b)) bs) =
      unat r + unat b * 2 ^ (8 * i) + le_val bs * 2 ^ (8 * Suc i)"
    using Cons.IH [of "r OR push_bit (8 * i) (ucast b)" "Suc i"] Cons.prems(2) lt(1) by simp
  then show ?case by (simp add: power_add algebra_simps)
qed simp

lemma set_vch_loop_word: "length bs \<le> 8 \<Longrightarrow> set_vch_loop 0 0 bs = of_nat (le_val bs)"
  using set_vch_loop_val [of 0 0 bs] by (intro word_of_unat) simp

lemma clear_top_bit:
  assumes "a < 2 ^ j" "j < 64"
  shows "(of_nat (a + 2 ^ j) :: i64) AND NOT (push_bit j 1) = of_nat a"
proof -
  let ?u = "of_nat a :: i64"
  have "(2 :: nat) ^ j \<le> 2 ^ 63" using assms(2) by (intro power_increasing) auto
  then have lt: "a < 2 ^ 64" "a + 2 ^ j < 2 ^ 64" using assms(1) by simp_all
  then have u: "unat ?u = a" by (intro unat_of_nat_len)
  have "unat (?u OR push_bit j 1) = a + 2 ^ j"
    using or_push_val [of ?u j 1] assms(1) lt(2) u by simp
  then have w: "of_nat (a + 2 ^ j) = ?u OR push_bit j 1" using lt(2) by (metis word_of_unat)
  have "take_bit j ?u = ?u"
    using assms(1) u by (simp add: word_unat_eq_iff unsigned_take_bit_eq take_bit_nat_eq_self)
  then have "bit ?u n \<Longrightarrow> n < j" for n by (metis bit_take_bit_iff)
  then show ?thesis unfolding w by (intro bit_word_eqI) (auto simp: bit_simps)
qed

lemma set_vch_neg:
  assumes "a < 128 * 256 ^ k" "length vch = Suc k" "k < 8" "le_val vch = a + 128 * 256 ^ k" "last vch AND 0x80 \<noteq> 0"
  shows "CScriptNum_set_vch vch = - of_nat a"
proof -
  have p: "(2 :: nat) ^ (8 * k + 7) = 128 * 256 ^ k" by (simp add: power_add power_mult)
  have "push_bit (8 * k) (0x80 :: i64) = push_bit (8 * k) (push_bit 7 1)" by simp
  then have s: "push_bit (8 * k) (0x80 :: i64) = push_bit (8 * k + 7) 1" by (simp only: push_bit_push_bit)
  have "set_vch_loop 0 0 vch = of_nat (a + 2 ^ (8 * k + 7))"
    using assms set_vch_loop_word [of vch] p by simp
  then show ?thesis
    using clear_top_bit [of a "8 * k + 7"] assms p s by (simp add: CScriptNum_set_vch_def Let_def) force
qed

lemma high_bit: "(b :: byte) AND 0x80 \<noteq> 0 \<longleftrightarrow> 128 \<le> unat b"
proof -
  have "(0x80 :: byte) = push_bit 7 1" by simp
  then have "b AND 0x80 = 0 \<longleftrightarrow> \<not> bit b 7" unfolding bit_iff_and_push_bit_not_eq_0 by simp
  moreover have "bit (unat b) 7 = bit b 7" by (simp add: bit_unsigned_iff)
  then have "bit b 7 \<longleftrightarrow> odd (unat b div 128)" by (simp add: bit_iff_odd [of "unat b"])
  moreover have "unat b div 128 = (if 128 \<le> unat b then 1 else 0)" using unat_byte_lt [of b] by auto
  ultimately show ?thesis by auto
qed


text \<open>The digits of a number in sign-and-magnitude form.\<close>

lemma digits_split:
  assumes "0 < a"
  obtains xs b where "serialize_loop a = xs @ [b]" "a = le_val xs + 256 ^ length xs * unat b"
proof -
  obtain xs b where "serialize_loop a = xs @ [b]" using serialize_loop_nonempty [OF assms] by (metis rev_exhaust)
  moreover from this have "a = le_val xs + 256 ^ length xs * unat b"
    using le_val_serialize_loop [of a] by (simp add: le_val_append)
  ultimately show ?thesis by (rule that)
qed

lemma set_vch_pos: "length vch \<le> 8 \<Longrightarrow> vch \<noteq> [] \<Longrightarrow> last vch AND 0x80 = 0 \<Longrightarrow> CScriptNum_set_vch vch = of_nat (le_val vch)"
  by (simp add: CScriptNum_set_vch_def set_vch_loop_word)

lemma scriptnum_magnitude:
  assumes "0 < a" "a < 2 ^ 39"
  defines "r \<equiv> serialize_loop a"
  defines "enc \<equiv> \<lambda>neg. if last r AND 0x80 \<noteq> 0 then r @ [if neg then 0x80 else 0]
            else if neg then butlast r @ [last r OR 0x80] else r"
  shows "length (enc neg) \<le> 5 \<and> CScriptNum_set_vch (enc neg) = (if neg then - of_nat a else of_nat a)"
proof -
  obtain xs b where r: "r = xs @ [b]" and a: "a = le_val xs + 256 ^ length xs * unat b"
    using digits_split [OF assms(1)] unfolding r_def by metis
  have lr: "length r \<le> 5" unfolding r_def using serialize_loop_length [of a 5] assms(2) by simp
  have x: "le_val xs < 256 ^ length xs" by (rule le_val_bound)
  have v: "le_val r = a" unfolding r_def by (rule le_val_serialize_loop)
  show ?thesis
  proof (cases "b AND 0x80 \<noteq> 0")
    case True
    have "length xs \<noteq> 4"
    proof
      assume "length xs = 4"
      then have "256 ^ 4 * 128 \<le> a" using True a high_bit [of b] by simp
      then show False using assms(2) by simp
    qed
    then have l: "length r \<le> 4" using lr r by simp
    have "a < 256 ^ length r" using v le_val_bound [of r] by simp
    then have "a < 128 * 256 ^ length r" by simp
    then have "neg \<Longrightarrow> CScriptNum_set_vch (r @ [0x80]) = - of_nat a"
      using l v by (intro set_vch_neg [of a "length r"]) (simp_all add: le_val_append)
    moreover have "CScriptNum_set_vch (r @ [0]) = of_nat a"
      using l v set_vch_pos [of "r @ [0]"] by (simp add: le_val_append)
    ultimately show ?thesis using True l r by (simp add: enc_def)
  next
    case False
    then have b: "unat b < 128" using high_bit [of b] by simp
    have "unat b + 1 \<le> 128" using b by simp
    then have "256 ^ length xs * (unat b + 1) \<le> 256 ^ length xs * 128" by (intro mult_left_mono) simp_all
    moreover have "a < 256 ^ length xs * (unat b + 1)" using a x by (simp add: distrib_left)
    ultimately have lt: "a < 128 * 256 ^ length xs" by (simp only: mult.commute)
    have "b AND 0x80 = 0" using False by simp
    then have "b + 0x80 = b OR 0x80" by (simp add: disjunctive_add bit_eq_iff bit_simps)
    moreover have "unat (b + 0x80) = unat b + 128" using b by (simp add: unat_word_ariths)
    ultimately have o: "unat (b OR 0x80) = unat b + 128" by simp
    have "CScriptNum_set_vch (xs @ [b OR 0x80]) = - of_nat a"
    proof (rule set_vch_neg [OF lt])
      show "le_val (xs @ [b OR 0x80]) = a + 128 * 256 ^ length xs" using a o by (simp add: le_val_append algebra_simps)
      show "last (xs @ [b OR 0x80]) AND 0x80 \<noteq> 0" using o high_bit [of "b OR 0x80"] by simp
    qed (use lr r in simp_all)
    moreover have "CScriptNum_set_vch r = of_nat a"
      using set_vch_pos [of r] False lr r v by simp
    ultimately show ?thesis using False lr r by (simp add: enc_def)
  qed
qed

lemma scriptnum_roundtrip_word:
  assumes "- (2 ^ 39) < sint v" "sint v < 2 ^ 39"
  shows "length (CScriptNum_serialize v) \<le> 5 \<and> CScriptNum_set_vch (CScriptNum_serialize v) = v"
proof (cases "v = 0")
  case True
  then show ?thesis by (simp add: CScriptNum_serialize_def CScriptNum_set_vch_def)
next
  case False
  define a where "a = unat (if sint v < 0 then - v else v)"
  have i: "v = word_of_int (sint v)" by simp
  have "uint (if sint v < 0 then - v else v) = \<bar>sint v\<bar>"
  proof (cases "sint v < 0")
    case True
    have "uint (- v) = uint (word_of_int (- sint v) :: i64)" by (subst i) (simp only: wi_hom_neg)
    also have "\<dots> = - sint v" using True assms by (simp only: uint_word_of_int) simp
    finally show ?thesis using True by simp
  next
    case False
    have "uint v = uint (word_of_int (sint v) :: i64)" by simp
    also have "\<dots> = sint v" using False assms by (simp only: uint_word_of_int) simp
    finally show ?thesis using False by simp
  qed
  then have "int a < 2 ^ 39" using assms by (simp add: a_def)
  then have lt: "a < 2 ^ 39" by simp
  have pos: "0 < a" using False by (simp add: a_def unat_gt_0)
  have w: "of_nat a = (if sint v < 0 then - v else v)" by (simp add: a_def)
  have e: "CScriptNum_serialize v =
      (let r = serialize_loop a in if last r AND 0x80 \<noteq> 0 then r @ [if sint v < 0 then 0x80 else 0]
       else if sint v < 0 then butlast r @ [last r OR 0x80] else r)"
    using False by (simp add: CScriptNum_serialize_def Let_def a_def)
  have v: "(if sint v < 0 then - of_nat a else of_nat a) = v" unfolding w by simp
  show ?thesis
    using scriptnum_magnitude [OF pos lt, of "sint v < 0"] unfolding e v Let_def by blast
qed

section \<open>Safety of the stack\<close>

abbreviation small_stack :: "stack \<Rightarrow> bool" where
  "small_stack stk \<equiv> \<forall>e \<in> set stk. length e \<le> MAX_SCRIPT_ELEMENT_SIZE"

lemma CScriptNum_serialize_length: "length (CScriptNum_serialize v) \<le> MAX_SCRIPT_ELEMENT_SIZE"
proof -
  have l: "length (serialize_loop (unat w)) \<le> 8" for w :: i64
    using serialize_loop_length [of "unat w" 8] u64_range [of w] by simp
  have "length (if c then r @ [x] else if d then butlast r @ [y] else r) \<le> Suc (length r)" for c d r and x y :: byte
    by simp
  then have "length (CScriptNum_serialize v) \<le> Suc (length (serialize_loop (unat (if sint v < 0 then - v else v))))"
    unfolding CScriptNum_serialize_def Let_def by simp
  also have "\<dots> \<le> 9" using l [of "if sint v < 0 then - v else v"] by simp
  finally show ?thesis by (simp add: script_limits)
qed

lemma EvalStack_safe:
  assumes "\<And>x. length (sha3 x) = 32" "EvalStack sha3 checker opcode stk = Inr stk'" "small_stack stk"
  shows "small_stack stk' \<and> length stk' \<le> Suc (length stk)"
proof -
  have n: "length (sha3 x) \<le> MAX_SCRIPT_ELEMENT_SIZE" "length (Hash160 sha3 x) \<le> MAX_SCRIPT_ELEMENT_SIZE"
    "Suc 0 \<le> MAX_SCRIPT_ELEMENT_SIZE" for x
    using assms(1) by (simp_all add: Hash160_def script_limits)
  show ?thesis
    using assms(2,3) n CScriptNum_serialize_length
    unfolding EvalStack_def Let_def by (simp split: if_split_asm list.split_asm) auto
qed

lemma EvalOp_safe:
  assumes "\<And>x. length (sha3 x) = 32" "EvalOp sha3 flags checker opcode f stk vf = Inr (stk', vf')" "small_stack stk"
  shows "small_stack stk' \<and> length stk' \<le> Suc (length stk)"
proof -
  have l: "EvalLock flags checker opcode f stk = Inr s \<Longrightarrow> s = stk" for s
    by (auto simp: EvalLock_def split: if_splits list.splits option.splits)
  have fl: "EvalFlow opcode f stk vf = Inr (s, v) \<Longrightarrow> s = stk \<or> s = tl stk" for s v
    unfolding EvalFlow_def Let_def by (simp split: if_split_asm list.split_asm)
  have t: "small_stack (tl stk)" using assms(3) by (cases stk) auto
  have st: "EvalStack sha3 checker opcode stk = Inr stk' \<Longrightarrow> ?thesis"
    using EvalStack_safe [of sha3 checker opcode stk stk', OF assms(1) _ assms(3)] by blast
  have n: "length (CScriptNum_serialize v) \<le> MAX_SCRIPT_ELEMENT_SIZE" for v by (rule CScriptNum_serialize_length)
  from assms(2) consider "stk' = stk" | v where "stk' = CScriptNum_serialize v # stk" | "stk' = [] # stk"
    | "EvalFlow opcode f stk vf = Inr (stk', vf')" | "EvalLock flags checker opcode f stk = Inr stk'"
    | "EvalStack sha3 checker opcode stk = Inr stk'"
    unfolding EvalOp_def bindE_Inr_iff by (simp split: if_split_asm add: bindE_Inr_iff) blast+
  then show ?thesis
  proof cases
    case 4
    then have "stk' = stk \<or> stk' = tl stk" by (rule fl)
    then show ?thesis using t assms(3) by auto
  qed (use assms(3) n l st in auto)
qed

lemma EvalLoop_safe:
  assumes "\<And>x. length (sha3 x) = 32"
  shows "EvalLoop sha3 flags checker stk vf n script = Inr stk' \<Longrightarrow> small_stack stk \<Longrightarrow>
    small_stack stk' \<and> length stk' \<le> length stk + length script"
proof (induction script arbitrary: stk vf n rule: measure_induct_rule [of length])
  case (less script)
  show ?case
  proof (cases script)
    case Nil
    then show ?thesis using less.prems by (auto split: if_splits)
  next
    case (Cons opcode pc)
    show ?thesis
    proof (cases "PushSize opcode pc")
      case None
      define f where "f = (vf = [] \<or> hd vf)"
      obtain m s v where e: "EvalOp sha3 flags checker opcode f stk vf = Inr (s, v)"
        "EvalLoop sha3 flags checker s v m pc = Inr stk'"
        using less.prems(1) None
        unfolding Cons EvalLoop.simps(2) Let_def f_def by (auto split: if_splits sum.splits prod.splits)
      have s: "small_stack s" "length s \<le> Suc (length stk)"
        using EvalOp_safe [of sha3 flags checker opcode f stk vf s v, OF assms e(1) less.prems(2)] by auto
      then show ?thesis using less.IH [of pc s v m] e(2) Cons by force
    next
      case (Some p)
      then obtain k pc' where p: "PushSize opcode pc = Some (Inr (k, pc'))"
        using less.prems(1) unfolding Cons EvalLoop.simps(2) Let_def by (cases p) auto
      have l: "length pc' \<le> length pc" using p by (auto simp: PushSize_def split: if_splits)
      define s where "s = (if vf = [] \<or> hd vf then take k pc' # stk else stk)"
      have e: "EvalLoop sha3 flags checker s vf n (drop k pc') = Inr stk'" "k \<le> length pc'" "k \<le> MAX_SCRIPT_ELEMENT_SIZE"
        using less.prems(1) p unfolding Cons EvalLoop.simps(2) Let_def s_def by (auto split: if_splits)
      have "small_stack s" "length s \<le> Suc (length stk)" using less.prems(2) e(3) by (auto simp: s_def)
      moreover have "length (drop k pc') < length script" using l Cons by simp
      ultimately show ?thesis using less.IH [of "drop k pc'" s vf n] e(1) l Cons by force
    qed
  qed
qed

lemma EvalScript_safe:
  assumes "\<And>x. length (sha3 x) = 32" "EvalScript sha3 flags checker stk script = Inr stk'" "small_stack stk"
  shows "small_stack stk' \<and> length stk' \<le> length stk + length script"
  using EvalLoop_safe [of sha3 flags checker stk "[]" 0 script stk', OF assms(1)] assms(2,3)
  by (auto simp: EvalScript_def split: if_splits)

section \<open>The contract of a signature checker\<close>

text \<open>
  What the interpreter's clients rely on: a checker accepts only signatures and keys of the Dilithium sizes that
  authorize the spending, and a lock time it accepts stays accepted when it is lowered within the same domain
  (block heights or Unix times).
\<close>

locale signature_checker =
  fixes checker :: SignatureChecker and authorizes :: "bytes \<Rightarrow> bytes \<Rightarrow> bool"
  assumes sig_sizes: "CheckSig checker sig pk \<Longrightarrow> length sig = DILITHIUM3_SIG_SIZE \<and> length pk = DILITHIUM3_PK_SIZE"
    and sig_authorizes: "CheckSig checker sig pk \<Longrightarrow> authorizes sig pk"
    and lock_antimono: "CheckLockTime checker t \<Longrightarrow> sint t' \<le> sint t \<Longrightarrow>
          (sint t < uint LOCKTIME_THRESHOLD) = (sint t' < uint LOCKTIME_THRESHOLD) \<Longrightarrow> CheckLockTime checker t'"
begin

lemma p2pkh_authorized:
  assumes "IsPayToPublicKeyHash spk" "VerifyScript sha3 flags checker ss spk = Inr ()"
  shows "\<exists>sig pk. authorizes sig pk \<and> Hash160 sha3 pk = take 20 (drop 3 spk) \<and>
    length sig = DILITHIUM3_SIG_SIZE \<and> length pk = DILITHIUM3_PK_SIZE"
  using assms(2) sig_sizes sig_authorizes unfolding VerifyScript_p2pkh [OF assms(1)] by blast

end

interpretation txc: signature_checker "TransactionSignatureChecker sha3 verify tx nIn chainId"
    "\<lambda>sig pk. verify sig (sha3 (SigMessage sha3 tx nIn chainId)) pk = 0 \<and>
       \<not> AllZerosOrOnes sig \<and> \<not> AllZerosOrOnes pk"
  for sha3 verify tx nIn chainId
proof unfold_locales
  fix t t' :: i64
  assume a: "CheckLockTime (TransactionSignatureChecker sha3 verify tx nIn chainId) t" "sint t' \<le> sint t"
    "(sint t < uint LOCKTIME_THRESHOLD) = (sint t' < uint LOCKTIME_THRESHOLD)"
  then show "CheckLockTime (TransactionSignatureChecker sha3 verify tx nIn chainId) t'"
    by (auto simp: TransactionSignatureChecker_def TxCheckLockTime_def split: if_splits)
qed (auto simp: TransactionSignatureChecker_def TxCheckSig_def Let_def split: if_splits)

section \<open>Properties\<close>

text \<open>
  C2: coins locked to a public key hash. Whatever the unlocking script, if it spends a P2PKH output of input
  \<open>nIn\<close> then a public key with that hash and a signature exist, of the Dilithium sizes, that the external
  verification accepts for the hash of this transaction's signing message with this input index, version and chain.
  And the standard unlocking script, a push of a signature and of a key, is accepted exactly when the key hashes to
  the value in the script and the signature checks.
\<close>

theorem p2pkh_secure:
  assumes "IsPayToPublicKeyHash spk"
  shows "(VerifyScript sha3 flags (TransactionSignatureChecker sha3 verify tx nIn chainId) ss spk = Inr () \<longrightarrow>
      (\<exists>sig pk. verify sig (sha3 (SigMessage sha3 tx nIn chainId)) pk = 0 \<and> Hash160 sha3 pk = take 20 (drop 3 spk) \<and>
         length sig = 3309 \<and> length pk = 1952)) \<and>
    (length sig = 3309 \<longrightarrow> length pk = 1952 \<longrightarrow>
      (VerifyScript sha3 flags (TransactionSignatureChecker sha3 verify tx nIn chainId) (PushData sig @ PushData pk) spk = Inr () \<longleftrightarrow>
         Hash160 sha3 pk = take 20 (drop 3 spk) \<and> TxCheckSig sha3 verify tx nIn chainId sig pk))"
proof (intro conjI impI)
  show "\<exists>sig pk. verify sig (sha3 (SigMessage sha3 tx nIn chainId)) pk = 0 \<and> Hash160 sha3 pk = take 20 (drop 3 spk) \<and>
      length sig = 3309 \<and> length pk = 1952"
    if "VerifyScript sha3 flags (TransactionSignatureChecker sha3 verify tx nIn chainId) ss spk = Inr ()"
    using txc.p2pkh_authorized [OF assms that] by (auto simp: script_limits)
  assume l: "length sig = 3309" "length pk = 1952"
  then have "EvalScript sha3 flags (TransactionSignatureChecker sha3 verify tx nIn chainId) [] (PushData sig @ PushData pk) = Inr [pk, sig]"
    by (intro EvalScript_pushes) (auto simp: script_limits)
  then show "VerifyScript sha3 flags (TransactionSignatureChecker sha3 verify tx nIn chainId) (PushData sig @ PushData pk) spk = Inr () \<longleftrightarrow>
      Hash160 sha3 pk = take 20 (drop 3 spk) \<and> TxCheckSig sha3 verify tx nIn chainId sig pk"
    unfolding VerifyScript_p2pkh [OF assms]
    by (simp add: TransactionSignatureChecker_def script_limits)
qed

definition ex_p2pkh :: bytes where
  "ex_p2pkh = [OP_DUP, OP_HASH160, 0x14] @ replicate 20 7 @ [OP_EQUALVERIFY, OP_CHECKSIG]"

lemma ex_p2pkh: "IsPayToPublicKeyHash ex_p2pkh" "take 20 (drop 3 ex_p2pkh) = replicate 20 7"
  by (simp_all add: ex_p2pkh_def IsPayToPublicKeyHash_def nth_append numeral_eq_Suc)

theorem p2pkh_secure_witness:
  "VerifyScript (\<lambda>_. replicate 32 7) 6 (TransactionSignatureChecker (\<lambda>_. replicate 32 7) (\<lambda>_ _ _. 0) ex_tx 0 1)
     (PushData (replicate 3309 5) @ PushData (replicate 1952 6)) ex_p2pkh = Inr ()"
proof -
  have "TxCheckSig (\<lambda>_. replicate 32 7) (\<lambda>_ _ _. 0) ex_tx 0 1 (replicate 3309 5) (replicate 1952 6)"
    by (simp add: TxCheckSig_def script_limits AllZerosOrOnes_def list_all_iff SigMessage_def SerializeUint32_def
        GetSigningHash_def)
  then show ?thesis
    using p2pkh_secure [OF ex_p2pkh(1), of "\<lambda>_. replicate 32 7" 6 "\<lambda>_ _ _. 0" ex_tx 0 1 _ "replicate 3309 5" "replicate 1952 6"]
    by (simp add: ex_p2pkh(2) Hash160_def)
qed

text \<open>
  C29: script numbers. Every number with magnitude below 2^39 is encoded in at most five bytes, and reading the
  encoding as a lock-time operand gives the number back.
\<close>

theorem scriptnum_roundtrip:
  assumes "- (2 ^ 39) < sint v" "sint v < 2 ^ 39"
  shows "CScriptNum_of_vch (CScriptNum_serialize v) 5 = Some v"
  using scriptnum_roundtrip_word [OF assms] by (simp add: CScriptNum_of_vch_def)

theorem scriptnum_roundtrip_witness: "CScriptNum_of_vch (CScriptNum_serialize (- 500000)) 5 = Some (- 500000)"
  by (rule scriptnum_roundtrip) simp_all

text \<open>
  C30: the evaluation of a script always ends, with an error or with a stack; starting from small elements no
  element of the final stack exceeds the element limit and the stack grows by at most the length of the script;
  a script that starts with \<open>OP_RETURN\<close> can never be spent.
\<close>

theorem eval_safe:
  assumes "\<forall>x. length (sha3 x) = 32" "\<forall>e \<in> set stk. length e \<le> MAX_SCRIPT_ELEMENT_SIZE"
  shows "((\<exists>e. EvalScript sha3 flags checker stk script = Inl e) \<or>
     (\<exists>stk'. EvalScript sha3 flags checker stk script = Inr stk' \<and> length stk' \<le> length stk + length script \<and>
        (\<forall>e \<in> set stk'. length e \<le> MAX_SCRIPT_ELEMENT_SIZE))) \<and>
   (IsUnspendable spk \<longrightarrow> VerifyScript sha3 flags checker ss spk \<noteq> Inr ())"
proof (intro conjI impI)
  have "\<And>x. length (sha3 x) = 32" using assms(1) by blast
  note s = EvalScript_safe [of sha3 flags checker stk script, OF this _ assms(2)]
  show "(\<exists>e. EvalScript sha3 flags checker stk script = Inl e) \<or>
     (\<exists>stk'. EvalScript sha3 flags checker stk script = Inr stk' \<and> length stk' \<le> length stk + length script \<and>
        (\<forall>e \<in> set stk'. length e \<le> MAX_SCRIPT_ELEMENT_SIZE))"
    using s by (cases "EvalScript sha3 flags checker stk script") auto
qed (rule unspendable_never)

theorem eval_safe_witness:
  "VerifyScript (\<lambda>_. replicate 32 7) 6 (TransactionSignatureChecker (\<lambda>_. replicate 32 7) (\<lambda>_ _ _. 0) ex_tx 0 1)
     [OP_1] [OP_RETURN] \<noteq> Inr ()"
  using eval_safe [of "\<lambda>_. replicate 32 7" "[]" _ _ _ "[OP_RETURN]"] by (simp add: IsUnspendable_def)

text \<open>
  The limit of 1000 stack elements is not applied to data pushes. For every count up to half the script size
  limit, a script of that many one-byte pushes leaves that many elements.
\<close>

theorem pushes_pass_stack_limit:
  assumes "2 * k \<le> MAX_SCRIPT_SIZE"
  shows "EvalScript sha3 flags checker [] (concat (replicate k (PushData [b]))) = Inr (replicate k [b])"
proof -
  have "length (concat (replicate k (PushData [b]))) = 2 * k"
    by (induction k) (simp_all add: PushData_def)
  then show ?thesis using assms EvalLoop_many_pushes [of sha3 flags checker "[]"] by (simp add: EvalScript_def)
qed

theorem pushes_pass_stack_limit_witness:
  "EvalScript id 0 (TransactionSignatureChecker id (\<lambda>_ _ _. 0) ex_tx 0 1) [] (concat (replicate (Suc MAX_STACK_SIZE) (PushData [1]))) = Inr (replicate (Suc MAX_STACK_SIZE) [1])"
  by (rule pushes_pass_stack_limit) (simp add: script_limits)

end
