(* ===== verification/Htlc.thy ===== *)
theory Htlc
  imports Script
begin

text \<open>
  \<open>src/src/script/htlc.cpp\<close>: the hash time locked contract. Construction of the locking script and of the two
  unlocking scripts, and decoding of a locking script. A thrown exception is an error value of the constructors;
  in the decoder every exception and every \<open>return false\<close> is \<open>None\<close>. \<open>GeneratePreimage\<close> reads random bytes from
  the operating system and has no counterpart.
\<close>

section \<open>Construction\<close>

record HTLCParameters =
  hash_lock :: bytes
  claim_pubkey_hash :: bytes
  refund_pubkey_hash :: bytes
  timeout_height :: u32

datatype htlc_error =
    HashLockSize
  | ClaimHashSize
  | RefundHashSize
  | SignatureSize
  | PubkeySize
  | PreimageSize

definition CreateHTLCScript :: "HTLCParameters \<Rightarrow> htlc_error + bytes" where
  "CreateHTLCScript params =
     (if length (hash_lock params) \<noteq> 32 then Inl HashLockSize
      else if length (claim_pubkey_hash params) \<noteq> 20 then Inl ClaimHashSize
      else if length (refund_pubkey_hash params) \<noteq> 20 then Inl RefundHashSize
      else Inr
        ([OP_IF, OP_SHA3_256] @ PushData (hash_lock params) @ [OP_EQUALVERIFY, OP_DUP, OP_HASH160] @
         PushData (claim_pubkey_hash params) @ [OP_EQUALVERIFY, OP_CHECKSIG, OP_ELSE] @
         PushData (CScriptNum_serialize (ucast (timeout_height params))) @
         [OP_CHECKLOCKTIMEVERIFY, OP_DROP, OP_DUP, OP_HASH160] @
         PushData (refund_pubkey_hash params) @ [OP_EQUALVERIFY, OP_CHECKSIG, OP_ENDIF]))"

definition CreateHTLCClaimScript :: "bytes \<Rightarrow> bytes \<Rightarrow> bytes \<Rightarrow> htlc_error + bytes" where
  "CreateHTLCClaimScript signature pubkey preimage =
     (if length signature \<noteq> DILITHIUM3_SIG_SIZE then Inl SignatureSize
      else if length pubkey \<noteq> DILITHIUM3_PK_SIZE then Inl PubkeySize
      else if length preimage \<noteq> 32 then Inl PreimageSize
      else Inr (PushData signature @ PushData pubkey @ PushData preimage @ [OP_1]))"

definition CreateHTLCRefundScript :: "bytes \<Rightarrow> bytes \<Rightarrow> htlc_error + bytes" where
  "CreateHTLCRefundScript signature pubkey =
     (if length signature \<noteq> DILITHIUM3_SIG_SIZE then Inl SignatureSize
      else if length pubkey \<noteq> DILITHIUM3_PK_SIZE then Inl PubkeySize
      else Inr (PushData signature @ PushData pubkey @ [OP_0]))"

definition HashPreimage :: "(bytes \<Rightarrow> uint256) \<Rightarrow> bytes \<Rightarrow> htlc_error + bytes" where
  "HashPreimage sha3 preimage =
     (if length preimage \<noteq> 32 then Inl PreimageSize else Inr (sha3 preimage))"

section \<open>Decoding\<close>

text \<open>\<open>readOp\<close> followed by the comparison with the opcode expected.\<close>

definition readOp :: "byte \<Rightarrow> bytes \<Rightarrow> bytes option" where
  "readOp opcode pc = (case pc of [] \<Rightarrow> None | b # pc' \<Rightarrow> if b \<noteq> opcode then None else Some pc')"

definition readPush :: "nat \<Rightarrow> bytes \<Rightarrow> (bytes \<times> bytes) option" where
  "readPush expectedSize pc =
     (case pc of [] \<Rightarrow> None
      | opcode # pc \<Rightarrow>
          Option.bind
            (if opcode > 0 \<and> opcode < OP_PUSHDATA1 then Some (unat opcode, pc)
             else if opcode = OP_PUSHDATA1 then
               (case pc of [] \<Rightarrow> None | b # pc' \<Rightarrow> Some (unat b, pc'))
             else if opcode = OP_PUSHDATA2 then
               (if 2 > length pc then None
                else Some (unat (ucast (pc ! 0) OR push_bit 8 (ucast (pc ! 1)) :: u64), drop 2 pc))
             else None)
            (\<lambda>(nSize, pc).
               if expectedSize > 0 \<and> nSize \<noteq> expectedSize then None
               else if nSize > length pc then None
               else Some (take nSize pc, drop nSize pc)))"

definition readNumPush :: "bytes \<Rightarrow> (i64 \<times> bytes) option" where
  "readNumPush pc =
     (case pc of [] \<Rightarrow> None
      | opcode # pc \<Rightarrow>
          Option.bind
            (if opcode > 0 \<and> opcode < OP_PUSHDATA1 then Some (unat opcode, pc)
             else if opcode = OP_PUSHDATA1 then
               (case pc of [] \<Rightarrow> None | b # pc' \<Rightarrow> Some (unat b, pc'))
             else None)
            (\<lambda>(nSize, pc).
               if nSize > 5 \<or> nSize > length pc then None
               else map_option (\<lambda>num. (num, drop nSize pc)) (CScriptNum_of_vch (take nSize pc) 5)))"

definition DecodeHTLCScript :: "bytes \<Rightarrow> HTLCParameters option" where
  "DecodeHTLCScript script =
     (if length script < 80 then None
      else
        Option.bind (readOp OP_IF script) (\<lambda>pc.
        Option.bind (readOp OP_SHA3_256 pc) (\<lambda>pc.
        Option.bind (readPush 32 pc) (\<lambda>(hl, pc).
        Option.bind (readOp OP_EQUALVERIFY pc) (\<lambda>pc.
        Option.bind (readOp OP_DUP pc) (\<lambda>pc.
        Option.bind (readOp OP_HASH160 pc) (\<lambda>pc.
        Option.bind (readPush 20 pc) (\<lambda>(claim, pc).
        Option.bind (readOp OP_EQUALVERIFY pc) (\<lambda>pc.
        Option.bind (readOp OP_CHECKSIG pc) (\<lambda>pc.
        Option.bind (readOp OP_ELSE pc) (\<lambda>pc.
        Option.bind (readNumPush pc) (\<lambda>(timeout, pc).
          if sint timeout < 0 then None
          else
            Option.bind (readOp OP_CHECKLOCKTIMEVERIFY pc) (\<lambda>pc.
            Option.bind (readOp OP_DROP pc) (\<lambda>pc.
            Option.bind (readOp OP_DUP pc) (\<lambda>pc.
            Option.bind (readOp OP_HASH160 pc) (\<lambda>pc.
            Option.bind (readPush 20 pc) (\<lambda>(refund, pc).
            Option.bind (readOp OP_EQUALVERIFY pc) (\<lambda>pc.
            Option.bind (readOp OP_CHECKSIG pc) (\<lambda>pc.
            Option.bind (readOp OP_ENDIF pc) (\<lambda>pc.
              if pc \<noteq> [] then None
              else Some \<lparr>hash_lock = hl, claim_pubkey_hash = claim, refund_pubkey_hash = refund,
                         timeout_height = ucast timeout\<rparr>))))))))))))))))))))"

section \<open>Decoding what was built\<close>

lemma readOp_same [simp]: "readOp opc (opc # pc) = Some pc"
  by (simp add: readOp_def)

lemma readPush_PushData:
  assumes "0 < length d" "length d < 0x4c"
  shows "readPush (length d) (PushData d @ pc) = Some (d, pc)"
proof -
  have "0 < (of_nat (length d) :: byte)" "(of_nat (length d) :: byte) < 0x4c"
    using assms by (simp_all add: word_less_nat_alt)
  then show ?thesis using assms by (simp add: readPush_def PushData_def opcode_defs)
qed

lemma timeout_word:
  "sint (ucast (t :: u32) :: i64) = uint t" "ucast (ucast t :: i64) = t"
proof -
  have "(uint t :: int) < 2 ^ 63" using uint_lt2p [of t] by simp
  moreover have "uint (ucast t :: i64) = uint t" by (simp add: uint_up_ucast is_up)
  ultimately have "sint (ucast t :: i64) = uint (ucast t :: i64)"
    using order_trans [OF _ uint_ge_0, of "- (2 ^ 63)" t] by (simp add: sint_uint signed_take_bit_int_eq_self)
  then show "sint (ucast (t :: u32) :: i64) = uint t" using \<open>uint (ucast t :: i64) = uint t\<close> by simp
  show "ucast (ucast t :: i64) = t" by (simp add: ucast_up_ucast_id is_up)
qed

lemma timeout_push:
  "length (CScriptNum_serialize (ucast (t :: u32))) \<le> 5"
  "CScriptNum_of_vch (CScriptNum_serialize (ucast (t :: u32))) 5 = Some (ucast t)"
  "t \<noteq> 0 \<Longrightarrow> CScriptNum_serialize (ucast t) \<noteq> []"
proof -
  have u: "0 \<le> uint t" "uint t < 2 ^ 32" using uint_lt2p [of t] by simp_all
  have "- (2 ^ 39) < sint (ucast t :: i64)" unfolding timeout_word(1) by (rule less_le_trans [OF _ u(1)]) simp
  moreover have "sint (ucast t :: i64) < 2 ^ 39" unfolding timeout_word(1) by (rule less_trans [OF u(2)]) simp
  ultimately have r: "length (CScriptNum_serialize (ucast t :: i64)) \<le> 5 \<and>
      CScriptNum_set_vch (CScriptNum_serialize (ucast t)) = (ucast t :: i64)"
    by (rule scriptnum_roundtrip_word)
  then show "length (CScriptNum_serialize (ucast t)) \<le> 5" by simp
  from r show "CScriptNum_of_vch (CScriptNum_serialize (ucast t)) 5 = Some (ucast t)"
    by (simp add: CScriptNum_of_vch_def)
  show "CScriptNum_serialize (ucast t) \<noteq> []" if "t \<noteq> 0"
  proof
    assume "CScriptNum_serialize (ucast t :: i64) = []"
    then have "(ucast t :: i64) = 0" using r by (simp add: CScriptNum_set_vch_def)
    then have "t = 0" using timeout_word(2) [of t] by simp
    with that show False by simp
  qed
qed

lemma readNumPush_PushData:
  assumes "t \<noteq> 0"
  shows "readNumPush (PushData (CScriptNum_serialize (ucast (t :: u32))) @ pc) = Some (ucast t, pc)"
proof -
  let ?d = "CScriptNum_serialize (ucast t :: i64)"
  have l: "0 < length ?d" "length ?d \<le> 5" using timeout_push assms by auto
  then have "0 < (of_nat (length ?d) :: byte)" "(of_nat (length ?d) :: byte) < 0x4c"
    by (simp_all add: word_less_nat_alt)
  then show ?thesis using l timeout_push(2) [of t] by (simp add: readNumPush_def PushData_def opcode_defs)
qed

lemma readNumPush_zero: "readNumPush (PushData (CScriptNum_serialize 0) @ pc) = None"
  by (simp add: readNumPush_def PushData_def CScriptNum_serialize_def opcode_defs)

lemma DecodeHTLC_Create:
  assumes "CreateHTLCScript p = Inr script"
  shows "DecodeHTLCScript script = (if timeout_height p = 0 then None else Some p)"
proof -
  have l: "length (hash_lock p) = 32" "length (claim_pubkey_hash p) = 20" "length (refund_pubkey_hash p) = 20"
    using assms by (auto simp: CreateHTLCScript_def split: if_splits)
  have r: "readPush 32 (PushData (hash_lock p) @ pc) = Some (hash_lock p, pc)"
    "readPush 20 (PushData (claim_pubkey_hash p) @ pc) = Some (claim_pubkey_hash p, pc)"
    "readPush 20 (PushData (refund_pubkey_hash p) @ pc) = Some (refund_pubkey_hash p, pc)" for pc
    using readPush_PushData [of "hash_lock p" pc] readPush_PushData [of "claim_pubkey_hash p" pc]
      readPush_PushData [of "refund_pubkey_hash p" pc] l by auto
  have "80 \<le> length script" using assms l by (auto simp: CreateHTLCScript_def PushData_def)
  then show ?thesis
    using assms l
    by (auto simp: CreateHTLCScript_def DecodeHTLCScript_def r readNumPush_PushData readNumPush_zero timeout_word)
qed

section \<open>Running the contract\<close>

lemma EvalLoop_push_any:
  assumes "length d \<le> MAX_SCRIPT_ELEMENT_SIZE"
  shows "EvalLoop sha3 flags checker stk vf n (PushData d @ pc) =
    (if d = [] then EvalNext sha3 flags checker n pc (if vf = [] \<or> hd vf then [] # stk else stk, vf)
     else EvalLoop sha3 flags checker (if vf = [] \<or> hd vf then d # stk else stk) vf n pc)"
proof (cases "d = []")
  case True
  then have "PushData d @ pc = OP_0 # pc" by (simp add: PushData_def OP_0_def)
  then show ?thesis using True by (simp add: EvalLoop_empty)
next
  case False
  then show ?thesis using assms by (simp add: EvalLoop_PushData)
qed

definition htlc_claims :: "(bytes \<Rightarrow> uint256) \<Rightarrow> SignatureChecker \<Rightarrow> HTLCParameters \<Rightarrow> stack \<Rightarrow> bool" where
  "htlc_claims sha3 checker p stk \<longleftrightarrow>
     (\<exists>flag preimage pk sig rest. stk = flag # preimage # pk # sig # rest \<and> CastToBool flag \<and>
        length rest + 3 \<le> MAX_STACK_SIZE \<and>
        sha3 preimage = hash_lock p \<and> Hash160 sha3 pk = claim_pubkey_hash p \<and> CheckSig checker sig pk)"

definition htlc_refunds :: "(bytes \<Rightarrow> uint256) \<Rightarrow> SignatureChecker \<Rightarrow> HTLCParameters \<Rightarrow> stack \<Rightarrow> bool" where
  "htlc_refunds sha3 checker p stk \<longleftrightarrow>
     (\<exists>flag pk sig rest. stk = flag # pk # sig # rest \<and> \<not> CastToBool flag \<and> length rest + 3 \<le> MAX_STACK_SIZE \<and>
        CheckLockTime checker (ucast (timeout_height p)) \<and>
        Hash160 sha3 pk = refund_pubkey_hash p \<and> CheckSig checker sig pk)"

lemma EvalScript_htlc:
  assumes "CreateHTLCScript p = Inr script" "flags AND SCRIPT_VERIFY_CHECKLOCKTIMEVERIFY \<noteq> 0"
  shows "(\<exists>el r. EvalScript sha3 flags checker stk script = Inr (el # r) \<and> CastToBool el) \<longleftrightarrow>
    htlc_claims sha3 checker p stk \<or> htlc_refunds sha3 checker p stk"
proof -
  define t where "t = CScriptNum_serialize (ucast (timeout_height p) :: i64)"
  define x where "x = (ucast (timeout_height p) :: i64)"
  have l: "hash_lock p \<noteq> []" "claim_pubkey_hash p \<noteq> []" "refund_pubkey_hash p \<noteq> []"
    "length (hash_lock p) \<le> MAX_SCRIPT_ELEMENT_SIZE" "length (claim_pubkey_hash p) \<le> MAX_SCRIPT_ELEMENT_SIZE"
    "length (refund_pubkey_hash p) \<le> MAX_SCRIPT_ELEMENT_SIZE"
    using assms(1) by (auto simp: CreateHTLCScript_def script_limits split: if_splits)
  have t: "length t \<le> MAX_SCRIPT_ELEMENT_SIZE" "CScriptNum_of_vch t 5 = Some x" "\<not> sint x < 0"
    using timeout_push(1,2) [of "timeout_height p"] timeout_word(1) [of "timeout_height p"]
    by (simp_all add: t_def x_def script_limits)
  have s: "script = OP_IF # OP_SHA3_256 # PushData (hash_lock p) @ OP_EQUALVERIFY # OP_DUP # OP_HASH160 #
      PushData (claim_pubkey_hash p) @ OP_EQUALVERIFY # OP_CHECKSIG # OP_ELSE # PushData t @
      OP_CHECKLOCKTIMEVERIFY # OP_DROP # OP_DUP # OP_HASH160 #
      PushData (refund_pubkey_hash p) @ [OP_EQUALVERIFY, OP_CHECKSIG, OP_ENDIF]"
    using assms(1) by (auto simp: CreateHTLCScript_def t_def split: if_splits)
  have "length script \<le> MAX_SCRIPT_SIZE"
    using assms(1) timeout_push(1) [of "timeout_height p"]
    by (auto simp: CreateHTLCScript_def script_limits PushData_def split: if_splits)
  then have e: "EvalScript sha3 flags checker stk script = EvalLoop sha3 flags checker stk [] 0 script"
    by (simp add: EvalScript_def)
  have t0: "t = [] \<Longrightarrow> CScriptNum_of_vch [] 5 = Some x" using t(2) by simp
  note ev = EvalLoop_op eval_simps l t t0 EvalLoop_push_any assms(2) MAX_STACK_SIZE_def MAX_OPS_PER_SCRIPT_def
  show ?thesis
  proof (cases stk)
    case Nil
    then show ?thesis unfolding e unfolding s by (simp add: ev htlc_claims_def htlc_refunds_def)
  next
    case (Cons flag st)
    show ?thesis
    proof (cases "CastToBool flag")
      case True
      then show ?thesis unfolding e unfolding s Cons htlc_claims_def htlc_refunds_def
        by (cases st; cases "tl st"; cases "tl (tl st)") (auto simp: ev)
    next
      case False
      then show ?thesis unfolding e unfolding s Cons htlc_claims_def htlc_refunds_def x_def [symmetric]
        by (cases st; cases "tl st") (auto simp: ev)
    qed
  qed
qed

lemma VerifyScript_htlc:
  assumes "CreateHTLCScript p = Inr script" "flags AND SCRIPT_VERIFY_CHECKLOCKTIMEVERIFY \<noteq> 0"
  shows "VerifyScript sha3 flags checker ss script = Inr () \<longleftrightarrow>
    (\<exists>stk. EvalScript sha3 flags checker [] ss = Inr stk \<and>
       (htlc_claims sha3 checker p stk \<or> htlc_refunds sha3 checker p stk))"
proof -
  have c: "(case r of [] \<Rightarrow> Inl EmptyStack | el # _ \<Rightarrow> if \<not> CastToBool el then Inl EvaluatedToFalse else Inr ()) = Inr () \<longleftrightarrow>
      (\<exists>el s. r = el # s \<and> CastToBool el)" for r
    by (cases r) auto
  show ?thesis
    unfolding VerifyScript_def bindE_Inr_iff c EvalScript_htlc [OF assms, symmetric] by auto
qed

lemma EvalScript_claim:
  assumes "CreateHTLCClaimScript sig pk preimage = Inr ss"
  shows "EvalScript sha3 flags checker [] ss = Inr [[1], preimage, pk, sig]"
proof -
  have l: "length sig = 3309" "length pk = 1952" "length preimage = 32" and s: "ss = PushData sig @ PushData pk @ PushData preimage @ [OP_1]"
    using assms by (auto simp: CreateHTLCClaimScript_def script_limits split: if_splits)
  then have n: "sig \<noteq> []" "pk \<noteq> []" "preimage \<noteq> []" by auto
  have "EvalLoop sha3 flags checker [preimage, pk, sig] [] 0 [OP_1] = Inr [[1], preimage, pk, sig]"
    by (subst EvalLoop_small) (simp_all add: EvalOp_def opcode_defs CScriptNum_serialize_def serialize_loop.simps EvalNext_def script_limits)
  then have "EvalLoop sha3 flags checker [] [] 0 ss = Inr [[1], preimage, pk, sig]"
    unfolding s using l n by (simp add: EvalLoop_PushData script_limits)
  moreover have "length ss \<le> MAX_SCRIPT_SIZE" unfolding s using l by (simp add: PushData_def script_limits)
  ultimately show ?thesis by (simp add: EvalScript_def)
qed

lemma EvalScript_refund:
  assumes "CreateHTLCRefundScript sig pk = Inr ss"
  shows "EvalScript sha3 flags checker [] ss = Inr [[], pk, sig]"
proof -
  have l: "length sig = 3309" "length pk = 1952" and s: "ss = PushData sig @ PushData pk @ [OP_0]"
    using assms by (auto simp: CreateHTLCRefundScript_def script_limits split: if_splits)
  then have n: "sig \<noteq> []" "pk \<noteq> []" by auto
  have "EvalLoop sha3 flags checker [] [] 0 ss = Inr [[], pk, sig]"
    unfolding s using l n by (simp add: EvalLoop_PushData EvalLoop_empty EvalNext_def script_limits)
  moreover have "length ss \<le> MAX_SCRIPT_SIZE" unfolding s using l by (simp add: PushData_def script_limits)
  ultimately show ?thesis by (simp add: EvalScript_def)
qed

text \<open>The contract for the clients of a signature checker.\<close>

context signature_checker
begin

lemma htlc_authorized:
  assumes "CreateHTLCScript p = Inr script" "flags AND SCRIPT_VERIFY_CHECKLOCKTIMEVERIFY \<noteq> 0"
    "VerifyScript sha3 flags checker ss script = Inr ()"
  shows "\<exists>sig pk. authorizes sig pk \<and>
    ((Hash160 sha3 pk = claim_pubkey_hash p \<and> (\<exists>preimage. sha3 preimage = hash_lock p)) \<or>
     (Hash160 sha3 pk = refund_pubkey_hash p \<and> CheckLockTime checker (ucast (timeout_height p))))"
  using assms(3) sig_authorizes
  unfolding VerifyScript_htlc [OF assms(1,2)] htlc_claims_def htlc_refunds_def by blast

end

section \<open>Properties\<close>

definition ex_htlc :: HTLCParameters where
  "ex_htlc = \<lparr>hash_lock = replicate 32 7, claim_pubkey_hash = replicate 20 7, refund_pubkey_hash = replicate 20 9,
     timeout_height = 1000\<rparr>"

definition ex_htlc_script :: "HTLCParameters \<Rightarrow> bytes" where
  "ex_htlc_script p = (case CreateHTLCScript p of Inl _ \<Rightarrow> [] | Inr s \<Rightarrow> s)"

lemma ex_htlc_create: "CreateHTLCScript ex_htlc = Inr (ex_htlc_script ex_htlc)"
  by (simp add: ex_htlc_script_def CreateHTLCScript_def ex_htlc_def)

lemma ex_htlc_claim:
  "CreateHTLCClaimScript (replicate 3309 5) (replicate 1952 6) (replicate 32 1) =
     Inr (PushData (replicate 3309 5) @ PushData (replicate 1952 6) @ PushData (replicate 32 1) @ [OP_1])"
  "CreateHTLCRefundScript (replicate 3309 5) (replicate 1952 6) =
     Inr (PushData (replicate 3309 5) @ PushData (replicate 1952 6) @ [OP_0])"
  by (simp_all add: CreateHTLCClaimScript_def CreateHTLCRefundScript_def script_limits)

abbreviation ex_checker :: SignatureChecker where
  "ex_checker \<equiv> TransactionSignatureChecker (\<lambda>_. replicate 32 7) (\<lambda>_ _ _. 0) ex_tx 0 1"

lemma ex_checker: "CheckSig ex_checker (replicate 3309 5) (replicate 1952 6)"
  by (simp add: TransactionSignatureChecker_def TxCheckSig_def script_limits AllZerosOrOnes_def list_all_iff
      SigMessage_def SerializeUint32_def GetSigningHash_def)

lemma ex_htlc_flags: "(6 :: u32) AND SCRIPT_VERIFY_CHECKLOCKTIMEVERIFY \<noteq> 0"
  by (simp add: SCRIPT_VERIFY_CHECKLOCKTIMEVERIFY_def)

lemma ex_htlc_verify:
  "VerifyScript (\<lambda>_. replicate 32 7) 6 ex_checker
     (PushData (replicate 3309 5) @ PushData (replicate 1952 6) @ PushData (replicate 32 1) @ [OP_1])
     (ex_htlc_script ex_htlc) = Inr ()"
  unfolding VerifyScript_htlc [OF ex_htlc_create ex_htlc_flags] EvalScript_claim [OF ex_htlc_claim(1)]
  using ex_checker by (simp add: htlc_claims_def script_limits Hash160_def ex_htlc_def)

text \<open>
  C4: a hash time locked output can only be spent by one of its two parties. Whatever the unlocking script, an
  accepted spending carries a signature the external verification accepts for this input, by a key with the claim
  hash together with a preimage of the hash lock, or by a key with the refund hash in a transaction whose lock time
  has reached the timeout height in the same domain and whose input is not final.
\<close>

theorem htlc_secure:
  assumes "CreateHTLCScript p = Inr script" "flags AND SCRIPT_VERIFY_CHECKLOCKTIMEVERIFY \<noteq> 0"
    "VerifyScript sha3 flags (TransactionSignatureChecker sha3 verify tx nIn chainId) ss script = Inr ()"
  shows "\<exists>sig pk. verify sig (sha3 (SigMessage sha3 tx nIn chainId)) pk = 0 \<and>
    ((Hash160 sha3 pk = claim_pubkey_hash p \<and> (\<exists>preimage. sha3 preimage = hash_lock p)) \<or>
     (Hash160 sha3 pk = refund_pubkey_hash p \<and> timeout_height p \<le> nLockTime tx \<and>
      (timeout_height p < LOCKTIME_THRESHOLD) = (nLockTime tx < LOCKTIME_THRESHOLD) \<and>
      nSequence (vin tx ! unat nIn) \<noteq> SEQUENCE_FINAL))"
proof -
  have "CheckLockTime (TransactionSignatureChecker sha3 verify tx nIn chainId) (ucast (timeout_height p)) \<Longrightarrow>
      timeout_height p \<le> nLockTime tx \<and> (timeout_height p < LOCKTIME_THRESHOLD) = (nLockTime tx < LOCKTIME_THRESHOLD) \<and>
      nSequence (vin tx ! unat nIn) \<noteq> SEQUENCE_FINAL"
    by (auto simp: TransactionSignatureChecker_def TxCheckLockTime_def timeout_word word_le_def word_less_def split: if_splits)
  then show ?thesis using txc.htlc_authorized [OF assms] by blast
qed

theorem htlc_secure_witness:
  "\<exists>pk preimage. Hash160 (\<lambda>_. replicate 32 7) pk = claim_pubkey_hash ex_htlc \<and> (\<lambda>_. replicate 32 7) preimage = hash_lock ex_htlc"
  using htlc_secure [OF ex_htlc_create ex_htlc_flags ex_htlc_verify] by (auto simp: Hash160_def ex_htlc_def)

text \<open>
  The two unlocking scripts do what they are for: the claim script is accepted exactly with a preimage of the hash
  lock, the claim key and a checking signature, and the refund script exactly with the refund key, a checking
  signature and a satisfied lock time.
\<close>

theorem htlc_paths:
  assumes "CreateHTLCScript p = Inr script" "flags AND SCRIPT_VERIFY_CHECKLOCKTIMEVERIFY \<noteq> 0"
    "CreateHTLCClaimScript sig pk preimage = Inr cs" "CreateHTLCRefundScript sig pk = Inr rs"
  shows "(VerifyScript sha3 flags checker cs script = Inr () \<longleftrightarrow>
      sha3 preimage = hash_lock p \<and> Hash160 sha3 pk = claim_pubkey_hash p \<and> CheckSig checker sig pk) \<and>
    (VerifyScript sha3 flags checker rs script = Inr () \<longleftrightarrow>
      CheckLockTime checker (ucast (timeout_height p)) \<and> Hash160 sha3 pk = refund_pubkey_hash p \<and> CheckSig checker sig pk)"
  unfolding VerifyScript_htlc [OF assms(1,2)] EvalScript_claim [OF assms(3)] EvalScript_refund [OF assms(4)]
  by (simp add: htlc_claims_def htlc_refunds_def script_limits)

theorem htlc_paths_witness:
  "VerifyScript (\<lambda>_. replicate 32 7) 6 ex_checker
     (PushData (replicate 3309 5) @ PushData (replicate 1952 6) @ PushData (replicate 32 1) @ [OP_1])
     (ex_htlc_script ex_htlc) = Inr () \<and>
   VerifyScript (\<lambda>_. replicate 32 7) 6 ex_checker
     (PushData (replicate 3309 5) @ PushData (replicate 1952 6) @ [OP_0]) (ex_htlc_script ex_htlc) \<noteq> Inr ()"
  using htlc_paths [OF ex_htlc_create ex_htlc_flags ex_htlc_claim, of "\<lambda>_. replicate 32 7" ex_checker] ex_checker
  by (simp add: Hash160_def ex_htlc_def)

text \<open>
  C31: decoding a locking script that was built with a non-zero timeout gives the parameters back. A timeout of 0 is
  encoded as \<open>OP_0\<close>, which the decoder does not accept.
\<close>

theorem htlc_decode:
  assumes "CreateHTLCScript p = Inr script"
  shows "DecodeHTLCScript script = (if timeout_height p = 0 then None else Some p)"
  using assms by (rule DecodeHTLC_Create)

theorem htlc_decode_witness: "DecodeHTLCScript (ex_htlc_script ex_htlc) = Some ex_htlc"
  using htlc_decode [OF ex_htlc_create] by (simp add: ex_htlc_def)

end
