(* ===== verification/Block.thy ===== *)
theory Block
  imports Transaction
begin

text \<open>
  \<open>src/src/primitives/block.h\<close> and \<open>block.cpp\<close>: the hexadecimal form of \<open>uint256\<close>, block headers
  with their hash cache, and blocks. RandomX and SHA3-256 are the parameters \<open>randomx\<close> and
  \<open>sha3\<close>.
\<close>

section \<open>Headers and blocks\<close>

record CBlockHeader =
  hdr_nVersion :: i32
  hashPrevBlock :: uint256
  hashMerkleRoot :: uint256
  hdr_nTime :: u32
  hdr_nBits :: u32
  hdr_nNonce :: u32
  vdfOutput :: uint256
  vdfProofHash :: uint256
  cachedHash :: uint256
  fHashCached :: bool

record CBlock = CBlockHeader +
  vtx :: bytes

definition VDF_VERSION :: int where
  "VDF_VERSION = 4"

definition CBlockHeader_SetNull :: CBlockHeader where
  "CBlockHeader_SetNull = \<lparr>hdr_nVersion = 0, hashPrevBlock = zero256, hashMerkleRoot = zero256,
     hdr_nTime = 0, hdr_nBits = 0, hdr_nNonce = 0, vdfOutput = zero256, vdfProofHash = zero256,
     cachedHash = zero256, fHashCached = False\<rparr>"

definition CBlockHeader_IsNull :: "'a CBlockHeader_scheme \<Rightarrow> bool" where
  "CBlockHeader_IsNull h \<longleftrightarrow> hdr_nBits h = 0"

definition IsVDFBlock :: "'a CBlockHeader_scheme \<Rightarrow> bool" where
  "IsVDFBlock h \<longleftrightarrow> sint (hdr_nVersion h) \<ge> VDF_VERSION"

definition GetHeaderSize :: "'a CBlockHeader_scheme \<Rightarrow> nat" where
  "GetHeaderSize h = (if IsVDFBlock h then 144 else 80)"

text \<open>The bytes of a 32-bit field are its little-endian memory image.\<close>

definition SerializeHeader :: "'a CBlockHeader_scheme \<Rightarrow> bytes" where
  "SerializeHeader h =
     (let buf = le_bytes 4 (unat (hdr_nVersion h));
          buf = buf @ hashPrevBlock h;
          buf = buf @ hashMerkleRoot h;
          buf = buf @ le_bytes 4 (unat (hdr_nTime h));
          buf = buf @ le_bytes 4 (unat (hdr_nBits h));
          buf = buf @ le_bytes 4 (unat (hdr_nNonce h))
      in if IsVDFBlock h then (buf @ vdfOutput h) @ vdfProofHash h else buf)"

definition Header_GetHash ::
    "(bytes \<Rightarrow> uint256) \<Rightarrow> (bytes \<Rightarrow> uint256) \<Rightarrow> 'a CBlockHeader_scheme \<Rightarrow> uint256 \<times> 'a CBlockHeader_scheme" where
  "Header_GetHash sha3 randomx h =
     (if fHashCached h then (cachedHash h, h)
      else
        (let data = SerializeHeader h;
             result = (if IsVDFBlock h then sha3 data else randomx data)
         in (result, h\<lparr>cachedHash := result, fHashCached := True\<rparr>)))"

definition GetFastHash :: "(bytes \<Rightarrow> uint256) \<Rightarrow> 'a CBlockHeader_scheme \<Rightarrow> uint256" where
  "GetFastHash sha3 h = sha3 (SerializeHeader h)"

definition InvalidateCache :: "'a CBlockHeader_scheme \<Rightarrow> 'a CBlockHeader_scheme" where
  "InvalidateCache h = h\<lparr>fHashCached := False\<rparr>"

definition CBlock_SetNull :: CBlock where
  "CBlock_SetNull = CBlockHeader.extend CBlockHeader_SetNull (CBlock.fields [])"

definition CBlock_of_header :: "CBlockHeader \<Rightarrow> CBlock" where
  "CBlock_of_header h = CBlockHeader.extend h (CBlock.fields [])"

section \<open>Hexadecimal form\<close>

definition hex_digit :: "nat \<Rightarrow> char" where
  "hex_digit n = ''0123456789abcdef'' ! n"

definition hex_byte :: "byte \<Rightarrow> string" where
  "hex_byte b = [hex_digit (unat b div 16), hex_digit (unat b mod 16)]"

definition GetHex :: "uint256 \<Rightarrow> string" where
  "GetHex h = concat (map hex_byte (rev h))"

text \<open>
  \<open>std::stoi\<close> in base 16 on the at most two characters that \<open>SetHex\<close> passes: white space, an
  optional sign, then the longest run of digits; \<open>None\<close> is the exception for no digit. A prefix
  \<open>0x\<close> needs a third character to matter.
\<close>

definition hex_val :: "char \<Rightarrow> nat option" where
  "hex_val c =
     (let n = of_char c :: nat
      in if 48 \<le> n \<and> n \<le> 57 then Some (n - 48)
         else if 97 \<le> n \<and> n \<le> 102 then Some (n - 87)
         else if 65 \<le> n \<and> n \<le> 70 then Some (n - 55)
         else None)"

definition is_space :: "char \<Rightarrow> bool" where
  "is_space c \<longleftrightarrow> (let n = of_char c :: nat in n = 32 \<or> (9 \<le> n \<and> n \<le> 13))"

fun stoi_digits :: "int \<Rightarrow> string \<Rightarrow> int" where
  "stoi_digits acc [] = acc"
| "stoi_digits acc (c # s) =
     (case hex_val c of None \<Rightarrow> acc | Some d \<Rightarrow> stoi_digits (16 * acc + int d) s)"

definition stoi16 :: "string \<Rightarrow> int option" where
  "stoi16 s =
     (let s1 = dropWhile is_space s;
          neg = (s1 \<noteq> [] \<and> hd s1 = CHR ''-'');
          s2 = (if s1 \<noteq> [] \<and> (hd s1 = CHR ''-'' \<or> hd s1 = CHR ''+'') then tl s1 else s1)
      in if s2 = [] \<or> hex_val (hd s2) = None then None
         else Some (if neg then - stoi_digits 0 s2 else stoi_digits 0 s2))"

fun SetHex_loop :: "string \<Rightarrow> nat \<Rightarrow> nat list \<Rightarrow> uint256 \<Rightarrow> uint256 option" where
  "SetHex_loop str len [] data = Some data"
| "SetHex_loop str len (i # is) data =
     (let strPos = len - 2 - i * 2;
          byteStr = take 2 (drop strPos str)
      in case stoi16 byteStr of None \<Rightarrow> None
         | Some v \<Rightarrow> SetHex_loop str len is (data[i := word_of_int v]))"

definition SetHex :: "string \<Rightarrow> uint256 option" where
  "SetHex str =
     (if str = [] then Some zero256
      else
        (let len = (if length str > 64 then 64 else length str)
         in case SetHex_loop str len [0..<len div 2] zero256 of
              None \<Rightarrow> None
            | Some data \<Rightarrow>
                if len mod 2 = 1 then
                  (case stoi16 (CHR ''0'' # take 1 str) of None \<Rightarrow> None
                   | Some v \<Rightarrow> Some (data[len div 2 := word_of_int v]))
                else Some data))"

definition wf_header :: "'a CBlockHeader_scheme \<Rightarrow> bool" where
  "wf_header h \<longleftrightarrow> wf256 (hashPrevBlock h) \<and> wf256 (hashMerkleRoot h) \<and> wf256 (vdfOutput h) \<and>
     wf256 (vdfProofHash h)"

definition header_hash_inv :: "(bytes \<Rightarrow> uint256) \<Rightarrow> (bytes \<Rightarrow> uint256) \<Rightarrow> 'a CBlockHeader_scheme \<Rightarrow> bool" where
  "header_hash_inv sha3 randomx h \<longleftrightarrow>
     (fHashCached h \<longrightarrow>
        cachedHash h = (if IsVDFBlock h then sha3 (SerializeHeader h) else randomx (SerializeHeader h)))"

section \<open>Lemmas\<close>

lemma length_SerializeHeader: "wf_header h \<Longrightarrow> length (SerializeHeader h) = GetHeaderSize h"
  by (simp add: SerializeHeader_def GetHeaderSize_def Let_def wf_header_def wf256_def)

lemma le_bytes_unat_inject: "le_bytes 4 (unat (x :: u32)) = le_bytes 4 (unat y) \<longleftrightarrow> x = y"
proof
  assume e: "le_bytes 4 (unat x) = le_bytes 4 (unat y)"
  have "le_val (le_bytes 4 (unat x)) = le_val (le_bytes 4 (unat y))" unfolding e ..
  then show "x = y"
    using u32_range [of x] u32_range [of y] by (simp add: le_val_le_bytes word_unat_eq_iff)
qed simp

text \<open>The bytes of a header determine its fields; the VDF fields only from version 4 on.\<close>

lemma SerializeHeader_inject:
  assumes "wf_header a" "wf_header b" "SerializeHeader a = SerializeHeader b"
  shows "hdr_nVersion a = hdr_nVersion b \<and> hashPrevBlock a = hashPrevBlock b \<and>
     hashMerkleRoot a = hashMerkleRoot b \<and> hdr_nTime a = hdr_nTime b \<and> hdr_nBits a = hdr_nBits b \<and>
     hdr_nNonce a = hdr_nNonce b \<and>
     (IsVDFBlock a \<longrightarrow> vdfOutput a = vdfOutput b \<and> vdfProofHash a = vdfProofHash b)"
proof -
  have v: "hdr_nVersion a = hdr_nVersion b"
  proof -
    have "take 4 (SerializeHeader a) = take 4 (SerializeHeader b)" using assms(3) by simp
    then show ?thesis by (simp add: SerializeHeader_def Let_def le_bytes_unat_inject split: if_splits)
  qed
  then have "IsVDFBlock a = IsVDFBlock b" by (simp add: IsVDFBlock_def)
  then show ?thesis
    using assms v
    by (auto simp: SerializeHeader_def Let_def wf_header_def wf256_def le_bytes_unat_inject split: if_splits)
qed

lemma nibble_cases: "n < 16 \<Longrightarrow> n \<in> set [0, 1, 2, 3, 4, 5, 6, 7, 8, 9, 10, 11, 12, 13, 14, 15 :: nat]"
  by simp presburger

lemma hex_digit_value: "n < 16 \<Longrightarrow> hex_val (hex_digit n) = Some n"
proof -
  assume "n < 16"
  then show ?thesis using nibble_cases [of n] by (auto simp: hex_digit_def hex_val_def)
qed

lemma hex_digit_plain: "n < 16 \<Longrightarrow> \<not> is_space (hex_digit n) \<and> hex_digit n \<noteq> CHR ''-'' \<and> hex_digit n \<noteq> CHR ''+''"
proof -
  assume "n < 16"
  then show ?thesis using nibble_cases [of n] by (auto simp: hex_digit_def is_space_def)
qed

lemma stoi16_hex_byte: "stoi16 (hex_byte b) = Some (int (unat b))"
proof -
  have "unat b div 16 < 16" "unat b mod 16 < 16" using unat_byte_lt [of b] by auto
  moreover have "16 * int (unat b div 16) + int (unat b mod 16) = int (unat b)"
    using arg_cong [OF mult_div_mod_eq [of 16 "unat b"], of int] by (simp only: of_nat_add of_nat_mult of_nat_numeral)
  ultimately show ?thesis
    using hex_digit_plain [of "unat b div 16"]
    by (simp add: stoi16_def hex_byte_def hex_digit_value)
qed

lemma GetHex_nth:
  "i < length h \<Longrightarrow> take 2 (drop (2 * length h - 2 - i * 2) (GetHex h)) = hex_byte (h ! i)"
proof -
  assume i: "i < length h"
  have "take 2 (drop (2 * k) (concat (map hex_byte xs))) = hex_byte (xs ! k)" if "k < length xs" for k and xs :: bytes
    using that
  proof (induction xs arbitrary: k)
    case (Cons x xs)
    then show ?case by (cases k) (simp_all add: hex_byte_def)
  qed simp
  from this [of "length h - 1 - i" "rev h"] i
  have "take 2 (drop (2 * (length h - 1 - i)) (GetHex h)) = hex_byte (h ! i)"
    by (simp add: GetHex_def rev_nth)
  moreover have "2 * (length h - 1 - i) = 2 * length h - 2 - i * 2" using i by simp
  ultimately show ?thesis by simp
qed

lemma length_GetHex: "length (GetHex h) = 2 * length h"
  by (simp add: GetHex_def length_concat hex_byte_def comp_def sum_list_triv)

lemma SetHex_loop_GetHex:
  assumes "wf256 h"
  shows "set is \<subseteq> {..<32} \<Longrightarrow> length data = 32 \<Longrightarrow>
    \<exists>d. SetHex_loop (GetHex h) 64 is data = Some d \<and> length d = 32 \<and>
      (\<forall>j<32. d ! j = (if j \<in> set is then h ! j else data ! j))"
proof (induction "is" arbitrary: data)
  case Nil
  then show ?case by simp
next
  case (Cons i "is")
  have "take 2 (drop (64 - 2 - i * 2) (GetHex h)) = hex_byte (h ! i)"
    using GetHex_nth [of i h] Cons.prems assms by (simp add: wf256_def)
  then have "SetHex_loop (GetHex h) 64 (i # is) data = SetHex_loop (GetHex h) 64 is (data[i := h ! i])"
    by (simp add: stoi16_hex_byte)
  then show ?case using Cons.IH [of "data[i := h ! i]"] Cons.prems
    by (fastforce simp: nth_list_update)
qed

lemma SetHex_GetHex:
  assumes "wf256 h"
  shows "SetHex (GetHex h) = Some h"
proof -
  have l: "length (GetHex h) = 64" using assms by (simp add: length_GetHex wf256_def)
  obtain d where d: "SetHex_loop (GetHex h) 64 [0..<32] zero256 = Some d" "length d = 32" "\<forall>j<32. d ! j = h ! j"
    using SetHex_loop_GetHex [OF assms, of "[0..<32]" zero256] by (auto simp: lessThan_atLeast0)
  then have "d = h" using assms by (intro nth_equalityI) (simp_all add: wf256_def)
  then show ?thesis using d(1) l by (auto simp: SetHex_def Let_def)
qed

section \<open>Properties\<close>

definition ex_header :: CBlockHeader where
  "ex_header = CBlockHeader_SetNull\<lparr>hdr_nVersion := 4, hdr_nTime := 77, hdr_nBits := 0x1d00ffff\<rparr>"

lemma wf_ex_header: "wf_header ex_header" "wf_header (ex_header\<lparr>hdr_nNonce := 1\<rparr>)"
  by (simp_all add: wf_header_def ex_header_def CBlockHeader_SetNull_def)

text \<open>
  C27: a header serializes to the announced 80 or 144 bytes, and the bytes determine every field that
  is in them: two headers with the same serialization agree on version, parent, merkle root, time, bits
  and nonce, and from version 4 on also on the VDF output and proof hash. Two headers hash the same
  message only if they are the same header.
\<close>

theorem header_bytes_determine:
  assumes "wf_header a" "wf_header b"
  shows "length (SerializeHeader a) = GetHeaderSize a \<and>
     (SerializeHeader a = SerializeHeader b \<longrightarrow>
        hdr_nVersion a = hdr_nVersion b \<and> hashPrevBlock a = hashPrevBlock b \<and>
        hashMerkleRoot a = hashMerkleRoot b \<and> hdr_nTime a = hdr_nTime b \<and> hdr_nBits a = hdr_nBits b \<and>
        hdr_nNonce a = hdr_nNonce b \<and>
        (IsVDFBlock a \<longrightarrow> vdfOutput a = vdfOutput b \<and> vdfProofHash a = vdfProofHash b))"
  using length_SerializeHeader [OF assms(1)] SerializeHeader_inject [OF assms] by blast

theorem header_bytes_determine_witness:
  "length (SerializeHeader ex_header) = 144 \<and>
   SerializeHeader ex_header \<noteq> SerializeHeader (ex_header\<lparr>hdr_nNonce := 1\<rparr>)"
  using header_bytes_determine [OF wf_ex_header]
  by (auto simp: GetHeaderSize_def IsVDFBlock_def VDF_VERSION_def ex_header_def CBlockHeader_SetNull_def)

text \<open>
  The header hash. When the cache is empty or right, \<open>GetHash\<close> returns SHA3-256 of the header
  for VDF blocks and RandomX of it otherwise, fills the cache and changes no serialized field; an
  invalidated cache is always recomputed.
\<close>

theorem header_hash_cache:
  "(header_hash_inv sha3 randomx h \<longrightarrow>
      fst (Header_GetHash sha3 randomx h) =
        (if IsVDFBlock h then sha3 (SerializeHeader h) else randomx (SerializeHeader h)) \<and>
      header_hash_inv sha3 randomx (snd (Header_GetHash sha3 randomx h)) \<and>
      SerializeHeader (snd (Header_GetHash sha3 randomx h)) = SerializeHeader h) \<and>
   header_hash_inv sha3 randomx (InvalidateCache h) \<and> header_hash_inv sha3 randomx CBlockHeader_SetNull"
  by (auto simp: header_hash_inv_def Header_GetHash_def Let_def InvalidateCache_def IsVDFBlock_def
      SerializeHeader_def CBlockHeader_SetNull_def)

theorem header_hash_cache_witness:
  "header_hash_inv (\<lambda>d. take 32 d) (\<lambda>d. []) ex_header \<and>
   fst (Header_GetHash (\<lambda>d. take 32 d) (\<lambda>d. []) ex_header) = take 32 (SerializeHeader ex_header)"
  using header_hash_cache [of "\<lambda>d. take 32 d" "\<lambda>d. []" ex_header]
  by (simp add: header_hash_inv_def ex_header_def CBlockHeader_SetNull_def IsVDFBlock_def VDF_VERSION_def)

text \<open>Reading the hexadecimal form that \<open>GetHex\<close> prints gives the same 256-bit value back.\<close>

theorem hex_roundtrip:
  assumes "wf256 h"
  shows "SetHex (GetHex h) = Some h \<and> length (GetHex h) = 64"
  using SetHex_GetHex [OF assms] length_GetHex [of h] assms by (simp add: wf256_def)

theorem hex_roundtrip_witness: "SetHex (GetHex (0xab # replicate 31 7)) = Some (0xab # replicate 31 7)"
  using hex_roundtrip [of "0xab # replicate 31 7"] by (simp add: wf256_def)

end
