(* ===== verification/Arith256.thy ===== *)
theory Arith256
  imports Prelude
begin

text \<open>
  The 256-bit arithmetic of \<open>src/src/consensus/pow.cpp\<close> and \<open>consensus/chain_work.h\<close>: the
  big-endian comparisons, the compact encoding of targets, the byte-wise multiplication,
  division and shifts of the difficulty code, and the addition of chain work. Every routine works
  on the 32 little-endian bytes; the lemmas read them as the number \<open>le_val\<close>.
\<close>

section \<open>Comparisons\<close>

text \<open>Each loop runs from byte 31 down; its counter is the number of bytes still to compare.\<close>

fun HashLessThan_loop :: "nat \<Rightarrow> uint256 \<Rightarrow> uint256 \<Rightarrow> bool" where
  "HashLessThan_loop 0 hash target = False"
| "HashLessThan_loop (Suc i) hash target =
     (if hash ! i < target ! i then True
      else if hash ! i > target ! i then False
      else HashLessThan_loop i hash target)"

definition HashLessThan :: "uint256 \<Rightarrow> uint256 \<Rightarrow> bool" where
  "HashLessThan hash target = HashLessThan_loop 32 hash target"

fun ChainWorkGreaterThan_loop :: "nat \<Rightarrow> uint256 \<Rightarrow> uint256 \<Rightarrow> bool" where
  "ChainWorkGreaterThan_loop 0 work1 work2 = False"
| "ChainWorkGreaterThan_loop (Suc i) work1 work2 =
     (if work1 ! i > work2 ! i then True
      else if work1 ! i < work2 ! i then False
      else ChainWorkGreaterThan_loop i work1 work2)"

definition ChainWorkGreaterThan :: "uint256 \<Rightarrow> uint256 \<Rightarrow> bool" where
  "ChainWorkGreaterThan work1 work2 = ChainWorkGreaterThan_loop 32 work1 work2"

fun ChainWorkGreaterOrEqual_loop :: "nat \<Rightarrow> uint256 \<Rightarrow> uint256 \<Rightarrow> bool" where
  "ChainWorkGreaterOrEqual_loop 0 a b = True"
| "ChainWorkGreaterOrEqual_loop (Suc i) a b =
     (if a ! i > b ! i then True
      else if a ! i < b ! i then False
      else ChainWorkGreaterOrEqual_loop i a b)"

definition ChainWorkGreaterOrEqual :: "uint256 \<Rightarrow> uint256 \<Rightarrow> bool" where
  "ChainWorkGreaterOrEqual a b = ChainWorkGreaterOrEqual_loop 32 a b"

section \<open>The compact encoding\<close>

definition CompactToBig :: "u32 \<Rightarrow> uint256" where
  "CompactToBig nCompact =
     (let nSize = unat (drop_bit 24 nCompact);
          nWord = nCompact AND 0x007fffff
      in if nWord = 0 then zero256
         else if nSize = 0 then zero256
         else if nSize > 32 then zero256
         else if nSize \<le> 3 then
           (let nWord = drop_bit (8 * (3 - nSize)) nWord
            in zero256[0 := ucast (nWord AND 0xff), 1 := ucast (drop_bit 8 nWord AND 0xff),
                       2 := ucast (drop_bit 16 nWord AND 0xff)])
         else zero256[nSize - 3 := ucast (nWord AND 0xff),
                      nSize - 2 := ucast (drop_bit 8 nWord AND 0xff),
                      nSize - 1 := ucast (drop_bit 16 nWord AND 0xff)])"

text \<open>The loop that looks for the most significant non-zero byte.\<close>

fun BigSize :: "nat \<Rightarrow> uint256 \<Rightarrow> nat" where
  "BigSize 0 target = 0"
| "BigSize (Suc nSize) target = (if target ! nSize = 0 then BigSize nSize target else Suc nSize)"

definition BigToCompact :: "uint256 \<Rightarrow> u32" where
  "BigToCompact target =
     (let nSize = BigSize 32 target
      in if nSize = 0 then 0
         else
           (let nCompact =
              (if nSize \<le> 3 then
                 push_bit (8 * (3 - nSize))
                   (ucast (target ! 0) OR push_bit 8 (ucast (target ! 1)) OR
                    push_bit 16 (ucast (target ! 2)))
               else ucast (target ! (nSize - 3)) OR push_bit 8 (ucast (target ! (nSize - 2))) OR
                    push_bit 16 (ucast (target ! (nSize - 1))))
            in nCompact OR push_bit 24 (of_nat nSize)))"

definition FixCompactEncoding :: "u32 \<Rightarrow> u32" where
  "FixCompactEncoding nCompact =
     (let nSize = drop_bit 24 nCompact;
          nMantissa = nCompact AND 0x00ffffff
      in if nMantissa AND 0x00800000 \<noteq> 0
         then push_bit 24 (nSize + 1) OR drop_bit 8 nMantissa
         else push_bit 24 nSize OR nMantissa)"

definition IsTargetZero :: "uint256 \<Rightarrow> bool" where
  "IsTargetZero val \<longleftrightarrow> list_all (\<lambda>b. b = 0) val"

definition CheckProofOfWork :: "uint256 \<Rightarrow> u32 \<Rightarrow> bool" where
  "CheckProofOfWork hash nBits =
     (let target = CompactToBig nBits
      in if IsTargetZero target then False else HashLessThan hash target)"

section \<open>Multiplication and division\<close>

text \<open>
  \<open>Multiply256x64\<close>: the loop over the 32 bytes with its two overflow tests, then the loop that
  writes the remaining carry into bytes 32 to 39 of the zeroed result.
\<close>

fun Multiply_loop :: "u64 \<Rightarrow> u64 \<Rightarrow> bytes \<Rightarrow> (bytes \<times> u64) option" where
  "Multiply_loop b carry [] = Some ([], carry)"
| "Multiply_loop b carry (x # a) =
     (let byte_val = ucast x
      in if byte_val \<noteq> 0 \<and> b > (-1) div byte_val then None
         else
           (let mul_result = byte_val * b
            in if carry > (-1) - mul_result then None
               else
                 (let product = mul_result + carry
                  in case Multiply_loop b (drop_bit 8 product) a of
                       None \<Rightarrow> None
                     | Some (result, carry') \<Rightarrow> Some (ucast (product AND 0xFF) # result, carry'))))"

fun Multiply_carry :: "nat \<Rightarrow> u64 \<Rightarrow> bytes \<times> u64" where
  "Multiply_carry 0 carry = ([], carry)"
| "Multiply_carry (Suc n) carry =
     (if carry > 0 then
        (let (rest, carry') = Multiply_carry n (drop_bit 8 carry)
         in (ucast (carry AND 0xFF) # rest, carry'))
      else (replicate (Suc n) 0, carry))"

definition Multiply256x64 :: "uint256 \<Rightarrow> u64 \<Rightarrow> bytes option" where
  "Multiply256x64 a b =
     (case Multiply_loop b 0 a of
        None \<Rightarrow> None
      | Some (low, carry) \<Rightarrow>
          (let (high, carry') = Multiply_carry 8 carry
           in if carry' > 0 then None else Some (low @ high)))"

fun Divide_loop :: "u64 \<Rightarrow> u64 \<Rightarrow> nat \<Rightarrow> bytes \<Rightarrow> uint256 \<Rightarrow> uint256" where
  "Divide_loop divisor remainder 0 dividend quot = quot"
| "Divide_loop divisor remainder (Suc i) dividend quot =
     (let remainder = push_bit 8 remainder OR ucast (dividend ! i);
          q = remainder div divisor;
          remainder = remainder mod divisor;
          quot = (if i < 32 then quot[i := ucast (q AND 0xFF)] else quot)
      in Divide_loop divisor remainder i dividend quot)"

definition Divide320x64 :: "bytes \<Rightarrow> u64 \<Rightarrow> uint256" where
  "Divide320x64 dividend divisor =
     (if divisor = 0 then zero256 else Divide_loop divisor 0 40 dividend zero256)"

section \<open>Shifts\<close>

definition ShiftTargetLeft :: "uint256 \<Rightarrow> int \<Rightarrow> uint256" where
  "ShiftTargetLeft val shift_bits =
     (if shift_bits \<le> 0 then val
      else if shift_bits \<ge> 256 then zero256
      else
        (let byte_shift = nat shift_bits div 8;
             bit_shift = nat shift_bits mod 8
         in map (\<lambda>i.
              if i < byte_shift then 0
              else push_bit bit_shift (val ! (i - byte_shift)) OR
                (if bit_shift > 0 \<and> i - byte_shift > 0
                 then drop_bit (8 - bit_shift) (val ! (i - byte_shift - 1)) else 0)) [0..<32]))"

definition ShiftTargetRight :: "uint256 \<Rightarrow> int \<Rightarrow> uint256" where
  "ShiftTargetRight val shift_bits =
     (if shift_bits \<le> 0 then val
      else if shift_bits \<ge> 256 then zero256
      else
        (let byte_shift = nat shift_bits div 8;
             bit_shift = nat shift_bits mod 8
         in map (\<lambda>i.
              if i + byte_shift < 32
              then drop_bit bit_shift (val ! (i + byte_shift)) OR
                (if bit_shift > 0 \<and> i + byte_shift + 1 < 32
                 then push_bit (8 - bit_shift) (val ! (i + byte_shift + 1)) else 0)
              else 0) [0..<32]))"

section \<open>Chain work\<close>

definition ComputeChainWork :: "u32 \<Rightarrow> uint256" where
  "ComputeChainWork nBits =
     (let size' = int (unat (drop_bit 24 nBits));
          mantissa = ucast (nBits AND 0x00FFFFFF) :: u64
      in if mantissa = 0 then replicate 32 0xFF
         else
           (let work_exponent = 256 - 8 * size';
                work_byte_pos = cdiv work_exponent 8;
                work_byte_pos = (if work_byte_pos < 0 then 0 else work_byte_pos);
                work_byte_pos = (if work_byte_pos > 31 then 31 else work_byte_pos);
                pos = nat work_byte_pos;
                work_mantissa = (-1) div mantissa
            in map (\<lambda>j. if pos \<le> j \<and> j - pos < 8
                        then ucast (drop_bit ((j - pos) * 8) work_mantissa AND 0xFF) else 0) [0..<32]))"

fun AddChainWork_loop :: "u32 \<Rightarrow> bytes \<Rightarrow> bytes \<Rightarrow> bytes \<times> u32" where
  "AddChainWork_loop carry (x # a) (y # b) =
     (let sum = ucast x + ucast y + carry;
          (rest, carry') = AddChainWork_loop (drop_bit 8 sum) a b
      in (ucast (sum AND 0xFF) # rest, carry'))"
| "AddChainWork_loop carry _ _ = ([], carry)"

definition AddChainWork :: "uint256 \<Rightarrow> uint256 \<Rightarrow> uint256" where
  "AddChainWork a b =
     (let (result, carry) = AddChainWork_loop 0 a b
      in if carry \<noteq> 0 then replicate 32 0xFF else result)"

section \<open>Compact encodings in normal form\<close>

definition canonical_compact :: "u32 \<Rightarrow> bool" where
  "canonical_compact c \<longleftrightarrow> 8 \<le> unat c div 2 ^ 24 \<and> unat c div 2 ^ 24 \<le> 32 \<and>
     2 ^ 15 \<le> unat c mod 2 ^ 24 \<and> unat c mod 2 ^ 24 < 2 ^ 23"

section \<open>Lemmas\<close>

lemma HashLessThan_loop_iff:
  "n \<le> length h \<Longrightarrow> n \<le> length t \<Longrightarrow>
     HashLessThan_loop n h t \<longleftrightarrow> le_val (take n h) < le_val (take n t)"
proof (induction n)
  case 0
  then show ?case by simp
next
  case (Suc i)
  have e: "le_val (take (Suc i) h) = le_val (take i h) + 256 ^ i * unat (h ! i)"
    "le_val (take (Suc i) t) = le_val (take i t) + 256 ^ i * unat (t ! i)"
    using Suc.prems by (simp_all add: le_val_take_Suc)
  consider "unat (h ! i) < unat (t ! i)" | "unat (h ! i) > unat (t ! i)" | "h ! i = t ! i"
    by (metis linorder_neq_iff word_unat_eq_iff)
  then show ?case
  proof cases
    case 1
    then show ?thesis
      using digit_less [OF le_val_take_bound 1, of i h "le_val (take i t)"]
      by (simp add: e word_less_nat_alt)
  next
    case 2
    then show ?thesis
      using digit_less [OF le_val_take_bound 2, of i t "le_val (take i h)"]
      by (simp add: e word_less_nat_alt)
  next
    case 3
    then show ?thesis using Suc by (simp add: e)
  qed
qed

lemma ChainWorkGreaterThan_loop_flip:
  "ChainWorkGreaterThan_loop n a b = HashLessThan_loop n b a"
  by (induction n) auto

lemma ChainWorkGreaterOrEqual_loop_not:
  "ChainWorkGreaterOrEqual_loop n a b \<longleftrightarrow> \<not> HashLessThan_loop n a b"
  by (induction n) auto

lemma HashLessThan_val: "wf256 h \<Longrightarrow> wf256 t \<Longrightarrow> HashLessThan h t \<longleftrightarrow> le_val h < le_val t"
  by (simp add: HashLessThan_def HashLessThan_loop_iff wf256_def)

lemma ChainWorkGreaterThan_val:
  "wf256 a \<Longrightarrow> wf256 b \<Longrightarrow> ChainWorkGreaterThan a b \<longleftrightarrow> le_val a > le_val b"
  by (simp add: ChainWorkGreaterThan_def ChainWorkGreaterThan_loop_flip HashLessThan_loop_iff wf256_def)

lemma ChainWorkGreaterOrEqual_val:
  "wf256 a \<Longrightarrow> wf256 b \<Longrightarrow> ChainWorkGreaterOrEqual a b \<longleftrightarrow> le_val a \<ge> le_val b"
  by (simp add: ChainWorkGreaterOrEqual_def ChainWorkGreaterOrEqual_loop_not HashLessThan_loop_iff
      wf256_def not_less)

lemma wf256_CompactToBig [simp, wf_intros]: "wf256 (CompactToBig c)"
  by (simp add: CompactToBig_def Let_def wf256_def)

lemma le_val_three:
  assumes "i + 2 < 32"
  shows "le_val (zero256[i := a, i + 1 := b, i + 2 := c]) =
    256 ^ i * (unat a + 256 * unat b + 65536 * unat c)"
  using assms
  by (simp add: le_val_update zero256_def algebra_simps)

lemma le_val_word3:
  fixes w :: u32
  assumes "i + 2 < 32" "unat w < 2 ^ 24"
  shows "le_val (zero256[i := ucast (w AND 0xff), i + 1 := ucast (drop_bit 8 w AND 0xff),
    i + 2 := ucast (drop_bit 16 w AND 0xff)]) = 256 ^ i * unat w"
  unfolding le_val_three [OF assms(1)] unat_byte_and unat_drop_bit three_digits [OF assms(2)] ..

lemma CompactToBig_val:
  fixes c :: u32
  defines "n \<equiv> unat c div 2 ^ 24" and "m \<equiv> unat c mod 2 ^ 23"
  shows "le_val (CompactToBig c) =
    (if m = 0 \<or> n = 0 \<or> n > 32 then 0 else if n \<le> 3 then m div 256 ^ (3 - n) else m * 256 ^ (n - 3))"
proof -
  have n: "unat (drop_bit 24 c) = n" by (simp add: n_def unat_drop_bit)
  obtain w where w: "w = c AND 0x7fffff" by simp
  have m: "unat w = m" unfolding w mask_lits unat_and_mask m_def ..
  have m0: "w = 0 \<longleftrightarrow> m = 0" using m by (metis unat_eq_zero)
  have lt: "m < 2 ^ 24" by (simp add: m_def order_less_trans [OF mod_less_divisor])
  have zero: ?thesis if "m = 0 \<or> n = 0 \<or> n > 32"
    using that by (auto simp: CompactToBig_def Let_def n m0 w [symmetric])
  moreover have small: ?thesis if g: "m \<noteq> 0" "n \<noteq> 0" "n \<le> 3"
  proof -
    obtain v where v: "v = drop_bit (8 * (3 - n)) w" by simp
    have uv: "unat v = m div 256 ^ (3 - n)" unfolding v unat_drop_bit m power_mult by simp
    have "unat v < 2 ^ 24" unfolding uv using lt by (rule order_le_less_trans [OF div_le_dividend])
    moreover have "CompactToBig c = zero256[0 := ucast (v AND 0xff), 0 + 1 := ucast (drop_bit 8 v AND 0xff),
         0 + 2 := ucast (drop_bit 16 v AND 0xff)]"
      using g by (simp add: CompactToBig_def Let_def n m0 w [symmetric] v [symmetric] numeral_2_eq_2)
    ultimately show ?thesis using g by (simp only: le_val_word3) (simp add: uv)
  qed
  moreover have large: ?thesis if g: "m \<noteq> 0" "3 < n" "n \<le> 32"
  proof -
    obtain k where k: "n = 3 + k" using g(2) le_Suc_ex [of 3 n] by auto
    have "CompactToBig c = zero256[k := ucast (w AND 0xff), k + 1 := ucast (drop_bit 8 w AND 0xff),
         k + 2 := ucast (drop_bit 16 w AND 0xff)]"
      using g by (simp add: CompactToBig_def Let_def n m0 w [symmetric] k)
    moreover have "k + 2 < 32" using g k by simp
    ultimately have "le_val (CompactToBig c) = 256 ^ k * m"
      using lt m by (simp only: le_val_word3)
    then show ?thesis using g k by simp
  qed
  ultimately show ?thesis by linarith
qed

lemma BigSize_spec:
  "BigSize n t \<le> n \<and> (\<forall>j. BigSize n t \<le> j \<and> j < n \<longrightarrow> t ! j = 0) \<and>
   (BigSize n t > 0 \<longrightarrow> t ! (BigSize n t - 1) \<noteq> 0)"
  by (induction n) (auto simp: less_Suc_eq)

lemma BigSize_val:
  assumes "wf256 t" "BigSize 32 t = s"
  shows "le_val (take s t) = le_val t" "le_val t < 256 ^ s" "s > 0 \<Longrightarrow> 256 ^ (s - 1) \<le> le_val t"
    "s \<le> 32"
proof -
  note sp = BigSize_spec [of 32 t, unfolded assms(2)]
  show v: "le_val (take s t) = le_val t"
    using sp assms(1) by (intro le_val_take_zeros) (simp add: wf256_def)
  then show "le_val t < 256 ^ s" by (metis le_val_take_bound)
  show "s \<le> 32" using sp by simp
  show "256 ^ (s - 1) \<le> le_val t" if "s > 0"
  proof -
    have "t ! (s - 1) \<noteq> 0" using sp that by simp
    then have "1 \<le> unat (t ! (s - 1))" by (simp add: Suc_le_eq unat_gt_0)
    then have "256 ^ (s - 1) * 1 \<le> 256 ^ (s - 1) * unat (t ! (s - 1))" by (rule mult_le_mono2)
    also have "\<dots> \<le> le_val (take (Suc (s - 1)) t)"
      using assms(1) sp that by (subst le_val_take_Suc) (auto simp: wf256_def)
    finally show ?thesis using that v by simp
  qed
qed

lemma BigSize_0_iff: "wf256 t \<Longrightarrow> BigSize 32 t = 0 \<longleftrightarrow> le_val t = 0"
  using BigSize_val [of t "BigSize 32 t"]
  by (metis gr_zeroI less_one power_0 power_eq_0_iff zero_less_numeral le_zero_eq not_gr_zero)

lemma BigToCompact_mantissa:
  assumes "wf256 t" "BigSize 32 t = s" "s > 0"
  defines "v \<equiv> (if s \<le> 3 then le_val t * 256 ^ (3 - s) else le_val t div 256 ^ (s - 3))"
  shows "2 ^ 16 \<le> v" "v < 2 ^ 24"
proof -
  note val = BigSize_val [OF assms(1,2)]
  have "2 ^ 16 \<le> v \<and> v < 2 ^ 24"
  proof (cases "s \<le> 3")
    case True
    have "le_val t * 256 ^ (3 - s) < 256 ^ s * 256 ^ (3 - s)" using val(2) by simp
    also have "\<dots> = 256 ^ 3" using True by (simp flip: power_add)
    finally have "v < 2 ^ 24" using True by (simp add: v_def)
    moreover have "256 ^ (s - 1) * 256 ^ (3 - s) \<le> le_val t * 256 ^ (3 - s)"
      using val(3) [OF assms(3)] by (rule mult_le_mono1)
    moreover have "(256 :: nat) ^ (s - 1) * 256 ^ (3 - s) = 2 ^ 16"
      using True assms(3) by (simp flip: power_add)
    ultimately show ?thesis using True unfolding v_def by (simp only: if_True)
  next
    case False
    have "(256 :: nat) ^ 3 * 256 ^ (s - 3) = 256 ^ (3 + (s - 3))"
      "(256 :: nat) ^ 2 * 256 ^ (s - 3) = 256 ^ (2 + (s - 3))" by (rule power_add [symmetric])+
    moreover have "3 + (s - 3) = s" "2 + (s - 3) = s - 1" using False by simp_all
    ultimately have "le_val t < 256 ^ 3 * 256 ^ (s - 3)" "256 ^ 2 * 256 ^ (s - 3) \<le> le_val t"
      using val(2) val(3) [OF assms(3)] by (simp_all only:)
    then have "le_val t div 256 ^ (s - 3) < 256 ^ 3" "256 ^ 2 \<le> le_val t div 256 ^ (s - 3)"
      by (simp_all add: less_mult_imp_div_less less_eq_div_iff_mult_less_eq)
    then show ?thesis using False by (simp add: v_def)
  qed
  then show "2 ^ 16 \<le> v" "v < 2 ^ 24" by simp_all
qed

lemma BigToCompact_val:
  assumes "wf256 t" "BigSize 32 t = s" "s > 0"
  shows "unat (BigToCompact t) =
    s * 2 ^ 24 + (if s \<le> 3 then le_val t * 256 ^ (3 - s) else le_val t div 256 ^ (s - 3))"
proof -
  define v where "v = (if s \<le> 3 then le_val t * 256 ^ (3 - s) else le_val t div 256 ^ (s - 3))"
  note val = BigSize_val [OF assms(1,2)]
  have len: "length t = 32" using assms(1) by (simp add: wf256_def)
  have lt: "v < 2 ^ 24" using BigToCompact_mantissa [OF assms] by (simp add: v_def)
  have "\<exists>w :: u32. BigToCompact t = w OR push_bit 24 (of_nat s) \<and> unat w = v"
  proof (cases "s \<le> 3")
    case True
    let ?w = "push_bit (8 * (3 - s)) (of_nat (le_val [t ! 0, t ! 1, t ! 2])) :: u32"
    have "le_val (take 3 t) = le_val t"
      using True BigSize_spec [of 32 t] len assms(2) by (intro le_val_take_zeros) auto
    then have "le_val [t ! 0, t ! 1, t ! 2] = le_val t"
      using take3 [of 0 t] len by (simp add: numeral_2_eq_2)
    then have "?w = of_nat v"
      using True by (simp add: v_def push_bit_eq_mult power_mult)
    moreover have "BigToCompact t = ?w OR push_bit 24 (of_nat s)"
      using True assms by (simp add: BigToCompact_def Let_def le_word_3)
    ultimately show ?thesis using lt by (intro exI [of _ ?w]) (simp add: unsigned_of_nat take_bit_nat_eq_self)
  next
    case False
    obtain k where k: "s = 3 + k" using False le_Suc_ex [of 3 s] by auto
    let ?w = "of_nat (le_val [t ! k, t ! (k + 1), t ! (k + 2)]) :: u32"
    have kl: "k + 2 < length t" using k val(4) len by simp
    have "le_val t = le_val (take k t @ [t ! k, t ! (k + 1), t ! (k + 2)])"
      using val(1) unfolding k take3 [OF kl] by simp
    then have "le_val t = le_val (take k t) + 256 ^ k * le_val [t ! k, t ! (k + 1), t ! (k + 2)]"
      using kl by (simp add: le_val_append min_def)
    then have "le_val t div 256 ^ k = le_val [t ! k, t ! (k + 1), t ! (k + 2)]"
      using le_val_take_bound [of k t] by simp
    then have "v = le_val [t ! k, t ! (k + 1), t ! (k + 2)]"
      using k False by (simp add: v_def del: le_val.simps)
    then have "?w = of_nat v" by (simp only:)
    moreover have "BigToCompact t = ?w OR push_bit 24 (of_nat s)"
      using assms(2,3) False unfolding BigToCompact_def Let_def le_word_3 by (simp add: k le_word_3)
    ultimately show ?thesis using lt by (intro exI [of _ ?w]) (simp add: unsigned_of_nat take_bit_nat_eq_self)
  qed
  then obtain w :: u32 where w: "BigToCompact t = w OR push_bit 24 (of_nat s)" "unat w = v" by blast
  have us: "unat (of_nat s :: u32) = s" using val(4) by (simp add: unsigned_of_nat take_bit_nat_eq_self)
  have "unat (w OR push_bit 24 (of_nat s)) = unat w + unat (of_nat s :: u32) * 2 ^ 24"
    using lt val(4) by (intro or_push_val) (simp_all add: w(2) us)
  then show ?thesis using w us by (simp add: v_def)
qed

lemma FixCompact_val:
  fixes c :: u32
  defines "n \<equiv> unat c div 2 ^ 24" and "m \<equiv> unat c mod 2 ^ 24"
  assumes "n < 255"
  shows "unat (FixCompactEncoding c) = (if m < 2 ^ 23 then unat c else (n + 1) * 2 ^ 24 + m div 256)"
proof -
  obtain w where w: "w = c AND 0xffffff" by simp
  have m: "unat w = m" unfolding w mask_lits unat_and_mask m_def ..
  have lt: "m < 2 ^ 24" by (simp add: m_def)
  have n: "unat (drop_bit 24 c) = n" by (simp add: n_def unat_drop_bit)
  have "w AND 0x00800000 = 0 \<longleftrightarrow> \<not> bit w 23"
  proof -
    have "w AND push_bit 23 1 = push_bit 23 (of_bool (bit w 23))"
      by (intro bit_word_eqI) (auto simp only: bit_simps diff_is_0_eq dest: le_antisym)
    moreover have "(0x00800000 :: u32) = push_bit 23 1" by simp
    ultimately have "w AND 0x00800000 = push_bit 23 (of_bool (bit w 23))" by (simp only:)
    then show ?thesis by simp
  qed
  moreover have "bit w 23 \<longleftrightarrow> 2 ^ 23 \<le> m"
  proof -
    have "bit w 23 \<longleftrightarrow> bit m 23" unfolding m [symmetric] bit_unsigned_iff by simp
    also have "\<dots> \<longleftrightarrow> odd (m div 2 ^ 23)" by (simp add: bit_iff_odd)
    also have "\<dots> \<longleftrightarrow> 2 ^ 23 \<le> m"
    proof (cases "2 ^ 23 \<le> m")
      case True
      then have "m div 2 ^ 23 = 1" using lt by (intro div_nat_eqI) simp_all
      then show ?thesis using True by simp
    qed simp
    finally show ?thesis .
  qed
  ultimately have b: "w AND 0x00800000 \<noteq> 0 \<longleftrightarrow> \<not> m < 2 ^ 23" by auto
  show ?thesis
  proof (cases "m < 2 ^ 23")
    case True
    have "unat (w OR push_bit 24 (drop_bit 24 c)) = m + n * 2 ^ 24"
      using lt assms(3) by (subst or_push_val) (simp_all add: m n)
    moreover have "m + n * 2 ^ 24 = unat c" by (simp add: m_def n_def)
    moreover have "FixCompactEncoding c = w OR push_bit 24 (drop_bit 24 c)"
      using True b by (simp add: FixCompactEncoding_def Let_def w [symmetric] or.commute)
    ultimately show ?thesis using True by simp
  next
    case False
    have s: "unat (drop_bit 24 c + 1) = n + 1"
      using assms(3) n by (subst unat_word_ariths) simp
    have "unat (drop_bit 8 w) = m div 256" by (simp add: unat_drop_bit m)
    moreover have "m div 256 < 2 ^ 16" using lt by (simp add: less_mult_imp_div_less)
    ultimately have "unat (drop_bit 8 w OR push_bit 24 (drop_bit 24 c + 1)) = m div 256 + (n + 1) * 2 ^ 24"
      using lt assms(3) by (subst or_push_val) (simp_all only: s, simp_all add: div_less_dividend)
    moreover have "FixCompactEncoding c = drop_bit 8 w OR push_bit 24 (drop_bit 24 c + 1)"
      using False b by (simp add: FixCompactEncoding_def Let_def w [symmetric] or.commute)
    ultimately show ?thesis using False by simp
  qed
qed


lemma CompactToBig_of:
  assumes "unat c = n * 2 ^ 24 + m" "0 < m" "m < 2 ^ 23" "0 < n" "n \<le> 32"
  shows "le_val (CompactToBig c) = (if n \<le> 3 then m div 256 ^ (3 - n) else m * 256 ^ (n - 3))"
proof -
  have "unat c mod 2 ^ 23 = m" unfolding assms(1) by (rule mod_high_add [OF assms(3)])
  moreover have "unat c div 2 ^ 24 = n" using assms(1,3) by simp
  ultimately show ?thesis using CompactToBig_val [of c] assms(2,4,5) by simp
qed

lemma Compact_Fix_Big:
  assumes "wf256 t" "0 < le_val t" "le_val t < 2 ^ 255"
  obtains w where "0 < w" "w = 1 \<or> 2 ^ 15 \<le> le_val t div w"
    "le_val (CompactToBig (FixCompactEncoding (BigToCompact t))) = le_val t div w * w"
proof -
  define s where "s = BigSize 32 t"
  have s0: "s > 0" using assms(1,2) BigSize_0_iff [of t] by (simp add: s_def)
  note val = BigSize_val [OF assms(1) s_def [symmetric]]
  define v where "v = (if s \<le> 3 then le_val t * 256 ^ (3 - s) else le_val t div 256 ^ (s - 3))"
  have c: "unat (BigToCompact t) = s * 2 ^ 24 + v"
    using BigToCompact_val [OF assms(1) s_def [symmetric] s0] by (simp add: v_def)
  have v: "2 ^ 16 \<le> v" "v < 2 ^ 24"
    using BigToCompact_mantissa [OF assms(1) s_def [symmetric] s0] by (simp_all add: v_def)
  show ?thesis
  proof (cases "v < 2 ^ 23")
    case True
    then have "unat (FixCompactEncoding (BigToCompact t)) = s * 2 ^ 24 + v"
      using val(4) v by (subst FixCompact_val) (simp_all add: c)
    then have r: "le_val (CompactToBig (FixCompactEncoding (BigToCompact t))) =
        (if s \<le> 3 then v div 256 ^ (3 - s) else v * 256 ^ (s - 3))"
      using True v s0 val(4) by (intro CompactToBig_of) simp_all
    show ?thesis
    proof (rule that [of "256 ^ (s - 3)"])
      show "256 ^ (s - 3) = (1 :: nat) \<or> 2 ^ 15 \<le> le_val t div 256 ^ (s - 3)"
        using v by (auto simp: v_def split: if_splits)
      show "le_val (CompactToBig (FixCompactEncoding (BigToCompact t))) =
          le_val t div 256 ^ (s - 3) * 256 ^ (s - 3)"
        by (simp add: r v_def)
    qed simp
  next
    case False
    have s32: "s < 32"
    proof (rule ccontr)
      assume "\<not> s < 32"
      then have "s = 32" using val(4) by simp
      then have "2 ^ 23 \<le> le_val t div 256 ^ 29" using False by (simp add: v_def)
      then have "2 ^ 23 * 256 ^ 29 \<le> le_val t" by (simp add: less_eq_div_iff_mult_less_eq)
      then show False using assms(3) by simp
    qed
    have "unat (FixCompactEncoding (BigToCompact t)) = (s + 1) * 2 ^ 24 + v div 256"
      using val(4) v False by (subst FixCompact_val) (simp_all add: c)
    moreover have "v div 256 < 2 ^ 23" "v div 256 \<noteq> 0" "2 ^ 15 \<le> v div 256" using v False by auto
    ultimately have r: "le_val (CompactToBig (FixCompactEncoding (BigToCompact t))) =
        (if s + 1 \<le> 3 then v div 256 div 256 ^ (3 - (s + 1)) else v div 256 * 256 ^ (s + 1 - 3))"
      using s32 by (intro CompactToBig_of) simp_all
    have w: "v div 256 = (if s \<le> 2 then le_val t * 256 ^ (2 - s) else le_val t div 256 ^ (s - 2))"
    proof (cases "s \<le> 2")
      case True
      then have "(256 :: nat) ^ (3 - s) = 256 * 256 ^ (2 - s)" by (simp flip: power_Suc add: Suc_diff_le)
      then show ?thesis using True by (simp add: v_def mult.left_commute)
    next
      case False
      then have "(256 :: nat) ^ (s - 2) = 256 ^ (s - 3) * 256"
        by (simp flip: power_Suc2 add: Suc_diff_Suc numeral_3_eq_3 numeral_2_eq_2)
      then show ?thesis using False by (auto simp: v_def div_mult2_eq)
    qed
    show ?thesis
    proof (rule that [of "256 ^ (s - 2)"])
      show "256 ^ (s - 2) = (1 :: nat) \<or> 2 ^ 15 \<le> le_val t div 256 ^ (s - 2)"
        using w \<open>2 ^ 15 \<le> v div 256\<close> by (auto split: if_splits)
      show "le_val (CompactToBig (FixCompactEncoding (BigToCompact t))) =
          le_val t div 256 ^ (s - 2) * 256 ^ (s - 2)"
        unfolding r w by auto
    qed simp
  qed
qed

lemma Multiply_loop_Cons:
  "Multiply_loop b carry (x # a) =
     (let p = unat x * unat b + unat carry
      in if p < 2 ^ 64 then
           (case Multiply_loop b (of_nat (p div 256)) a of None \<Rightarrow> None
            | Some (r, c') \<Rightarrow> Some (of_nat (p mod 256) # r, c'))
         else None)"
proof -
  let ?x = "ucast x :: u64"
  define p where "p = unat x * unat b + unat carry"
  consider (a) "2 ^ 64 \<le> unat x * unat b" | (b) "unat x * unat b < 2 ^ 64" "2 ^ 64 \<le> p" | (c) "p < 2 ^ 64"
    by linarith
  then show ?thesis
  proof cases
    case a
    then have "?x \<noteq> 0 \<and> b > (-1) div ?x" by (simp add: mul_overflow_iff)
    moreover have "\<not> p < 2 ^ 64" using a by (simp add: p_def)
    ultimately show ?thesis unfolding p_def by (simp add: Let_def)
  next
    case b
    then have "\<not> (?x \<noteq> 0 \<and> b > (-1) div ?x)" by (simp add: mul_overflow_iff)
    moreover have "carry > (-1) - ?x * b" using b unfolding add_fits_iff by (simp add: unat_mult_fits p_def)
    moreover have "\<not> p < 2 ^ 64" using b by simp
    ultimately show ?thesis unfolding p_def by (simp add: Let_def)
  next
    case c
    then have m: "unat x * unat b < 2 ^ 64" by (simp add: p_def)
    then have n1: "\<not> (?x \<noteq> 0 \<and> b > (-1) div ?x)" by (simp add: mul_overflow_iff)
    have n2: "\<not> carry > (-1) - ?x * b" using c m unfolding add_fits_iff by (simp add: unat_mult_fits p_def)
    have up: "unat (?x * b + carry) = p"
      using c m by (simp add: unat_add_fits unat_mult_fits p_def)
    have d: "drop_bit 8 (?x * b + carry) = of_nat (p div 256)"
      by (rule word_of_unat) (simp only: unat_drop_bit up, simp)
    have u: "ucast ((?x * b + carry) AND 0xFF) = (of_nat (p mod 256) :: byte)"
      by (rule word_of_unat) (simp only: unat_byte_and up)
    show ?thesis
      by (simp only: Multiply_loop.simps Let_def n1 n2 d u p_def [symmetric] c if_False if_True)
  qed
qed

lemma Multiply_loop_val:
  "Multiply_loop b carry a = Some (r, c') \<Longrightarrow>
     length r = length a \<and> le_val r + 256 ^ length a * unat c' = le_val a * unat b + unat carry"
proof (induction a arbitrary: carry r c')
  case Nil
  then show ?case by simp
next
  case (Cons x a)
  define p where "p = unat x * unat b + unat carry"
  have p64: "p < 2 ^ 64" using Cons.prems unfolding Multiply_loop_Cons p_def by (simp add: Let_def split: if_splits)
  then obtain r' where r': "Multiply_loop b (of_nat (p div 256)) a = Some (r', c')" "r = of_nat (p mod 256) # r'"
    using Cons.prems unfolding Multiply_loop_Cons p_def [symmetric] Let_def by (auto split: option.splits)
  have "unat (of_nat (p div 256) :: u64) = p div 256"
    using p64 by (intro unat_of_nat_len) simp
  then have IH: "length r' = length a" "le_val r' + 256 ^ length a * unat c' = le_val a * unat b + p div 256"
    using Cons.IH [OF r'(1)] by simp_all
  have "unat (of_nat (p mod 256) :: byte) = p mod 256" by (simp add: unsigned_of_nat take_bit_eq_mod)
  then have "le_val r + 256 ^ length (x # a) * unat c' = p mod 256 + 256 * (le_val r' + 256 ^ length a * unat c')"
    by (simp add: r'(2) algebra_simps)
  also have "\<dots> = p + 256 * (le_val a * unat b)" unfolding IH(2) by simp
  finally show ?case using IH(1) r'(2) by (simp add: p_def algebra_simps)
qed

lemma Multiply_loop_total:
  "unat b < 2 ^ 56 \<Longrightarrow> unat carry \<le> unat b \<Longrightarrow> \<exists>r c'. Multiply_loop b carry a = Some (r, c') \<and> unat c' \<le> unat b"
proof (induction a arbitrary: carry)
  case Nil
  then show ?case by simp
next
  case (Cons x a)
  define p where "p = unat x * unat b + unat carry"
  have "p \<le> 255 * unat b + unat b"
    unfolding p_def using Cons.prems(2) unat_byte_le [of x] by (intro add_mono mult_le_mono1)
  then have p: "p \<le> 256 * unat b" by simp
  then have p64: "p < 2 ^ 64" using Cons.prems(1) by simp
  have "unat (of_nat (p div 256) :: u64) = p div 256"
    using p64 by (intro unat_of_nat_len) simp
  moreover have "p div 256 \<le> unat b" using p by simp
  ultimately obtain r c' where "Multiply_loop b (of_nat (p div 256)) a = Some (r, c')" "unat c' \<le> unat b"
    using Cons.IH [OF Cons.prems(1), of "of_nat (p div 256)"] by auto
  then show ?case unfolding Multiply_loop_Cons p_def [symmetric] Let_def using p64 by simp
qed

lemma Multiply_carry_val:
  "Multiply_carry n carry = (r, c') \<Longrightarrow>
     length r = n \<and> le_val r + 256 ^ n * unat c' = unat carry"
proof (induction n arbitrary: carry r)
  case 0
  then show ?case by simp
next
  case (Suc n)
  show ?case
  proof (cases "carry > 0")
    case True
    then obtain r' where r': "Multiply_carry n (drop_bit 8 carry) = (r', c')" "r = ucast (carry AND 0xFF) # r'"
      using Suc.prems by (auto simp: Let_def split: prod.splits)
    then have IH: "length r' = n" "le_val r' + 256 ^ n * unat c' = unat carry div 2 ^ 8"
      using Suc.IH [OF r'(1)] by (simp_all add: unat_drop_bit)
    have "le_val r + 256 ^ Suc n * unat c' = unat carry mod 256 + 256 * (le_val r' + 256 ^ n * unat c')"
      unfolding r'(2) le_val.simps unat_byte_and by (simp add: algebra_simps)
    then show ?thesis unfolding IH(2) using IH(1) r'(2) by simp
  next
    case False
    then show ?thesis using Suc.prems by (auto simp: word_gt_0)
  qed
qed

lemma Multiply_carry_8: "snd (Multiply_carry 8 carry) = 0"
proof -
  obtain r c' where e: "Multiply_carry 8 carry = (r, c')" by (cases "Multiply_carry 8 carry")
  then have "256 ^ 8 * unat c' \<le> unat carry" using Multiply_carry_val [OF e] by simp
  then have "256 ^ 8 * unat c' < 2 ^ 64" using u64_range [of carry] by simp
  then have "unat c' = 0" by simp
  then show ?thesis using e by (simp add: unat_eq_zero)
qed

lemma Multiply256x64_val:
  assumes "Multiply256x64 a b = Some p"
  shows "length p = length a + 8 \<and> le_val p = le_val a * unat b"
proof -
  obtain low carry where l: "Multiply_loop b 0 a = Some (low, carry)"
    using assms by (auto simp: Multiply256x64_def split: option.splits)
  obtain high c' where h: "Multiply_carry 8 carry = (high, c')" by (cases "Multiply_carry 8 carry")
  then have "c' = 0" using Multiply_carry_8 [of carry] by simp
  then have "p = low @ high" using assms l h by (simp add: Multiply256x64_def)
  then show ?thesis
    using Multiply_loop_val [OF l] Multiply_carry_val [OF h] \<open>c' = 0\<close> by (simp add: le_val_append)
qed

lemma Multiply256x64_total:
  assumes "unat b < 2 ^ 56"
  shows "\<exists>p. Multiply256x64 a b = Some p"
proof -
  obtain low carry where l: "Multiply_loop b 0 a = Some (low, carry)"
    using Multiply_loop_total [of b 0 a] assms by auto
  obtain high c' where h: "Multiply_carry 8 carry = (high, c')" by (cases "Multiply_carry 8 carry")
  then have "c' = 0" using Multiply_carry_8 [of carry] by simp
  then show ?thesis using l h by (simp add: Multiply256x64_def)
qed

lemma divide_step_val:
  fixes r d :: u64 and x :: byte
  assumes "unat r < unat d" "unat d \<le> 2 ^ 56"
  defines "v \<equiv> unat r * 256 + unat x"
  shows "unat (push_bit 8 r OR ucast x) = v"
    "unat ((push_bit 8 r OR ucast x) mod d) = v mod unat d"
    "unat (ucast ((push_bit 8 r OR ucast x) div d AND 0xFF) :: byte) = v div unat d"
proof -
  have "unat r \<le> 2 ^ 56 - 1" using assms(1,2) by linarith
  then have b: "unat x + unat r * 2 ^ 8 < 2 ^ 64" using unat_byte_lt [of x] by simp
  have "unat (ucast x OR push_bit 8 r) = unat (ucast x :: u64) + unat r * 2 ^ 8"
    using b unat_byte_lt [of x] by (intro or_push_val) simp_all
  then show u: "unat (push_bit 8 r OR ucast x) = v" by (simp add: or.commute v_def)
  show "unat ((push_bit 8 r OR ucast x) mod d) = v mod unat d" by (simp only: unat_mod u)
  have "v < 256 * unat d"
  proof -
    have "v < unat r * 256 + 256" using unat_byte_lt [of x] by (simp add: v_def)
    also have "\<dots> \<le> 256 * unat d" using assms(1) by simp
    finally show ?thesis .
  qed
  then have "v div unat d < 256" by (simp add: less_mult_imp_div_less)
  then show "unat (ucast ((push_bit 8 r OR ucast x) div d AND 0xFF) :: byte) = v div unat d"
    unfolding unat_byte_and unat_div u by simp
qed

lemma Divide_loop_low:
  assumes "unat d \<le> 2 ^ 56" "length Q = 32"
  shows "n \<le> 32 \<Longrightarrow> n \<le> length D \<Longrightarrow> unat r < unat d \<Longrightarrow> \<forall>j<n. Q ! j = 0 \<Longrightarrow>
     length (Divide_loop d r n D Q) = 32 \<and>
     le_val (Divide_loop d r n D Q) = le_val Q + (256 ^ n * unat r + le_val (take n D)) div unat d"
  using assms(2)
proof (induction n arbitrary: r Q)
  case 0
  then show ?case by simp
next
  case (Suc i)
  define v where "v = unat r * 256 + unat (D ! i)"
  define w where "w = push_bit 8 r OR ucast (D ! i)"
  note st = divide_step_val [OF Suc.prems(3) assms(1), of "D ! i", folded v_def w_def]
  define Q' where "Q' = Q[i := ucast (w div d AND 0xFF)]"
  have d: "0 < unat d" using Suc.prems(3) by simp
  have Q': "le_val Q' = le_val Q + 256 ^ i * (v div unat d)"
    using Suc.prems by (simp add: Q'_def le_val_update st)
  have "Divide_loop d r (Suc i) D Q = Divide_loop d (w mod d) i D Q'"
    using Suc.prems(1) by (simp add: Let_def w_def Q'_def)
  moreover have "length (Divide_loop d (w mod d) i D Q') = 32 \<and> le_val (Divide_loop d (w mod d) i D Q') =
      le_val Q' + (256 ^ i * unat (w mod d) + le_val (take i D)) div unat d"
    using Suc.prems d by (intro Suc.IH) (simp_all add: st Q'_def)
  moreover have "256 ^ Suc i * unat r + le_val (take (Suc i) D) = 256 ^ i * v + le_val (take i D)"
    using Suc.prems(2) by (simp add: le_val_take_Suc v_def algebra_simps)
  ultimately show ?case
    by (simp only: Q' st(2) div_split [OF d, of "256 ^ i" v] add.assoc)
qed

lemma Divide_loop_high:
  assumes "unat d \<le> 2 ^ 56" "32 + k \<le> length D"
  shows "unat r < unat d \<Longrightarrow>
     Divide_loop d r (32 + k) D Q =
       Divide_loop d (of_nat ((256 ^ k * unat r + le_val (drop 32 (take (32 + k) D))) mod unat d)) 32 D Q"
  using assms(2)
proof (induction k arbitrary: r)
  case 0
  then show ?case by simp
next
  case (Suc k)
  define v where "v = unat r * 256 + unat (D ! (32 + k))"
  define w where "w = push_bit 8 r OR ucast (D ! (32 + k))"
  note st = divide_step_val [OF Suc.prems(1) assms(1), of "D ! (32 + k)", folded v_def w_def]
  have "take (Suc (32 + k)) D = take (32 + k) D @ [D ! (32 + k)]"
    using Suc.prems(2) by (intro take_Suc_conv_app_nth) simp
  then have "drop 32 (take (32 + Suc k) D) = drop 32 (take (32 + k) D) @ [D ! (32 + k)]"
    using Suc.prems(2) by (simp only: add_Suc_right drop_append) simp
  then have t: "le_val (drop 32 (take (32 + Suc k) D)) = le_val (drop 32 (take (32 + k) D)) + 256 ^ k * unat (D ! (32 + k))"
    using Suc.prems(2) by (simp add: le_val_append)
  have "Divide_loop d r (32 + Suc k) D Q = Divide_loop d (w mod d) (32 + k) D Q"
    by (simp only: add_Suc_right Divide_loop.simps Let_def w_def) simp
  also have "\<dots> = Divide_loop d (of_nat ((256 ^ k * unat (w mod d) + le_val (drop 32 (take (32 + k) D))) mod unat d)) 32 D Q"
    using Suc.prems by (intro Suc.IH) (simp_all add: st)
  also have "(256 ^ k * unat (w mod d) + le_val (drop 32 (take (32 + k) D))) mod unat d =
     (256 ^ k * v + le_val (drop 32 (take (32 + k) D))) mod unat d"
    unfolding st(2) by (rule mod_add_cong) (simp_all only: mod_mult_right_eq)
  also have "256 ^ k * v + le_val (drop 32 (take (32 + k) D)) =
      256 ^ Suc k * unat r + le_val (drop 32 (take (32 + Suc k) D))"
    unfolding t by (simp add: v_def algebra_simps)
  finally show ?case .
qed

lemma Divide320x64_val:
  assumes "length D = 40" "0 < unat d" "unat d \<le> 2 ^ 56"
  shows "length (Divide320x64 D d) = 32" "le_val (Divide320x64 D d) = le_val D div unat d mod 256 ^ 32"
proof -
  define hi where "hi = le_val (drop 32 D)"
  define lo where "lo = le_val (take 32 D)"
  define r :: u64 where "r = of_nat (hi mod unat d)"
  have D: "le_val D = 256 ^ 32 * hi + lo"
    using le_val_append [of "take 32 D" "drop 32 D"] assms(1) by (simp add: hi_def lo_def)
  have r: "unat r = hi mod unat d"
    unfolding r_def using order_less_trans [OF mod_less_divisor [OF assms(2)] u64_range]
    by (intro unat_of_nat_len) simp
  then have rd: "unat r < unat d" using assms(2) by simp
  have "Divide_loop d 0 (32 + 8) D zero256 = Divide_loop d r 32 D zero256"
    using Divide_loop_high [of d 8 D 0 zero256] assms by (simp add: r_def hi_def)
  moreover have "d \<noteq> 0" using assms(2) by auto
  ultimately have e: "Divide320x64 D d = Divide_loop d r 32 D zero256" by (simp add: Divide320x64_def)
  have low: "length (Divide320x64 D d) = 32 \<and> le_val (Divide320x64 D d) = (256 ^ 32 * unat r + lo) div unat d"
    using Divide_loop_low [OF assms(3), of zero256 32 D r] rd assms(1)
    unfolding e lo_def by (simp add: zero256_def)
  then show "length (Divide320x64 D d) = 32" by simp
  have "256 ^ 32 * unat r + lo < 256 ^ 32 * unat d"
    using digit_less [OF le_val_take_bound rd, of 32 D 0] by (simp add: lo_def add.commute)
  then have "(256 ^ 32 * unat r + lo) div unat d < 256 ^ 32" by (simp add: less_mult_imp_div_less mult.commute)
  then show "le_val (Divide320x64 D d) = le_val D div unat d mod 256 ^ 32"
    using low unfolding D div_split [OF assms(2), of "256 ^ 32" hi lo] r by simp
qed

lemma shift_left_bit:
  assumes "length v = 32" "k = 8 * B + s" "s < 8" "n < 256"
  defines "i \<equiv> n div 8" and "j \<equiv> n mod 8"
  shows "bit ((if i < B then 0 else push_bit s (v ! (i - B)) OR
       (if s > 0 \<and> i - B > 0 then drop_bit (8 - s) (v ! (i - B - 1)) else 0)) :: byte) j \<longleftrightarrow>
     bit (push_bit k (le_val v)) n"
proof -
  have n: "n = 8 * i + j" "j < 8" "i < 32" using assms(4) by (simp_all add: i_def j_def less_mult_imp_div_less)
  consider (a) "i < B" | (b) "B \<le> i" "s \<le> j" | (c) "B = i" "j < s" | (d) "B < i" "j < s" by linarith
  then show ?thesis
  proof cases
    case a
    then have "n < k" using n assms(2,3) by simp
    then show ?thesis using a by (simp add: bit_push_bit_iff)
  next
    case b
    then have "n - k = 8 * (i - B) + (j - s)" "k \<le> n" "j - s < 8" using n assms(2) by auto
    then have r: "bit (push_bit k (le_val v)) n \<longleftrightarrow> bit (v ! (i - B)) (j - s)"
      using n(3) assms(1) by (simp add: bit_push_bit_iff bit_le_val_at less_imp_diff_less)
    have "\<not> bit (v ! (i - B - 1)) (8 - s + j)" using b by (auto dest: bit_imp_le_length)
    then show ?thesis unfolding r using b n by (auto simp: bit_simps)
  next
    case c
    then have "n < k" using n assms(2) by simp
    then show ?thesis using c by (auto simp: bit_simps)
  next
    case d
    then have "n - k = 8 * (i - B - 1) + (8 - s + j)" "k \<le> n" "8 - s + j < 8" using n assms(2,3) by auto
    then have r: "bit (push_bit k (le_val v)) n \<longleftrightarrow> bit (v ! (i - B - 1)) (8 - s + j)"
      using n(3) assms(1) by (simp only: bit_push_bit_iff bit_le_val_at) (simp add: less_imp_diff_less)
    then show ?thesis using d by (auto simp: bit_simps)
  qed
qed

lemma ShiftTargetLeft_val:
  assumes "wf256 v" "0 \<le> k"
  shows "wf256 (ShiftTargetLeft v k) \<and> le_val (ShiftTargetLeft v k) = le_val v * 2 ^ nat k mod 2 ^ 256"
proof -
  have l: "length v = 32" using assms(1) by (simp add: wf256_def)
  consider (a) "k = 0" | (b) "256 \<le> k" | (c) "0 < k" "k < 256" using assms(2) by linarith
  then show ?thesis
  proof cases
    case a
    then show ?thesis using assms(1) le_val_bound [of v] l by (simp add: ShiftTargetLeft_def)
  next
    case b
    then have "(2 :: nat) ^ 256 dvd 2 ^ nat k" by (intro le_imp_power_dvd) simp
    then have "(2 :: nat) ^ 256 dvd le_val v * 2 ^ nat k" by (rule dvd_mult)
    then show ?thesis using b by (simp add: ShiftTargetLeft_def mod_eq_0_iff_dvd wf256_def)
  next
    case c
    define f where "f = (\<lambda>i. if i < nat k div 8 then 0
       else push_bit (nat k mod 8) (v ! (i - nat k div 8)) OR
         (if nat k mod 8 > 0 \<and> i - nat k div 8 > 0
          then drop_bit (8 - nat k mod 8) (v ! (i - nat k div 8 - 1)) else 0))"
    have e: "ShiftTargetLeft v k = map f [0..<32]"
      using c by (simp add: ShiftTargetLeft_def Let_def f_def)
    have "le_val (map f [0..<32]) = take_bit (8 * length (map f [0..<32])) (push_bit (nat k) (le_val v))"
    proof (rule le_val_eqI_bits)
      fix n assume "n < 8 * length (map f [0..<32])"
      then have n: "n < 256" by simp
      then have "map f [0..<32] ! (n div 8) = f (n div 8)" by (simp add: less_mult_imp_div_less)
      then show "bit (map f [0..<32] ! (n div 8)) (n mod 8) \<longleftrightarrow> bit (push_bit (nat k) (le_val v)) n"
        using shift_left_bit [of v "nat k" "nat k div 8" "nat k mod 8" n] l n by (simp add: f_def)
    qed
    then show ?thesis unfolding e by (simp add: wf256_def take_bit_eq_mod push_bit_eq_mult)
  qed
qed

lemma shift_right_bit:
  assumes "length v = 32" "k = 8 * B + s" "s < 8" "n < 256"
  defines "i \<equiv> n div 8" and "j \<equiv> n mod 8"
  shows "bit ((if i + B < 32 then drop_bit s (v ! (i + B)) OR
       (if s > 0 \<and> i + B + 1 < 32 then push_bit (8 - s) (v ! (i + B + 1)) else 0) else 0) :: byte) j \<longleftrightarrow>
     bit (drop_bit k (le_val v)) n"
proof -
  have n: "n = 8 * i + j" "j < 8" "i < 32" using assms(4) by (simp_all add: i_def j_def less_mult_imp_div_less)
  consider (a) "s + j < 8" | (b) "8 \<le> s + j" by linarith
  then show ?thesis
  proof cases
    case a
    then have "k + n = 8 * (i + B) + (s + j)" using n assms(2) by simp
    then have r: "bit (drop_bit k (le_val v)) n \<longleftrightarrow> i + B < 32 \<and> bit (v ! (i + B)) (s + j)"
      using a assms(1) by (simp only: bit_drop_bit_eq comp_apply bit_le_val_at)
    show ?thesis unfolding r using a by (auto simp: bit_simps)
  next
    case b
    then have "k + n = 8 * (i + B + 1) + (s + j - 8)" "s + j - 8 < 8" using n assms(2,3) by auto
    then have r: "bit (drop_bit k (le_val v)) n \<longleftrightarrow> i + B + 1 < 32 \<and> bit (v ! (i + B + 1)) (s + j - 8)"
      using assms(1) by (simp only: bit_drop_bit_eq comp_apply bit_le_val_at)
    have "\<not> bit (v ! (i + B)) (s + j)" using b by (auto dest: bit_imp_le_length)
    moreover have "j - (8 - s) = s + j - 8" "0 < s" "8 - s \<le> j" using b n assms(3) by auto
    ultimately show ?thesis unfolding r using n by (auto simp: bit_simps)
  qed
qed

lemma ShiftTargetRight_val:
  assumes "wf256 v" "0 \<le> k"
  shows "wf256 (ShiftTargetRight v k) \<and> le_val (ShiftTargetRight v k) = le_val v div 2 ^ nat k"
proof -
  have l: "length v = 32" using assms(1) by (simp add: wf256_def)
  have lt: "le_val v < 2 ^ 256" using le_val_bound [of v] l by simp
  consider (a) "k = 0" | (b) "256 \<le> k" | (c) "0 < k" "k < 256" using assms(2) by linarith
  then show ?thesis
  proof cases
    case a
    then show ?thesis using assms(1) by (simp add: ShiftTargetRight_def)
  next
    case b
    then have "(2 :: nat) ^ 256 \<le> 2 ^ nat k" by (intro power_increasing) auto
    then show ?thesis using b lt by (simp add: ShiftTargetRight_def)
  next
    case c
    define f where "f = (\<lambda>i. if i + nat k div 8 < 32
       then drop_bit (nat k mod 8) (v ! (i + nat k div 8)) OR
         (if nat k mod 8 > 0 \<and> i + nat k div 8 + 1 < 32
          then push_bit (8 - nat k mod 8) (v ! (i + nat k div 8 + 1)) else 0) else 0)"
    have e: "ShiftTargetRight v k = map f [0..<32]"
      using c by (simp add: ShiftTargetRight_def Let_def f_def)
    have "le_val (map f [0..<32]) = take_bit (8 * length (map f [0..<32])) (drop_bit (nat k) (le_val v))"
    proof (rule le_val_eqI_bits)
      fix n assume "n < 8 * length (map f [0..<32])"
      then have n: "n < 256" by simp
      then have "map f [0..<32] ! (n div 8) = f (n div 8)" by (simp add: less_mult_imp_div_less)
      then show "bit (map f [0..<32] ! (n div 8)) (n mod 8) \<longleftrightarrow> bit (drop_bit (nat k) (le_val v)) n"
        using shift_right_bit [of v "nat k" "nat k div 8" "nat k mod 8" n] l n by (simp add: f_def)
    qed
    moreover have "le_val v div 2 ^ nat k < 2 ^ 256" using lt by (rule order_le_less_trans [OF div_le_dividend])
    ultimately show ?thesis unfolding e by (simp add: wf256_def take_bit_eq_mod drop_bit_eq_div)
  qed
qed

lemma AddChainWork_loop_val:
  "length a = length b \<Longrightarrow> unat carry \<le> 1 \<Longrightarrow> AddChainWork_loop carry a b = (r, c') \<Longrightarrow>
     length r = length a \<and> unat c' \<le> 1 \<and> le_val r + 256 ^ length a * unat c' = le_val a + le_val b + unat carry"
proof (induction a b arbitrary: carry r rule: list_induct2)
  case Nil
  then show ?case by simp
next
  case (Cons x a y b)
  define s where "s = unat x + unat y + unat carry"
  define w :: u32 where "w = ucast x + ucast y + carry"
  have lt: "s < 512" using unat_byte_le [of x] unat_byte_le [of y] Cons.prems(1) by (simp add: s_def)
  have w: "unat w = s"
    using lt unfolding w_def s_def by (simp add: unat_word_ariths)
  obtain r' where r': "AddChainWork_loop (drop_bit 8 w) a b = (r', c')" "r = ucast (w AND 0xFF) # r'"
    using Cons.prems(2) by (auto simp: Let_def w_def split: prod.splits)
  have c: "unat (drop_bit 8 w) = s div 256" by (simp add: unat_drop_bit w)
  have "unat (drop_bit 8 w) \<le> 1" unfolding c using lt by simp
  then have IH: "length r' = length a" "unat c' \<le> 1" "le_val r' + 256 ^ length a * unat c' = le_val a + le_val b + s div 256"
    using Cons.IH [OF _ r'(1)] by (simp_all add: c)
  have "le_val r + 256 ^ length (x # a) * unat c' = s mod 256 + 256 * (le_val r' + 256 ^ length a * unat c')"
    unfolding r'(2) le_val.simps unat_byte_and w by (simp add: algebra_simps)
  also have "\<dots> = s + 256 * (le_val a + le_val b)" unfolding IH(3) by simp
  finally show ?case using IH(1,2) r'(2) by (simp add: s_def)
qed

lemma AddChainWork_val:
  assumes "wf256 a" "wf256 b"
  shows "wf256 (AddChainWork a b) \<and> le_val (AddChainWork a b) = min (le_val a + le_val b) (2 ^ 256 - 1)"
proof -
  obtain r c where e: "AddChainWork_loop 0 a b = (r, c)" by (cases "AddChainWork_loop 0 a b")
  have v: "length r = 32" "unat c \<le> 1" "le_val r + 2 ^ 256 * unat c = le_val a + le_val b"
    using AddChainWork_loop_val [OF _ _ e] assms by (simp_all add: wf256_def)
  have lt: "le_val r < 2 ^ 256" using le_val_bound [of r] v(1) by simp
  have ones: "le_val (replicate 32 0xFF) = 2 ^ 256 - 1" by (simp add: le_val_ones)
  show ?thesis
  proof (cases "c = 0")
    case True
    then show ?thesis using v lt e by (simp add: AddChainWork_def wf256_def)
  next
    case False
    then have "unat c = 1" using v(2) by (metis le_antisym less_one not_le unat_eq_zero)
    then have "2 ^ 256 \<le> le_val a + le_val b" using v(3) by simp
    then show ?thesis using e False ones by (simp add: AddChainWork_def wf256_def)
  qed
qed

lemma ComputeChainWork_val:
  fixes c :: u32
  defines "n \<equiv> unat c div 2 ^ 24" and "m \<equiv> unat c mod 2 ^ 24"
  shows "wf256 (ComputeChainWork c) \<and> le_val (ComputeChainWork c) =
    (if m = 0 then 2 ^ 256 - 1 else (2 ^ 64 - 1) div m * 256 ^ min 31 (32 - n) mod 2 ^ 256)"
proof (cases "m = 0")
  case True
  have "unat (c AND 0xFFFFFF) = m" unfolding mask_lits unat_and_mask m_def ..
  then have "c AND 0xFFFFFF = 0" using True by (simp add: unat_eq_zero)
  then have "ComputeChainWork c = replicate 32 0xFF" by (simp add: ComputeChainWork_def Let_def)
  then show ?thesis using True by (simp add: le_val_ones wf256_def)
next
  case False
  obtain w where w: "w = c AND 0xFFFFFF" by simp
  have uw: "unat w = m" unfolding w mask_lits unat_and_mask m_def ..
  have "m < 2 ^ 64" by (simp add: m_def order_less_trans [OF mod_less_divisor])
  then have uw64: "unat (ucast w :: u64) = m" using uw by (subst unat_ucast_small) simp_all
  then have nz: "(ucast w :: u64) \<noteq> 0" using False by auto
  define W :: u64 where "W = (-1) div ucast w"
  have uW: "unat W = (2 ^ 64 - 1) div m" unfolding W_def unat_div unat_max64 uw64 ..
  define pos where "pos = min 31 (32 - n)"
  have n: "unat (drop_bit 24 c) = n" by (simp add: n_def unat_drop_bit)
  have cd: "cdiv (256 - 8 * int n) 8 = 32 - int n" using cdiv_exact [of "32 - int n"] by simp
  have p: "nat (if (if 32 - int n < 0 then 0 else 32 - int n) > 31 then 31
      else (if 32 - int n < 0 then 0 else 32 - int n)) = pos"
    by (auto simp: pos_def)
  have e: "ComputeChainWork c = map (\<lambda>j. if pos \<le> j \<and> j - pos < 8
       then ucast (drop_bit ((j - pos) * 8) W AND 0xFF) else 0) [0..<32]"
    unfolding ComputeChainWork_def Let_def n w [symmetric] W_def cd p using nz by (simp only: if_False)
  let ?f = "\<lambda>j. (if pos \<le> j \<and> j - pos < 8 then ucast (drop_bit ((j - pos) * 8) W AND 0xFF) else 0) :: byte"
  have "le_val (map ?f [0..<32]) = take_bit (8 * length (map ?f [0..<32])) (push_bit (8 * pos) (unat W))"
  proof (rule le_val_eqI_bits)
    fix k assume "k < 8 * length (map ?f [0..<32])"
    then have k: "k < 256" by simp
    define j where "j = k div 8"
    define b where "b = k mod 8"
    have kj: "k = 8 * j + b" "b < 8" "j < 32" using k by (simp_all add: j_def b_def less_mult_imp_div_less)
    have "map ?f [0..<32] ! j = ?f j" using kj by simp
    moreover have "bit (?f j) b \<longleftrightarrow> bit (push_bit (8 * pos) (unat W)) k"
    proof (cases "pos \<le> j \<and> j - pos < 8")
      case True
      then have "k - 8 * pos = (j - pos) * 8 + b" "8 * pos \<le> k" using kj by auto
      moreover have "bit (0xFF :: u64) b" using kj(2) unfolding mask_lits by (simp add: bit_mask_iff)
      ultimately show ?thesis
        using True kj(2) unfolding bit_push_bit_iff bit_unsigned_iff
        by (simp add: bit_ucast_iff bit_and_iff bit_drop_bit_eq)
    next
      case False
      then have "k < 8 * pos \<or> 64 \<le> k - 8 * pos" using kj by auto
      then have "\<not> bit (push_bit (8 * pos) (unat W)) k"
        unfolding bit_push_bit_iff bit_unsigned_iff by (auto dest: bit_imp_le_length)
      then show ?thesis using False by auto
    qed
    ultimately show "bit (map ?f [0..<32] ! (k div 8)) (k mod 8) \<longleftrightarrow> bit (push_bit (8 * pos) (unat W)) k"
      by (simp add: j_def b_def)
  qed
  then have "le_val (map ?f [0..<32]) = unat W * 2 ^ (8 * pos) mod 2 ^ 256"
    by (simp add: take_bit_eq_mod push_bit_eq_mult)
  then show ?thesis using False unfolding e uW pos_def by (simp add: wf256_def power_mult)
qed

lemma canonical_decompose:
  assumes "canonical_compact c"
  obtains n m where "unat c = n * 2 ^ 24 + m" "8 \<le> n" "n \<le> 32" "2 ^ 15 \<le> m" "m < 2 ^ 23"
    "le_val (CompactToBig c) = m * 256 ^ (n - 3)"
    "le_val (ComputeChainWork c) = (2 ^ 64 - 1) div m * 256 ^ (32 - n)"
proof -
  define n where "n = unat c div 2 ^ 24"
  define m where "m = unat c mod 2 ^ 24"
  have b: "unat c = n * 2 ^ 24 + m" "8 \<le> n" "n \<le> 32" "2 ^ 15 \<le> m" "m < 2 ^ 23"
    using assms by (simp_all add: canonical_compact_def n_def m_def)
  moreover have "le_val (CompactToBig c) = m * 256 ^ (n - 3)"
    using CompactToBig_of [OF b(1)] b by simp
  moreover have "le_val (ComputeChainWork c) = (2 ^ 64 - 1) div m * 256 ^ (32 - n)"
  proof -
    have "(2 ^ 64 - 1) div m < 2 ^ 64" by (rule order_le_less_trans [OF div_le_dividend]) simp
    then have "(2 ^ 64 - 1) div m * 256 ^ (32 - n) < 2 ^ 64 * 256 ^ (32 - n)"
      by (rule mult_strict_right_mono) simp
    also have "\<dots> \<le> 2 ^ 64 * 256 ^ 24" using b(2) by (intro mult_le_mono2 power_increasing) simp_all
    finally have "(2 ^ 64 - 1) div m * 256 ^ (32 - n) < 2 ^ 256" by simp
    then show ?thesis
      using ComputeChainWork_val [of c] b unfolding n_def [symmetric] m_def [symmetric] by (simp add: min_def)
  qed
  ultimately show ?thesis by (rule that)
qed

lemma div_max_bounds:
  assumes "2 ^ 15 \<le> m" "m < 2 ^ 23"
  shows "2 ^ 41 \<le> (2 ^ 64 - 1) div (m :: nat)" "(2 ^ 64 - 1) div m < 2 ^ 49"
proof -
  have "m * 2 ^ 41 \<le> (2 ^ 23 - 1) * 2 ^ 41" using assms(2) by (intro mult_le_mono1) simp
  then show "2 ^ 41 \<le> (2 ^ 64 - 1) div m" using assms by (simp add: less_eq_div_iff_mult_less_eq)
  have "2 ^ 64 - 1 < 2 ^ 49 * (2 ^ 15 :: nat)" by simp
  also have "\<dots> \<le> 2 ^ 49 * m" using assms(1) by simp
  finally show "(2 ^ 64 - 1) div m < 2 ^ 49" by (rule less_mult_imp_div_less)
qed

lemma chain_work_antitone_lemma:
  assumes "canonical_compact a" "canonical_compact b"
    "le_val (CompactToBig a) \<le> le_val (CompactToBig b)"
  shows "le_val (ComputeChainWork b) \<le> le_val (ComputeChainWork a)"
proof -
  obtain n m where a: "8 \<le> n" "n \<le> 32" "2 ^ 15 \<le> m" "m < 2 ^ 23" "le_val (CompactToBig a) = m * 256 ^ (n - 3)"
    "le_val (ComputeChainWork a) = (2 ^ 64 - 1) div m * 256 ^ (32 - n)"
    using canonical_decompose [OF assms(1)] by metis
  obtain n' m' where b: "8 \<le> n'" "n' \<le> 32" "2 ^ 15 \<le> m'" "m' < 2 ^ 23" "le_val (CompactToBig b) = m' * 256 ^ (n' - 3)"
    "le_val (ComputeChainWork b) = (2 ^ 64 - 1) div m' * 256 ^ (32 - n')"
    using canonical_decompose [OF assms(2)] by metis
  consider "n = n'" | "n < n'" | "n' < n" by linarith
  then show ?thesis
  proof cases
    case 1
    then have "m \<le> m'" using assms(3) a(5) b(5) by simp
    then have "(2 ^ 64 - 1) div m' \<le> (2 ^ 64 - 1) div m" using a(3) by (intro div_le_mono2) simp_all
    then show ?thesis unfolding a(6) b(6) 1 by (rule mult_le_mono1)
  next
    case 2
    have "(2 ^ 64 - 1) div m' * 256 ^ (32 - n') \<le> 2 ^ 49 * 256 ^ (32 - n')"
      using div_max_bounds(2) [OF b(3,4)] by (intro mult_le_mono1) simp
    also have "\<dots> = 2 ^ 41 * 256 ^ (32 - n' + 1)" by simp
    also have "\<dots> \<le> 2 ^ 41 * 256 ^ (32 - n)"
      using 2 b(2) by (intro mult_le_mono2 power_increasing) auto
    also have "\<dots> \<le> (2 ^ 64 - 1) div m * 256 ^ (32 - n)"
      using div_max_bounds(1) [OF a(3,4)] by (intro mult_le_mono1)
    finally show ?thesis unfolding a(6) b(6) .
  next
    case 3
    have "m' * 256 ^ (n' - 3) < 2 ^ 23 * 256 ^ (n' - 3)" using b(4) by simp
    also have "\<dots> = 2 ^ 15 * 256 ^ (n' - 3 + 1)" by simp
    also have "\<dots> \<le> 2 ^ 15 * 256 ^ (n - 3)" using 3 b(1) by (intro mult_le_mono2 power_increasing) auto
    also have "\<dots> \<le> m * 256 ^ (n - 3)" using a(3) by (rule mult_le_mono1)
    finally have "le_val (CompactToBig b) < le_val (CompactToBig a)" unfolding a(5) b(5) .
    then show ?thesis using assms(3) by simp
  qed
qed

section \<open>Properties\<close>

text \<open>
  C21: the three loops that compare from the most significant byte decide the order of the 256-bit
  numbers: \<open>HashLessThan\<close> strictly less, \<open>ChainWorkGreaterThan\<close> strictly greater and
  \<open>ChainWorkGreaterOrEqual\<close> greater or equal.
\<close>

theorem compare_256:
  assumes "wf256 a" "wf256 b"
  shows "(HashLessThan a b \<longleftrightarrow> le_val a < le_val b) \<and>
     (ChainWorkGreaterThan a b \<longleftrightarrow> le_val a > le_val b) \<and>
     (ChainWorkGreaterOrEqual a b \<longleftrightarrow> le_val a \<ge> le_val b)"
  using assms by (simp add: HashLessThan_val ChainWorkGreaterThan_val ChainWorkGreaterOrEqual_val)

theorem compare_256_witness:
  "HashLessThan (9 # replicate 31 0) (replicate 31 0 @ [1]) \<and>
   \<not> ChainWorkGreaterThan (9 # replicate 31 0) (replicate 31 0 @ [1])"
  using compare_256 [of "9 # replicate 31 0" "replicate 31 0 @ [1]"]
  by (simp add: wf256_def le_val_append)



text \<open>
  The multiplication and the division of the retarget code are exact: for a factor below 2^56
  the product exists, and dividing it by a divisor up to 2^56 gives the quotient of the integers,
  reduced to 256 bits.
\<close>

theorem scale_exact:
  assumes "wf256 a" "unat b < 2 ^ 56" "0 < unat d" "unat d \<le> 2 ^ 56"
  shows "\<exists>p. Multiply256x64 a b = Some p \<and> le_val p = le_val a * unat b \<and>
     wf256 (Divide320x64 p d) \<and> le_val (Divide320x64 p d) = le_val a * unat b div unat d mod 2 ^ 256"
proof -
  obtain p where p: "Multiply256x64 a b = Some p" using Multiply256x64_total [OF assms(2)] by blast
  then have v: "length p = 40" "le_val p = le_val a * unat b"
    using Multiply256x64_val [OF p] assms(1) by (simp_all add: wf256_def)
  show ?thesis using p v Divide320x64_val [OF v(1) assms(3,4)] by (simp add: wf256_def)
qed

theorem scale_exact_witness:
  "\<exists>p. Multiply256x64 (7 # replicate 31 0) 10 = Some p \<and> le_val (Divide320x64 p 4) = 17"
  using scale_exact [of "7 # replicate 31 0" 10 4] by (auto simp: wf256_def)

text \<open>
  The byte-wise shifts of the ASERT code are the shifts of the number: left is multiplication by
  a power of two reduced to 256 bits, right is division.
\<close>

theorem shift_exact:
  assumes "wf256 v" "0 \<le> k"
  shows "le_val (ShiftTargetLeft v k) = le_val v * 2 ^ nat k mod 2 ^ 256 \<and>
     le_val (ShiftTargetRight v k) = le_val v div 2 ^ nat k \<and>
     wf256 (ShiftTargetLeft v k) \<and> wf256 (ShiftTargetRight v k)"
  using ShiftTargetLeft_val [OF assms] ShiftTargetRight_val [OF assms] by simp

theorem shift_exact_witness:
  "le_val (ShiftTargetLeft (0x81 # replicate 31 0) 9) = 0x10200 \<and>
   le_val (ShiftTargetRight (0 # 0x81 # replicate 30 0) 9) = 0x40"
  using shift_exact [of "0x81 # replicate 31 0" 9] shift_exact [of "0 # 0x81 # replicate 30 0" 9]
  by (simp add: wf256_def)

text \<open>
  Chain work. Adding saturates at 2^256 - 1 and never wraps, so the work of a chain does not
  decrease; and of two canonical targets the smaller one never counts for less work.
\<close>

theorem chain_work_monotone:
  assumes "wf256 x" "canonical_compact a" "canonical_compact b"
  shows "le_val (AddChainWork x (ComputeChainWork a)) =
       min (le_val x + le_val (ComputeChainWork a)) (2 ^ 256 - 1) \<and>
     le_val x \<le> le_val (AddChainWork x (ComputeChainWork a)) \<and>
     (le_val (CompactToBig a) \<le> le_val (CompactToBig b) \<longrightarrow>
        le_val (ComputeChainWork b) \<le> le_val (ComputeChainWork a))"
proof -
  have "le_val x \<le> 2 ^ 256 - 1" using le_val_bound [of x] assms(1) by (simp add: wf256_def)
  then show ?thesis
    using AddChainWork_val [OF assms(1), of "ComputeChainWork a"] ComputeChainWork_val [of a]
      chain_work_antitone_lemma [OF assms(2,3)] by simp
qed

theorem chain_work_monotone_witness:
  "le_val (ComputeChainWork 0x1f0fffff) \<le> le_val (ComputeChainWork 0x1d00ffff)"
proof -
  have "canonical_compact 0x1d00ffff" "canonical_compact 0x1f0fffff"
    by (simp_all add: canonical_compact_def)
  moreover have "le_val (CompactToBig 0x1d00ffff) \<le> le_val (CompactToBig 0x1f0fffff)"
    by (simp add: CompactToBig_val)
  ultimately show ?thesis using chain_work_monotone [OF wf256_zero] by blast
qed

end
