(* ===== verification/BlockIndex.thy ===== *)
theory BlockIndex
  imports Block Arith256
begin

text \<open>
  \<open>src/src/node/block_index.h\<close> and \<open>block_index.cpp\<close>: the entries of the block tree. A pointer to an
  entry is an address (a natural number) in a store of entries, \<open>None\<close> for \<open>nullptr\<close>; the copy
  constructor and \<open>ToString\<close> have no model of their own.
\<close>

record CBlockIndex =
  header :: CBlockHeader
  pprev :: "nat option"
  pnext :: "nat option"
  pskip :: "nat option"
  nHeight :: int
  nFile :: int
  nDataPos :: u32
  nUndoPos :: u32
  nChainWork :: uint256
  nTx :: u32
  nStatus :: u32
  nSequenceId :: u32
  nTime :: u32
  nBits :: u32
  nNonce :: u32
  bi_nVersion :: i32
  phashBlock :: uint256

type_synonym block_store = "nat \<Rightarrow> CBlockIndex option"

definition CBlockIndex_default :: CBlockIndex where
  "CBlockIndex_default = \<lparr>header = CBlockHeader_SetNull, pprev = None, pnext = None, pskip = None,
     nHeight = 0, nFile = 0, nDataPos = 0, nUndoPos = 0, nChainWork = zero256, nTx = 0, nStatus = 0,
     nSequenceId = 0, nTime = 0, nBits = 0, nNonce = 0, bi_nVersion = 0, phashBlock = zero256\<rparr>"

definition CBlockIndex_of_header :: "CBlockHeader \<Rightarrow> CBlockIndex" where
  "CBlockIndex_of_header block = CBlockIndex_default\<lparr>header := block, nTime := hdr_nTime block,
     nBits := hdr_nBits block, nNonce := hdr_nNonce block, bi_nVersion := hdr_nVersion block\<rparr>"

section \<open>Status flags\<close>

definition BLOCK_VALID_HEADER :: u32 where "BLOCK_VALID_HEADER = 1"
definition BLOCK_VALID_TRANSACTIONS :: u32 where "BLOCK_VALID_TRANSACTIONS = 3"
definition BLOCK_VALID_MASK :: u32 where "BLOCK_VALID_MASK = 0x07"
definition BLOCK_HAVE_DATA :: u32 where "BLOCK_HAVE_DATA = 0x08"
definition BLOCK_FAILED_VALID :: u32 where "BLOCK_FAILED_VALID = 0x20"
definition BLOCK_FAILED_CHILD :: u32 where "BLOCK_FAILED_CHILD = 0x40"

definition BLOCK_FAILED_MASK :: u32 where
  "BLOCK_FAILED_MASK = (BLOCK_FAILED_VALID OR BLOCK_FAILED_CHILD)"

definition IsInvalid :: "CBlockIndex \<Rightarrow> bool" where
  "IsInvalid b \<longleftrightarrow> nStatus b AND BLOCK_FAILED_MASK \<noteq> 0"

definition IsValid :: "CBlockIndex \<Rightarrow> bool" where
  "IsValid b \<longleftrightarrow> nStatus b AND BLOCK_VALID_MASK \<ge> BLOCK_VALID_HEADER"

definition HaveData :: "CBlockIndex \<Rightarrow> bool" where
  "HaveData b \<longleftrightarrow> nStatus b AND BLOCK_HAVE_DATA \<noteq> 0"

definition RaiseValidity :: "CBlockIndex \<Rightarrow> u32 \<Rightarrow> bool \<times> CBlockIndex" where
  "RaiseValidity b level =
     (let level = level AND BLOCK_VALID_MASK
      in if nStatus b AND BLOCK_VALID_MASK < level
         then (True, b\<lparr>nStatus := (nStatus b AND NOT BLOCK_VALID_MASK) OR level\<rparr>)
         else (False, b))"

definition MarkBlockReceived :: "CBlockIndex \<Rightarrow> CBlockIndex" where
  "MarkBlockReceived b =
     snd (RaiseValidity (b\<lparr>nStatus := nStatus b OR BLOCK_HAVE_DATA\<rparr>) BLOCK_VALID_TRANSACTIONS)"

definition GetBlockHash :: "CBlockIndex \<Rightarrow> uint256" where
  "GetBlockHash b = (if IsNull256 (phashBlock b) then zero256 else phashBlock b)"

section \<open>Chain work\<close>

definition GetBlockProof :: "CBlockIndex \<Rightarrow> uint256" where
  "GetBlockProof b = ComputeChainWork (nBits b)"

text \<open>\<open>BuildChainWork\<close> on the entry at \<open>p\<close>; an entry or parent that is not in the store is an invalid pointer.\<close>

definition BuildChainWork :: "block_store \<Rightarrow> nat \<Rightarrow> block_store" where
  "BuildChainWork st p =
     (case st p of None \<Rightarrow> st
      | Some b \<Rightarrow>
          (case pprev b of
             None \<Rightarrow> st(p \<mapsto> b\<lparr>nChainWork := GetBlockProof b\<rparr>)
           | Some q \<Rightarrow>
               (case st q of None \<Rightarrow> st
                | Some parent \<Rightarrow>
                    st(p \<mapsto> b\<lparr>nChainWork := AddChainWork (nChainWork parent) (GetBlockProof b)\<rparr>))))"

section \<open>Ancestors\<close>

definition InvertLowestOne :: "int \<Rightarrow> int" where
  "InvertLowestOne n = n AND (n - 1)"

definition GetSkipHeight :: "int \<Rightarrow> int" where
  "GetSkipHeight height =
     (if height < 2 then 0
      else if height AND 1 \<noteq> 0 then InvertLowestOne (InvertLowestOne (height - 1)) + 1
      else InvertLowestOne height)"

text \<open>
  The walk of \<open>GetAncestor\<close>. The outer option is \<open>None\<close> when the walk does not return or follows
  an invalid pointer; the inner one is the returned pointer.
\<close>

partial_function (option) GetAncestor_walk :: "block_store \<Rightarrow> nat \<Rightarrow> int \<Rightarrow> int \<Rightarrow> nat option option" where
  "GetAncestor_walk st pindexWalk heightWalk height =
     (if heightWalk > height then
        (let heightSkip = GetSkipHeight heightWalk;
             heightSkipPrev = GetSkipHeight (heightWalk - 1)
         in case st pindexWalk of None \<Rightarrow> None
            | Some b \<Rightarrow>
                (case pskip b of
                   None \<Rightarrow>
                     (case pprev b of None \<Rightarrow> Some None
                      | Some q \<Rightarrow> GetAncestor_walk st q (heightWalk - 1) height)
                 | Some s \<Rightarrow>
                     (case st s of None \<Rightarrow> None
                      | Some bs \<Rightarrow>
                          if nHeight bs \<ge> height \<or> heightSkip < heightSkipPrev
                          then GetAncestor_walk st s (nHeight bs) height
                          else
                            (case pprev b of None \<Rightarrow> Some None
                             | Some q \<Rightarrow> GetAncestor_walk st q (heightWalk - 1) height))))
      else Some (Some pindexWalk))"

definition GetAncestor :: "block_store \<Rightarrow> nat \<Rightarrow> int \<Rightarrow> nat option option" where
  "GetAncestor st p height =
     (case st p of None \<Rightarrow> None
      | Some b \<Rightarrow>
          if height > nHeight b \<or> height < 0 then Some None
          else if height = nHeight b then Some (Some p)
          else GetAncestor_walk st p (nHeight b) height)"

section \<open>The tree of entries\<close>

text \<open>
  What the node maintains: every parent pointer is valid, heights go up by one from a root at height
  0. \<open>nth_parent st p k\<close> follows \<open>k\<close> parent pointers.
\<close>

definition wf_store :: "block_store \<Rightarrow> bool" where
  "wf_store st \<longleftrightarrow> (\<forall>p b. st p = Some b \<longrightarrow>
     (case pprev b of None \<Rightarrow> nHeight b = 0
      | Some q \<Rightarrow> nHeight b > 0 \<and> (\<exists>b'. st q = Some b' \<and> nHeight b' = nHeight b - 1)))"

definition no_skips :: "block_store \<Rightarrow> bool" where
  "no_skips st \<longleftrightarrow> (\<forall>p b. st p = Some b \<longrightarrow> pskip b = None)"

fun nth_parent :: "block_store \<Rightarrow> nat \<Rightarrow> nat \<Rightarrow> nat option" where
  "nth_parent st p 0 = Some p"
| "nth_parent st p (Suc k) =
     (case st p of None \<Rightarrow> None
      | Some b \<Rightarrow> (case pprev b of None \<Rightarrow> None | Some q \<Rightarrow> nth_parent st q k))"

definition works_built :: "block_store \<Rightarrow> bool" where
  "works_built st \<longleftrightarrow> (\<forall>p b. st p = Some b \<longrightarrow>
     nChainWork b = (case pprev b of None \<Rightarrow> GetBlockProof b
       | Some q \<Rightarrow> AddChainWork (nChainWork (the (st q))) (GetBlockProof b)))"

text \<open>The sum of the proofs of an entry and its ancestors.\<close>

fun work_sum :: "block_store \<Rightarrow> nat \<Rightarrow> nat \<Rightarrow> nat" where
  "work_sum st p 0 = (case st p of None \<Rightarrow> 0 | Some b \<Rightarrow> le_val (GetBlockProof b))"
| "work_sum st p (Suc k) =
     (case st p of None \<Rightarrow> 0
      | Some b \<Rightarrow> le_val (GetBlockProof b) + (case pprev b of None \<Rightarrow> 0 | Some q \<Rightarrow> work_sum st q k))"

section \<open>Lemmas\<close>

lemma wf_storeD:
  assumes "wf_store st" "st p = Some b"
  shows "nHeight b \<ge> 0" "pprev b = None \<longleftrightarrow> nHeight b = 0"
    "pprev b = Some q \<Longrightarrow> \<exists>b'. st q = Some b' \<and> nHeight b' = nHeight b - 1"
  using assms by (force simp: wf_store_def split: option.splits)+

lemma GetAncestor_walk_parent:
  assumes "wf_store st" "no_skips st"
  shows "st p = Some b \<Longrightarrow> nHeight b = height + int k \<Longrightarrow> height \<ge> 0 \<Longrightarrow>
     \<exists>q b'. GetAncestor_walk st p (nHeight b) height = Some (Some q) \<and> nth_parent st p k = Some q \<and>
       st q = Some b' \<and> nHeight b' = height"
proof (induction k arbitrary: p b)
  case 0
  then show ?case by (subst GetAncestor_walk.simps) auto
next
  case (Suc k)
  have sk: "pskip b = None" using assms(2) Suc.prems(1) by (simp add: no_skips_def)
  obtain q where q: "pprev b = Some q" using wf_storeD(2) [OF assms(1) Suc.prems(1)] Suc.prems by (cases "pprev b") auto
  obtain bq where bq: "st q = Some bq" "nHeight bq = nHeight b - 1"
    using wf_storeD(3) [OF assms(1) Suc.prems(1) q] by blast
  have "GetAncestor_walk st p (nHeight b) height = GetAncestor_walk st q (nHeight bq) height"
    using Suc.prems sk q bq(2) by (subst GetAncestor_walk.simps) (simp add: Let_def)
  then show ?case
    using Suc.IH [OF bq(1)] Suc.prems bq q by simp
qed

lemma GetAncestor_parent:
  assumes "wf_store st" "no_skips st" "st p = Some b"
  shows "GetAncestor st p height =
    (if height < 0 \<or> nHeight b < height then Some None else Some (nth_parent st p (nat (nHeight b - height))))"
proof (cases "height < 0 \<or> nHeight b < height")
  case True
  then show ?thesis using assms(3) by (auto simp: GetAncestor_def)
next
  case False
  obtain q where "GetAncestor_walk st p (nHeight b) height = Some (Some q)"
    "nth_parent st p (nat (nHeight b - height)) = Some q"
    using GetAncestor_walk_parent [OF assms(1,2,3), of height "nat (nHeight b - height)"] False by auto
  then show ?thesis using False assms(3) by (auto simp: GetAncestor_def)
qed

lemma RaiseValidity_level:
  defines "lev \<equiv> \<lambda>b. nStatus b AND BLOCK_VALID_MASK"
  shows "lev (snd (RaiseValidity b l)) = max (lev b) (l AND BLOCK_VALID_MASK)"
    "nStatus (snd (RaiseValidity b l)) AND NOT BLOCK_VALID_MASK = nStatus b AND NOT BLOCK_VALID_MASK"
    "fst (RaiseValidity b l) \<longleftrightarrow> lev b < l AND BLOCK_VALID_MASK"
proof -
  have m: "((s AND NOT BLOCK_VALID_MASK) OR (l AND BLOCK_VALID_MASK)) AND BLOCK_VALID_MASK = l AND BLOCK_VALID_MASK"
    "((s AND NOT BLOCK_VALID_MASK) OR (l AND BLOCK_VALID_MASK)) AND NOT BLOCK_VALID_MASK = s AND NOT BLOCK_VALID_MASK" for s l
    by (intro bit_word_eqI; auto simp: bit_simps)+
  show "lev (snd (RaiseValidity b l)) = max (lev b) (l AND BLOCK_VALID_MASK)"
    by (auto simp: lev_def RaiseValidity_def Let_def m max_def)
  show "nStatus (snd (RaiseValidity b l)) AND NOT BLOCK_VALID_MASK = nStatus b AND NOT BLOCK_VALID_MASK"
    by (auto simp: RaiseValidity_def Let_def m)
  show "fst (RaiseValidity b l) \<longleftrightarrow> lev b < l AND BLOCK_VALID_MASK"
    by (auto simp: lev_def RaiseValidity_def Let_def)
qed

lemma works_builtD:
  assumes "works_built st" "st p = Some b"
  shows "pprev b = None \<Longrightarrow> nChainWork b = GetBlockProof b"
    "pprev b = Some q \<Longrightarrow> st q = Some b' \<Longrightarrow> nChainWork b = AddChainWork (nChainWork b') (GetBlockProof b)"
  using assms by (force simp: works_built_def)+

lemma wf256_GetBlockProof: "wf256 (GetBlockProof b)"
  using ComputeChainWork_val [of "nBits b"] by (simp add: GetBlockProof_def)

lemma le_val_256_le: "wf256 x \<Longrightarrow> le_val x \<le> 2 ^ 256 - 1"
  using le_val_bound [of x] by (simp add: wf256_def)

lemma chain_work_sum_lemma:
  assumes "wf_store st" "works_built st"
  shows "st p = Some b \<Longrightarrow> nHeight b = int k \<Longrightarrow>
    wf256 (nChainWork b) \<and> le_val (nChainWork b) = min (work_sum st p k) (2 ^ 256 - 1)"
proof (induction k arbitrary: p b)
  case 0
  then have "pprev b = None" using wf_storeD(2) [OF assms(1)] by simp
  then show ?case
    using works_builtD(1) [OF assms(2) "0.prems"(1)] "0.prems"(1) wf256_GetBlockProof [of b]
      le_val_256_le [OF wf256_GetBlockProof [of b]] by simp
next
  case (Suc k)
  obtain q where q: "pprev b = Some q" using wf_storeD(2) [OF assms(1) Suc.prems(1)] Suc.prems by (cases "pprev b") auto
  obtain bq where bq: "st q = Some bq" "nHeight bq = nHeight b - 1"
    using wf_storeD(3) [OF assms(1) Suc.prems(1) q] by blast
  have IH: "wf256 (nChainWork bq)" "le_val (nChainWork bq) = min (work_sum st q k) (2 ^ 256 - 1)"
    using Suc.IH [OF bq(1)] bq(2) Suc.prems(2) by simp_all
  show ?case
    using AddChainWork_val [OF IH(1) wf256_GetBlockProof [of b]] works_builtD(2) [OF assms(2) Suc.prems(1) q bq(1)]
      Suc.prems(1) q IH(2) by (simp add: min_def)
qed

lemma BuildChainWork_leaf:
  assumes "wf_store st" "works_built st" "st p = None"
    and "case pprev b of None \<Rightarrow> nHeight b = 0
         | Some q \<Rightarrow> \<exists>b'. st q = Some b' \<and> nHeight b = nHeight b' + 1"
  shows "wf_store (BuildChainWork (st(p \<mapsto> b)) p)" "works_built (BuildChainWork (st(p \<mapsto> b)) p)"
proof -
  define w where "w = (case pprev b of None \<Rightarrow> GetBlockProof b
     | Some q \<Rightarrow> AddChainWork (nChainWork (the (st q))) (GetBlockProof b))"
  have np: "pprev b \<noteq> Some p" using assms(3,4) by auto
  have e: "BuildChainWork (st(p \<mapsto> b)) p = st(p \<mapsto> b\<lparr>nChainWork := w\<rparr>)"
    using assms(3,4) np by (auto simp: BuildChainWork_def w_def split: option.splits)
  have par: "pprev b' = Some q \<Longrightarrow> st p' = Some b' \<Longrightarrow> q \<noteq> p" for p' b' q
    using wf_storeD(3) [OF assms(1)] assms(3) by fastforce
  show "wf_store (BuildChainWork (st(p \<mapsto> b)) p)"
    unfolding e wf_store_def
  proof (intro allI impI)
    fix p' b' assume s: "(st(p \<mapsto> b\<lparr>nChainWork := w\<rparr>)) p' = Some b'"
    show "case pprev b' of None \<Rightarrow> nHeight b' = 0
       | Some q \<Rightarrow> nHeight b' > 0 \<and> (\<exists>b''. (st(p \<mapsto> b\<lparr>nChainWork := w\<rparr>)) q = Some b'' \<and> nHeight b'' = nHeight b' - 1)"
    proof (cases "p' = p")
      case True
      then have b': "b' = b\<lparr>nChainWork := w\<rparr>" using s by simp
      show ?thesis
      proof (cases "pprev b")
        case None
        then show ?thesis using assms(4) b' by simp
      next
        case (Some q)
        then obtain bq where "st q = Some bq" "nHeight b = nHeight bq + 1" using assms(4) by auto
        then show ?thesis using Some b' np wf_storeD(1) [OF assms(1), of q bq] by auto
      qed
    next
      case False
      then have "st p' = Some b'" using s by simp
      then show ?thesis
        using wf_storeD [OF assms(1), of p' b'] par [of b' _ p'] by (cases "pprev b'") force+
    qed
  qed
  show "works_built (BuildChainWork (st(p \<mapsto> b)) p)"
    unfolding e works_built_def
  proof (intro allI impI)
    fix p' b' assume s: "(st(p \<mapsto> b\<lparr>nChainWork := w\<rparr>)) p' = Some b'"
    show "nChainWork b' = (case pprev b' of None \<Rightarrow> GetBlockProof b'
       | Some q \<Rightarrow> AddChainWork (nChainWork (the ((st(p \<mapsto> b\<lparr>nChainWork := w\<rparr>)) q))) (GetBlockProof b'))"
    proof (cases "p' = p")
      case True
      then show ?thesis using s np by (auto simp: w_def GetBlockProof_def split: option.splits)
    next
      case False
      then have "st p' = Some b'" using s by simp
      then show ?thesis
        using assms(2) par [of b' _ p'] unfolding works_built_def by (auto split: option.splits)
    qed
  qed
qed

lemma mask_absorb:
  "(x :: u32) AND 0x08 = (x AND NOT BLOCK_VALID_MASK) AND 0x08"
  "x AND 0x60 = (x AND NOT BLOCK_VALID_MASK) AND 0x60"
proof -
  have "NOT BLOCK_VALID_MASK AND 0x08 = 0x08" "NOT BLOCK_VALID_MASK AND 0x60 = 0x60"
    by (simp_all add: BLOCK_VALID_MASK_def)
  then show "x AND 0x08 = (x AND NOT BLOCK_VALID_MASK) AND 0x08"
    "x AND 0x60 = (x AND NOT BLOCK_VALID_MASK) AND 0x60"
    by (simp_all only: and.assoc)
qed

lemma MarkBlockReceived_flags:
  "nStatus (MarkBlockReceived b) AND 0x08 = 0x08"
  "nStatus (MarkBlockReceived b) AND 0x60 = nStatus b AND 0x60"
  "nStatus (MarkBlockReceived b) AND BLOCK_VALID_MASK \<ge> BLOCK_VALID_TRANSACTIONS"
proof -
  let ?s = "nStatus b OR 0x08"
  have x: "nStatus (MarkBlockReceived b) AND NOT BLOCK_VALID_MASK = ?s AND NOT BLOCK_VALID_MASK"
    unfolding MarkBlockReceived_def RaiseValidity_level(2) by (simp add: BLOCK_HAVE_DATA_def)
  have "nStatus (MarkBlockReceived b) AND 0x08 = ?s AND 0x08"
    "nStatus (MarkBlockReceived b) AND 0x60 = ?s AND 0x60"
    using x mask_absorb by metis+
  then show "nStatus (MarkBlockReceived b) AND 0x08 = 0x08"
    "nStatus (MarkBlockReceived b) AND 0x60 = nStatus b AND 0x60"
    by (simp_all add: bit.conj_disj_distrib2)
  show "nStatus (MarkBlockReceived b) AND BLOCK_VALID_MASK \<ge> BLOCK_VALID_TRANSACTIONS"
    unfolding MarkBlockReceived_def RaiseValidity_level(1)
    by (simp add: BLOCK_VALID_TRANSACTIONS_def BLOCK_VALID_MASK_def)
qed

lemma MarkBlockReceived_idem: "MarkBlockReceived (MarkBlockReceived b) = MarkBlockReceived b"
proof -
  let ?m = "MarkBlockReceived b"
  have "nStatus ?m OR BLOCK_HAVE_DATA = nStatus ?m OR (nStatus ?m AND 0x08)"
    by (simp only: MarkBlockReceived_flags(1) BLOCK_HAVE_DATA_def)
  also have "\<dots> = nStatus ?m" by (rule bit_word_eqI) (auto simp: bit_simps)
  finally have "?m\<lparr>nStatus := nStatus ?m OR BLOCK_HAVE_DATA\<rparr> = ?m" by simp
  moreover have "\<not> nStatus ?m AND BLOCK_VALID_MASK < BLOCK_VALID_TRANSACTIONS AND BLOCK_VALID_MASK"
    using MarkBlockReceived_flags(3) [of b] by (simp add: BLOCK_VALID_TRANSACTIONS_def BLOCK_VALID_MASK_def not_less)
  ultimately show ?thesis
    unfolding MarkBlockReceived_def [of ?m] by (simp add: RaiseValidity_def Let_def)
qed

section \<open>Properties\<close>

definition ex_chain :: "nat \<Rightarrow> CBlockIndex" where
  "ex_chain n = CBlockIndex_default\<lparr>nHeight := int n, nBits := 0x1d00ffff,
     pprev := (if n = 0 then None else Some (n - 1))\<rparr>"

definition ex_store :: block_store where
  "ex_store n = Some (ex_chain n)"

definition ex_skip_store :: block_store where
  "ex_skip_store n = Some ((ex_chain n)\<lparr>pskip := (if n = 0 then None else Some (nat (GetSkipHeight (int n))))\<rparr>)"

lemma wf_ex_store: "wf_store ex_store" "no_skips ex_store"
  by (auto simp: wf_store_def no_skips_def ex_store_def ex_chain_def CBlockIndex_default_def of_nat_diff)



text \<open>
  With skip pointers set to the heights of \<open>GetSkipHeight\<close>, \<open>GetAncestor\<close> overshoots: asked for
  the ancestor of block 8 at height 5 it follows the skip pointer to block 0, because the skip height of 8
  is below that of 7, and returns block 0.
\<close>

theorem ancestor_skip_overshoots:
  "GetAncestor ex_skip_store 8 5 = Some (Some 0) \<and> nth_parent ex_skip_store 8 3 = Some 5"
proof -
  have "GetSkipHeight 8 = 0" "GetSkipHeight 7 = 1" by (simp_all add: GetSkipHeight_def InvertLowestOne_def)
  then have "GetAncestor_walk ex_skip_store 8 8 5 = GetAncestor_walk ex_skip_store 0 0 5"
    by (subst GetAncestor_walk.simps) (simp add: ex_skip_store_def ex_chain_def CBlockIndex_default_def)
  moreover have "GetAncestor_walk ex_skip_store 0 0 5 = Some (Some 0)"
    by (subst GetAncestor_walk.simps) simp
  ultimately show ?thesis
    by (simp add: GetAncestor_def ex_skip_store_def ex_chain_def CBlockIndex_default_def numeral_eq_Suc)
qed

text \<open>
  The status word. \<open>RaiseValidity\<close> sets the validity level to the maximum of the old and the
  requested one, reports whether it rose and touches no flag bit; \<open>MarkBlockReceived\<close> sets the data
  flag, brings the level to at least \<open>BLOCK_VALID_TRANSACTIONS\<close>, keeps the failure flags and does
  nothing the second time.
\<close>

theorem status_flags:
  "nStatus (snd (RaiseValidity b l)) AND BLOCK_VALID_MASK =
     max (nStatus b AND BLOCK_VALID_MASK) (l AND BLOCK_VALID_MASK) \<and>
   nStatus (snd (RaiseValidity b l)) AND NOT BLOCK_VALID_MASK = nStatus b AND NOT BLOCK_VALID_MASK \<and>
   fst (RaiseValidity b l) = (nStatus b AND BLOCK_VALID_MASK < l AND BLOCK_VALID_MASK) \<and>
   HaveData (MarkBlockReceived b) \<and> IsValid (MarkBlockReceived b) \<and>
   IsInvalid (MarkBlockReceived b) = IsInvalid b \<and>
   nStatus (MarkBlockReceived b) AND BLOCK_VALID_MASK \<ge> BLOCK_VALID_TRANSACTIONS \<and>
   MarkBlockReceived (MarkBlockReceived b) = MarkBlockReceived b"
proof -
  have "BLOCK_VALID_HEADER \<le> BLOCK_VALID_TRANSACTIONS"
    by (simp add: BLOCK_VALID_HEADER_def BLOCK_VALID_TRANSACTIONS_def)
  then have "IsValid (MarkBlockReceived b)"
    unfolding IsValid_def using MarkBlockReceived_flags(3) by (rule order_trans)
  moreover have "HaveData (MarkBlockReceived b)" "IsInvalid (MarkBlockReceived b) = IsInvalid b"
    using MarkBlockReceived_flags(1,2) [of b]
    by (simp_all add: HaveData_def IsInvalid_def BLOCK_HAVE_DATA_def BLOCK_FAILED_MASK_def
        BLOCK_FAILED_VALID_def BLOCK_FAILED_CHILD_def)
  ultimately show ?thesis
    using RaiseValidity_level MarkBlockReceived_flags(3) MarkBlockReceived_idem by blast
qed

text \<open>
  C26: cumulative work. In a well-formed tree whose entries had their work built, the work of an entry is
  the sum of the proofs of the entry and all its ancestors, saturated at 2^256 - 1; building the work of a
  new leaf keeps the tree so.
\<close>

theorem chain_work_sum:
  assumes "wf_store st" "works_built st"
  shows "(st p = Some b \<longrightarrow> le_val (nChainWork b) = min (work_sum st p (nat (nHeight b))) (2 ^ 256 - 1)) \<and>
    (st q = None \<and> (case pprev c of None \<Rightarrow> nHeight c = 0 | Some r \<Rightarrow> \<exists>b'. st r = Some b' \<and> nHeight c = nHeight b' + 1)
      \<longrightarrow> wf_store (BuildChainWork (st(q \<mapsto> c)) q) \<and> works_built (BuildChainWork (st(q \<mapsto> c)) q))"
  using chain_work_sum_lemma [OF assms, of p b "nat (nHeight b)"] wf_storeD(1) [OF assms(1), of p b]
    BuildChainWork_leaf [OF assms, of q c] by auto

theorem chain_work_sum_witness:
  "works_built (BuildChainWork (Map.empty(0 \<mapsto> ex_chain 0)) 0)"
  using chain_work_sum [of Map.empty 0 undefined 0 "ex_chain 0"]
  by (simp add: wf_store_def works_built_def ex_chain_def CBlockIndex_default_def)

end
