(* ===== verification/Params.thy ===== *)
theory Params
  imports Block
begin

text \<open>
  \<open>src/src/core/chainparams.h\<close> and \<open>chainparams.cpp\<close>: the consensus parameters of the networks with
  their checkpoints, and the checkpoint queries. Ports, directories, genesis texts, seed lists, relay
  targets and the parameters of features outside this development are left out of the record.
\<close>

datatype Network = MAINNET | TESTNET | DILV | REGTEST

record CCheckpoint =
  cp_nHeight :: int
  cp_hashBlock :: uint256

text \<open>\<open>Consensus::MAX_BLOCK_SIZE\<close> of \<open>consensus/params.h\<close>.\<close>

definition MAX_BLOCK_SIZE :: nat where
  "MAX_BLOCK_SIZE = 4 * 1024 * 1024"

definition uint256S :: "string \<Rightarrow> uint256" where
  "uint256S str = the (SetHex str)"

record ChainParams =
  cp_network :: Network
  networkMagic :: u32
  chainID :: u32
  genesisTime :: u32
  genesisNonce :: u32
  genesisNBits :: u32
  blockTime :: int
  halvingInterval :: nat
  difficultyAdjustment :: int
  difficultyAdjustmentV2 :: int
  difficultyForkHeight :: int
  difficultyMaxChange :: int
  difficultyV3ForkHeight :: int
  maxBlockSize :: nat
  initialReward :: nat
  fPowAllowMinDifficultyBlocks :: bool
  edaActivationHeight :: int
  dfmpActivationHeight :: int
  dfmpAssumeValidHeight :: int
  dfmpV3ActivationHeight :: int
  registrationPowBits :: int
  dfmpDynamicScalingHeight :: int
  dfmpV31ActivationHeight :: int
  dfmpV32ActivationHeight :: int
  dfmpV33ActivationHeight :: int
  dfmpV34ActivationHeight :: int
  compactEncodingFixHeight :: int
  asertActivationHeight :: int
  asertHalflife :: int
  timestampValidationHeight :: int
  vdfActivationHeight :: int
  vdfExclusiveHeight :: int
  vdfIterations :: nat
  vdfCooldownActiveWindow :: int
  dfmpCooldownConsensusHeight :: int
  vdfCooldownShortWindow :: int
  stabilizationForkHeight :: int
  timeDecayCooldownActivationHeight :: int
  cooldownTimeDecaySeconds :: int
  minBlockTimestampGap :: int
  minBlockTimestampGapHeight :: int
  coinbaseMaturity :: int
  scriptV2ActivationHeight :: int
  dnaCommitmentActivationHeight :: int
  checkpoints :: "CCheckpoint list"

definition Mainnet :: ChainParams where
  "Mainnet = \<lparr>
     cp_network = MAINNET,
     networkMagic = 0xD1714102,
     chainID = 1,
     genesisTime = 1737158400,
     genesisNonce = 429612875,
     genesisNBits = 0x1e01fffe,
     blockTime = 240,
     halvingInterval = 210000,
     difficultyAdjustment = 2016,
     difficultyAdjustmentV2 = 360,
     difficultyForkHeight = 18500,
     difficultyMaxChange = 2,
     difficultyV3ForkHeight = 20520,
     maxBlockSize = MAX_BLOCK_SIZE,
     initialReward = 50 * 100000000,
     fPowAllowMinDifficultyBlocks = False,
     edaActivationHeight = 7034,
     dfmpActivationHeight = 0,
     dfmpAssumeValidHeight = 44000,
     dfmpV3ActivationHeight = 7000,
     registrationPowBits = 28,
     dfmpDynamicScalingHeight = 7100,
     dfmpV31ActivationHeight = 7168,
     dfmpV32ActivationHeight = 13250,
     dfmpV33ActivationHeight = 13500,
     dfmpV34ActivationHeight = 999999999,
     compactEncodingFixHeight = 18500,
     asertActivationHeight = 23040,
     asertHalflife = 34560,
     timestampValidationHeight = 24500,
     vdfActivationHeight = 999999999,
     vdfExclusiveHeight = 999999999,
     vdfIterations = 5000000,
     vdfCooldownActiveWindow = 360,
     dfmpCooldownConsensusHeight = 999999999,
     vdfCooldownShortWindow = 0,
     stabilizationForkHeight = 999999999,
     timeDecayCooldownActivationHeight = 999999999,
     cooldownTimeDecaySeconds = 60,
     minBlockTimestampGap = 0,
     minBlockTimestampGapHeight = 0,
     coinbaseMaturity = 100,
     scriptV2ActivationHeight = 999999999,
     dnaCommitmentActivationHeight = 40000,
     checkpoints =
       [\<lparr>cp_nHeight = 1000, cp_hashBlock = uint256S ''000000006c282edbcc0f2eee5b0f8c8feb62c73d3787137037e589db99cab59f''\<rparr>,
        \<lparr>cp_nHeight = 2000, cp_hashBlock = uint256S ''0000002c86158454f79a22a31dcabcaca7861f7e95e98275439dd66f4f9e8b4d''\<rparr>,
        \<lparr>cp_nHeight = 5000, cp_hashBlock = uint256S ''00000152698282228ce368858d4070bc9da937ff2ed5c6276adf45dd9d299ee9''\<rparr>,
        \<lparr>cp_nHeight = 10000, cp_hashBlock = uint256S ''000032dc7d684254b446b7568ec895b3279e1230d5a6b6a42e5552e1d45f8402''\<rparr>,
        \<lparr>cp_nHeight = 11000, cp_hashBlock = uint256S ''000009628d3af9adef443ee681d19e4ff7c9d8f56a0b05acce8f55e43f88a6cf''\<rparr>,
        \<lparr>cp_nHeight = 13000, cp_hashBlock = uint256S ''000001fe5b08776d2f96e3fca8a30ad4113e8e2d998f800e70b06e73454380c7''\<rparr>,
        \<lparr>cp_nHeight = 16500, cp_hashBlock = uint256S ''000000b37d07c641b2b0e18ff7931300ac76ee083eae2522632b343ee221475f''\<rparr>,
        \<lparr>cp_nHeight = 18500, cp_hashBlock = uint256S ''0000000c9cbfc8c909156c22b37437183ece80257851d5dc324312497d3f2a37''\<rparr>,
        \<lparr>cp_nHeight = 23000, cp_hashBlock = uint256S ''00000a5bbef0e203c6b013976bbe4a3afc401975d5d4405298691d6620f47fa6''\<rparr>,
        \<lparr>cp_nHeight = 24476, cp_hashBlock = uint256S ''000007289cc3fdbe88a572d84f974a49fb962eda7412312c28930153ae52d611''\<rparr>,
        \<lparr>cp_nHeight = 30000, cp_hashBlock = uint256S ''0000000f1cadcbc897976ebe04f1171a5d591ebdb580bdd229d2e310f1a09f05''\<rparr>,
        \<lparr>cp_nHeight = 34000, cp_hashBlock = uint256S ''00000009b2312644f10b286934ed982520e92aaa54b2736e46f365a77bd92d98''\<rparr>,
        \<lparr>cp_nHeight = 40000, cp_hashBlock = uint256S ''000000271909e84a5a31fe60c27a9e40a2a51828efc89c6af059a2db2f6e2576''\<rparr>,
        \<lparr>cp_nHeight = 44000, cp_hashBlock = uint256S ''0000002751fc99551f4fce1f2e92053b2432788f1dc12412fd81223204d11377''\<rparr>,
        \<lparr>cp_nHeight = 54000, cp_hashBlock = uint256S ''0000000bb44c964b4e3c6fec8c15941738cd74b434bafbfe4aadce898140b993''\<rparr>]\<rparr>"

definition Testnet :: ChainParams where
  "Testnet = \<lparr>
     cp_network = TESTNET,
     networkMagic = 0xDAB5BFFA,
     chainID = 1001,
     genesisTime = 1774656000,
     genesisNonce = 0,
     genesisNBits = 0x1d00ffff,
     blockTime = 60,
     halvingInterval = 210000,
     difficultyAdjustment = 2016,
     difficultyAdjustmentV2 = 360,
     difficultyForkHeight = 0,
     difficultyMaxChange = 2,
     difficultyV3ForkHeight = 0,
     maxBlockSize = MAX_BLOCK_SIZE,
     initialReward = 50 * 100000000,
     fPowAllowMinDifficultyBlocks = True,
     edaActivationHeight = 0,
     dfmpActivationHeight = 0,
     dfmpAssumeValidHeight = 86850,
     dfmpV3ActivationHeight = 87000,
     registrationPowBits = 24,
     dfmpDynamicScalingHeight = 0,
     dfmpV31ActivationHeight = 0,
     dfmpV32ActivationHeight = 0,
     dfmpV33ActivationHeight = 0,
     dfmpV34ActivationHeight = 999999999,
     compactEncodingFixHeight = 0,
     asertActivationHeight = 999999999,
     asertHalflife = 8640,
     timestampValidationHeight = 0,
     vdfActivationHeight = 0,
     vdfExclusiveHeight = 0,
     vdfIterations = 500000,
     vdfCooldownActiveWindow = 200,
     dfmpCooldownConsensusHeight = 0,
     vdfCooldownShortWindow = 0,
     stabilizationForkHeight = 0,
     timeDecayCooldownActivationHeight = 0,
     cooldownTimeDecaySeconds = 60,
     minBlockTimestampGap = 45,
     minBlockTimestampGapHeight = 0,
     coinbaseMaturity = 100,
     scriptV2ActivationHeight = 0,
     dnaCommitmentActivationHeight = 999999999,
     checkpoints =
       [\<lparr>cp_nHeight = 1000, cp_hashBlock = uint256S ''0000cb60f4051a278b03a4133a6cefda689a5788a215c6209b160a9be632b5ca''\<rparr>,
        \<lparr>cp_nHeight = 2000, cp_hashBlock = uint256S ''000099b421f37840b53ec623a201c817a7ea9fcfa48e69e5c3461727fd92282f''\<rparr>,
        \<lparr>cp_nHeight = 3000, cp_hashBlock = uint256S ''00002c1ca3bbbd9c7dd7b0903873b36724e1ee31c53f70ab7c81123228d9edb4''\<rparr>,
        \<lparr>cp_nHeight = 5000, cp_hashBlock = uint256S ''00000e8e96d5571c22a6dbf934cb50b9c27c513d0bdf86d3539a014b59751643''\<rparr>,
        \<lparr>cp_nHeight = 10000, cp_hashBlock = uint256S ''0001cb679cfe170ba4893cac1b6a3cb22c69dabe4913927a513761a0ad788e9a''\<rparr>,
        \<lparr>cp_nHeight = 20000, cp_hashBlock = uint256S ''000adc0c364bed2b4f2247961d852d19d5432b8363e801df24045258a6730b3c''\<rparr>,
        \<lparr>cp_nHeight = 40000, cp_hashBlock = uint256S ''0007eb5ab7d4a2086d5cc554ce7bbd7866c8ca5791e4ab1cedf631d04803f015''\<rparr>,
        \<lparr>cp_nHeight = 60000, cp_hashBlock = uint256S ''0003d271d83c1fc66bb2af7cf8f16207034c8f80ec918f119a51ccb4203aadc7''\<rparr>,
        \<lparr>cp_nHeight = 80000, cp_hashBlock = uint256S ''000a18c94a5bd98403807aff7260c5671079be0d822bdc0815916d8b6fed718e''\<rparr>,
        \<lparr>cp_nHeight = 86000, cp_hashBlock = uint256S ''00001432d1653a47059b1aa78e71b9cbe69720555cdea55473412d97f74cb3dd''\<rparr>]\<rparr>"

definition DilV :: ChainParams where
  "DilV = \<lparr>
     cp_network = DILV,
     networkMagic = 0xD17FD100,
     chainID = 2,
     genesisTime = 1774656000,
     genesisNonce = 0,
     genesisNBits = 0x1d00ffff,
     blockTime = 45,
     halvingInterval = 1050000,
     difficultyAdjustment = 0,
     difficultyAdjustmentV2 = 0,
     difficultyForkHeight = 999999999,
     difficultyMaxChange = 0,
     difficultyV3ForkHeight = 999999999,
     maxBlockSize = MAX_BLOCK_SIZE,
     initialReward = 100 * 100000000,
     fPowAllowMinDifficultyBlocks = False,
     edaActivationHeight = - 1,
     dfmpActivationHeight = 0,
     dfmpAssumeValidHeight = 44233,
     dfmpV3ActivationHeight = 0,
     registrationPowBits = 28,
     dfmpDynamicScalingHeight = 0,
     dfmpV31ActivationHeight = 0,
     dfmpV32ActivationHeight = 0,
     dfmpV33ActivationHeight = 0,
     dfmpV34ActivationHeight = 999999999,
     compactEncodingFixHeight = 0,
     asertActivationHeight = 999999999,
     asertHalflife = 0,
     timestampValidationHeight = 0,
     vdfActivationHeight = 0,
     vdfExclusiveHeight = 0,
     vdfIterations = 500000,
     vdfCooldownActiveWindow = 200,
     dfmpCooldownConsensusHeight = 0,
     vdfCooldownShortWindow = 0,
     stabilizationForkHeight = 0,
     timeDecayCooldownActivationHeight = 44250,
     cooldownTimeDecaySeconds = 60,
     minBlockTimestampGap = 45,
     minBlockTimestampGapHeight = 37000,
     coinbaseMaturity = 6,
     scriptV2ActivationHeight = 0,
     dnaCommitmentActivationHeight = 0,
     checkpoints =
       [\<lparr>cp_nHeight = 500, cp_hashBlock = uint256S ''88c3760b617f4295176a76871acc60904e8dfc9ccd62d6d460475c520a039f1e''\<rparr>,
        \<lparr>cp_nHeight = 1000, cp_hashBlock = uint256S ''9884fa2d1fcd8b2c7b5c3b49a6aa6c11c60a467ad93048cd871d0ebba42cc81e''\<rparr>,
        \<lparr>cp_nHeight = 1500, cp_hashBlock = uint256S ''3fd46e642ef3b8a4a0ba29c80293dff82956bb10dedc26f6679045994d2b97de''\<rparr>,
        \<lparr>cp_nHeight = 2000, cp_hashBlock = uint256S ''6b7f65e2e1c9171ec26dd68bf49b44c72eb1b6ad819b08864f79d9e48136d1a6''\<rparr>,
        \<lparr>cp_nHeight = 2500, cp_hashBlock = uint256S ''05dff2b9b58ab6145e8345f103a12fd605a71092c7113527acc743d58d34f233''\<rparr>,
        \<lparr>cp_nHeight = 2632, cp_hashBlock = uint256S ''7e250f5f24081906aeea465c546a371937812939dc00ead70a9621f897619caf''\<rparr>,
        \<lparr>cp_nHeight = 2700, cp_hashBlock = uint256S ''475d9fcb367c512c65eb24d6feb962c3eaafb847a3c45265d108863cadbf4a0f''\<rparr>,
        \<lparr>cp_nHeight = 2800, cp_hashBlock = uint256S ''dda53ab45040a889457f21bd828fc82b3c81dfc797be671e157d9e4d8c6438fa''\<rparr>,
        \<lparr>cp_nHeight = 2900, cp_hashBlock = uint256S ''a0ce1e87001b1440837bfc3c2d2be8f481f68bf85cb9038b4a89360d9497be3e''\<rparr>,
        \<lparr>cp_nHeight = 2935, cp_hashBlock = uint256S ''64abd9e3f640b683145e2a8fe10339573c658da53457611817c4b10a642698ee''\<rparr>,
        \<lparr>cp_nHeight = 2949, cp_hashBlock = uint256S ''d8d2c97abb1d6e5aa15285ece31b44d6e9b779fcf97abfff65dfee62542938a0''\<rparr>,
        \<lparr>cp_nHeight = 2951, cp_hashBlock = uint256S ''31cfe3012d8fe67482ed99474433c4f365d89c76003c90adf11e5fcd49438077''\<rparr>,
        \<lparr>cp_nHeight = 2961, cp_hashBlock = uint256S ''0727d34f6604ec5f4c1efe92825f8b5c7f325f65d4a220005cd6f2ee1ee122b2''\<rparr>,
        \<lparr>cp_nHeight = 8000, cp_hashBlock = uint256S ''9453c0150d81df7785c4b95c4ca50df75a1a561f092192a8ca55c15507397876''\<rparr>,
        \<lparr>cp_nHeight = 8370, cp_hashBlock = uint256S ''ef1e3a7de515523cde0b224865b26dc049c92033bc5a86b31e0e32cd1ca852be''\<rparr>,
        \<lparr>cp_nHeight = 15000, cp_hashBlock = uint256S ''45f5877adcc1ec2dab453412d6a5cb3fd9383fc97a184aa4ec855db55212f5d6''\<rparr>,
        \<lparr>cp_nHeight = 18700, cp_hashBlock = uint256S ''1fbcf55c40c735596b68772af0072b98342a098bd5c1ff0b3bb26423720e9295''\<rparr>,
        \<lparr>cp_nHeight = 36500, cp_hashBlock = uint256S ''3a6c72ee0ac27508fe82b76ed561dc93bc52ee5a26825cbf3f693bbc7070fd63''\<rparr>,
        \<lparr>cp_nHeight = 44233, cp_hashBlock = uint256S ''927a1e79a410e73c1778dd3eaebae1c07ce5271431abffa9b62a6f6b3177e373''\<rparr>,
        \<lparr>cp_nHeight = 47500, cp_hashBlock = uint256S ''1094f7ca0197845a120a5440ce01c88e65b72f84f42a456f29e43c81b0cddbce''\<rparr>,
        \<lparr>cp_nHeight = 49000, cp_hashBlock = uint256S ''de4316096f6993e4263c562130317810011ecc9f14f20b49022fefa6e8d28f17''\<rparr>,
        \<lparr>cp_nHeight = 67000, cp_hashBlock = uint256S ''c929e38f1709c04c3174627edfe03c57eefdc36846d9d74ab32f899979205eff''\<rparr>]\<rparr>"

definition Regtest :: ChainParams where
  "Regtest = Testnet\<lparr>
     cp_network := REGTEST,
     networkMagic := 0xDA8FB5BB,
     chainID := 9999,
     blockTime := 3,
     vdfIterations := 50000,
     timeDecayCooldownActivationHeight := 999999999,
     cooldownTimeDecaySeconds := 60,
     minBlockTimestampGap := 0,
     minBlockTimestampGapHeight := 0,
     checkpoints := []\<rparr>"

definition IsDilV :: "ChainParams \<Rightarrow> bool" where
  "IsDilV params \<longleftrightarrow> cp_network params = DILV"

definition IsRegtest :: "ChainParams \<Rightarrow> bool" where
  "IsRegtest params \<longleftrightarrow> cp_network params = REGTEST"

section \<open>Checkpoints\<close>

fun LastCheckpoint_loop :: "int \<Rightarrow> CCheckpoint option \<Rightarrow> CCheckpoint list \<Rightarrow> CCheckpoint option" where
  "LastCheckpoint_loop height result [] = result"
| "LastCheckpoint_loop height result (cp # cps) =
     LastCheckpoint_loop height
       (if cp_nHeight cp \<le> height then
          (case result of None \<Rightarrow> Some cp
           | Some r \<Rightarrow> if cp_nHeight cp > cp_nHeight r then Some cp else result)
        else result) cps"

definition GetLastCheckpoint :: "ChainParams \<Rightarrow> int \<Rightarrow> CCheckpoint option" where
  "GetLastCheckpoint params height = LastCheckpoint_loop height None (checkpoints params)"

fun CheckpointCheck_loop :: "int \<Rightarrow> uint256 \<Rightarrow> CCheckpoint list \<Rightarrow> bool" where
  "CheckpointCheck_loop height hash [] = True"
| "CheckpointCheck_loop height hash (cp # cps) =
     (if cp_nHeight cp = height then cp_hashBlock cp = hash else CheckpointCheck_loop height hash cps)"

definition CheckpointCheck :: "ChainParams \<Rightarrow> int \<Rightarrow> uint256 \<Rightarrow> bool" where
  "CheckpointCheck params height hash = CheckpointCheck_loop height hash (checkpoints params)"

definition GetHighestCheckpointHeight :: "ChainParams \<Rightarrow> int" where
  "GetHighestCheckpointHeight params =
     foldl (\<lambda>highest cp. if cp_nHeight cp > highest then cp_nHeight cp else highest) (-1) (checkpoints params)"

section \<open>Lemmas\<close>

lemma LastCheckpoint_loop_Some:
  "LastCheckpoint_loop h res cps = Some cp \<Longrightarrow>
     (cp \<in> set cps \<and> cp_nHeight cp \<le> h \<or> res = Some cp) \<and>
     (\<forall>c \<in> set cps. cp_nHeight c \<le> h \<longrightarrow> cp_nHeight c \<le> cp_nHeight cp) \<and>
     (\<forall>r. res = Some r \<longrightarrow> cp_nHeight r \<le> cp_nHeight cp)"
proof (induction cps arbitrary: res)
  case Nil
  then show ?case by simp
next
  case (Cons c cps)
  from Cons.prems have "LastCheckpoint_loop h
      (if cp_nHeight c \<le> h then
         (case res of None \<Rightarrow> Some c | Some r \<Rightarrow> if cp_nHeight c > cp_nHeight r then Some c else res)
       else res) cps = Some cp" by simp
  from Cons.IH [OF this] show ?case by (auto split: if_splits option.splits)
qed

lemma LastCheckpoint_loop_None:
  "LastCheckpoint_loop h res cps = None \<longleftrightarrow> res = None \<and> (\<forall>c \<in> set cps. h < cp_nHeight c)"
  by (induction cps arbitrary: res) (auto split: option.splits)

lemma CheckpointCheck_loop_iff:
  "distinct (map cp_nHeight cps) \<Longrightarrow>
     CheckpointCheck_loop h hash cps \<longleftrightarrow> (\<forall>cp \<in> set cps. cp_nHeight cp = h \<longrightarrow> cp_hashBlock cp = hash)"
  by (induction cps) (auto, metis image_eqI)

lemma highest_foldl:
  fixes cps :: "CCheckpoint list"
  defines "H \<equiv> \<lambda>a cps. foldl (\<lambda>highest cp. if cp_nHeight cp > highest then cp_nHeight cp else highest) a cps"
  shows "a \<le> H a cps \<and> (\<forall>c \<in> set cps. cp_nHeight c \<le> H a cps) \<and>
    (H a cps = a \<or> (\<exists>c \<in> set cps. cp_nHeight c = H a cps))"
  unfolding H_def
proof (induction cps arbitrary: a)
  case Nil
  then show ?case by simp
next
  case (Cons c cps)
  show ?case using Cons.IH [of "if cp_nHeight c > a then cp_nHeight c else a"] by auto
qed

lemma mainnet_heights:
  "map cp_nHeight (checkpoints Mainnet) =
     [1000, 2000, 5000, 10000, 11000, 13000, 16500, 18500, 23000, 24476, 30000, 34000, 40000, 44000, 54000]"
  by (simp add: Mainnet_def)

section \<open>Properties\<close>

text \<open>
  The checkpoint queries. \<open>GetLastCheckpoint\<close> returns a checkpoint at or below the height, the
  highest such one, and none exactly when there is none; \<open>GetHighestCheckpointHeight\<close> is the greatest
  checkpoint height, or -1; with distinct heights \<open>CheckpointCheck\<close> accepts exactly the hashes that no
  checkpoint at that height contradicts.
\<close>

theorem checkpoint_queries:
  "(GetLastCheckpoint params h = Some cp \<longrightarrow>
      cp \<in> set (checkpoints params) \<and> cp_nHeight cp \<le> h \<and>
      (\<forall>c \<in> set (checkpoints params). cp_nHeight c \<le> h \<longrightarrow> cp_nHeight c \<le> cp_nHeight cp)) \<and>
   (GetLastCheckpoint params h = None \<longleftrightarrow> (\<forall>c \<in> set (checkpoints params). h < cp_nHeight c)) \<and>
   -1 \<le> GetHighestCheckpointHeight params \<and>
   (\<forall>c \<in> set (checkpoints params). cp_nHeight c \<le> GetHighestCheckpointHeight params) \<and>
   (GetHighestCheckpointHeight params = -1 \<or>
      (\<exists>c \<in> set (checkpoints params). cp_nHeight c = GetHighestCheckpointHeight params)) \<and>
   (distinct (map cp_nHeight (checkpoints params)) \<longrightarrow>
      CheckpointCheck params h hash =
        (\<forall>c \<in> set (checkpoints params). cp_nHeight c = h \<longrightarrow> cp_hashBlock c = hash))"
proof (intro conjI)
  show "GetLastCheckpoint params h = Some cp \<longrightarrow>
      cp \<in> set (checkpoints params) \<and> cp_nHeight cp \<le> h \<and>
      (\<forall>c \<in> set (checkpoints params). cp_nHeight c \<le> h \<longrightarrow> cp_nHeight c \<le> cp_nHeight cp)"
    using LastCheckpoint_loop_Some [of h None "checkpoints params" cp] by (simp add: GetLastCheckpoint_def)
  show "GetLastCheckpoint params h = None \<longleftrightarrow> (\<forall>c \<in> set (checkpoints params). h < cp_nHeight c)"
    by (simp add: GetLastCheckpoint_def LastCheckpoint_loop_None)
  show "distinct (map cp_nHeight (checkpoints params)) \<longrightarrow> CheckpointCheck params h hash =
      (\<forall>c \<in> set (checkpoints params). cp_nHeight c = h \<longrightarrow> cp_hashBlock c = hash)"
    by (simp add: CheckpointCheck_def CheckpointCheck_loop_iff)
qed (use highest_foldl [of "-1" "checkpoints params"] in \<open>simp_all add: GetHighestCheckpointHeight_def\<close>)

theorem checkpoint_queries_witness:
  "GetLastCheckpoint Mainnet 999 = None \<and> CheckpointCheck Mainnet 1001 zero256"
proof
  have all: "(\<forall>c \<in> set (checkpoints Mainnet). P (cp_nHeight c)) \<longleftrightarrow> list_all P (map cp_nHeight (checkpoints Mainnet))"
    for P by (simp add: list_all_iff)
  show "GetLastCheckpoint Mainnet 999 = None"
    using checkpoint_queries [of Mainnet 999 undefined zero256] unfolding all mainnet_heights by simp
  have "distinct (map cp_nHeight (checkpoints Mainnet))" unfolding mainnet_heights by simp
  moreover have "\<forall>c \<in> set (checkpoints Mainnet). cp_nHeight c \<noteq> 1001"
    using all [of "\<lambda>x. x \<noteq> 1001"] unfolding mainnet_heights by simp
  ultimately show "CheckpointCheck Mainnet 1001 zero256"
    using checkpoint_queries [of Mainnet 1001 undefined zero256] by blast
qed

text \<open>
  The parameter sets are consistent with what the difficulty code relies on: checkpoint heights
  increase strictly on every network; on mainnet the halflife is positive and the compact encoding fix
  precedes ASERT, which precedes the timestamp fork, and the DFMP versions follow one another; and every
  network that retargets has a positive retarget interval.
\<close>

theorem params_consistent:
  "sorted_wrt (<) (map cp_nHeight (checkpoints Mainnet)) \<and>
   sorted_wrt (<) (map cp_nHeight (checkpoints Testnet)) \<and>
   sorted_wrt (<) (map cp_nHeight (checkpoints DilV)) \<and> checkpoints Regtest = [] \<and>
   0 < asertHalflife Mainnet \<and>
   compactEncodingFixHeight Mainnet < asertActivationHeight Mainnet \<and>
   asertActivationHeight Mainnet < timestampValidationHeight Mainnet \<and>
   sorted [dfmpV3ActivationHeight Mainnet, dfmpDynamicScalingHeight Mainnet, dfmpV31ActivationHeight Mainnet,
     dfmpV32ActivationHeight Mainnet, dfmpV33ActivationHeight Mainnet, dfmpV34ActivationHeight Mainnet] \<and>
   list_all (\<lambda>params. IsDilV params \<or> IsRegtest params \<or>
       0 < difficultyAdjustment params \<and> 0 < difficultyAdjustmentV2 params)
     [Mainnet, Testnet, DilV, Regtest]"
  by (simp add: Mainnet_def Testnet_def DilV_def Regtest_def IsDilV_def IsRegtest_def)

end
