(* ===== verification/Difficulty.thy ===== *)
theory Difficulty
  imports BlockIndex Params
begin

text \<open>
  The difficulty rules of \<open>src/src/consensus/pow.cpp\<close>: the retarget computation, ASERT, the selection of
  the rule for the next block, the median time past and the timestamp rules. \<open>int64_t\<close> quantities are
  integers: with 32-bit times and heights and the parameters of \<open>Params\<close> no intermediate value leaves the
  64-bit range. The subtraction of two 32-bit times in the legacy retarget is done on words, where the source
  subtracts unsigned 32-bit values. The test for pointers with small addresses has no counterpart.
\<close>

section \<open>Retargeting\<close>

definition MIN_DIFFICULTY_BITS :: u32 where "MIN_DIFFICULTY_BITS = 0x1d00ffff"
definition MAX_DIFFICULTY_BITS :: u32 where "MAX_DIFFICULTY_BITS = 0x1f0fffff"
definition EDA_THRESHOLD_BLOCKS :: int where "EDA_THRESHOLD_BLOCKS = 6"
definition EDA_STEP_BLOCKS :: int where "EDA_STEP_BLOCKS = 6"
definition EDA_REDUCTION_NUMERATOR :: u64 where "EDA_REDUCTION_NUMERATOR = 5"
definition EDA_REDUCTION_DENOMINATOR :: u64 where "EDA_REDUCTION_DENOMINATOR = 4"
definition EDA_MAX_STEPS :: int where "EDA_MAX_STEPS = 20"

definition ClampTimespan :: "int \<Rightarrow> int \<Rightarrow> int \<Rightarrow> int" where
  "ClampTimespan nActualTimespan nTargetTimespan maxChange =
     (let a = (if nActualTimespan < cdiv nTargetTimespan maxChange
               then cdiv nTargetTimespan maxChange else nActualTimespan)
      in if a > nTargetTimespan * maxChange then nTargetTimespan * maxChange else a)"

definition CalculateNextWorkRequired :: "u32 \<Rightarrow> int \<Rightarrow> int \<Rightarrow> int \<Rightarrow> u32" where
  "CalculateNextWorkRequired nCompactOld nActualTimespan nTargetTimespan maxChange =
     (let nActualTimespan = ClampTimespan nActualTimespan nTargetTimespan maxChange;
          targetOld = CompactToBig nCompactOld
      in case Multiply256x64 targetOld (word_of_int nActualTimespan) of
           None \<Rightarrow> nCompactOld
         | Some product \<Rightarrow>
             (let targetNew = Divide320x64 product (word_of_int nTargetTimespan);
                  nBitsNew = BigToCompact targetNew;
                  nBitsNew = (if nBitsNew < MIN_DIFFICULTY_BITS then MIN_DIFFICULTY_BITS else nBitsNew)
              in if nBitsNew > MAX_DIFFICULTY_BITS then MAX_DIFFICULTY_BITS else nBitsNew))"

section \<open>ASERT\<close>

definition AsertSplit :: "int \<Rightarrow> int \<times> u16" where
  "AsertSplit exponent =
     (if exponent \<ge> 0 then (cdiv exponent 65536, word_of_int (cmod exponent 65536))
      else
        (let q = cdiv exponent 65536; r = cmod exponent 65536
         in if r < 0 then (q - 1, word_of_int (r + 65536)) else (q, word_of_int r)))"

definition AsertFactor :: "u16 \<Rightarrow> u32" where
  "AsertFactor frac =
     (let f = ucast frac :: u64;
          f2 = f * f;
          f3 = f2 * f;
          term1 = 195766423245049 * f;
          term2 = 971821376 * f2;
          term3 = 5127 * f3;
          round = push_bit 47 1
      in 65536 + ucast (drop_bit 48 (term1 + term2 + term3 + round)))"

definition AsertExponent :: "ChainParams \<Rightarrow> CBlockIndex \<Rightarrow> CBlockIndex \<Rightarrow> int" where
  "AsertExponent params pindexPrev pindexAnchor =
     (let time_delta = uint (nTime pindexPrev) - uint (nTime pindexAnchor);
          height_delta = nHeight pindexPrev - nHeight pindexAnchor;
          ideal_time = blockTime params * (height_delta + 1)
      in cdiv ((time_delta - ideal_time) * 65536) (asertHalflife params))"

text \<open>The bits for a non-zero target: compact form, sign bit fixed, clamped.\<close>

definition AsertBits :: "uint256 \<Rightarrow> u32" where
  "AsertBits next_target =
     (let nBitsNew = FixCompactEncoding (BigToCompact next_target);
          nBitsNew = (if nBitsNew < MIN_DIFFICULTY_BITS then MIN_DIFFICULTY_BITS else nBitsNew)
      in if nBitsNew > MAX_DIFFICULTY_BITS then MAX_DIFFICULTY_BITS else nBitsNew)"

definition AsertTarget :: "u32 \<Rightarrow> int \<Rightarrow> u32" where
  "AsertTarget anchor_nBits exponent =
     (let (shifts, frac) = AsertSplit exponent;
          factor = AsertFactor frac;
          anchor_target = CompactToBig anchor_nBits
      in case Multiply256x64 anchor_target (ucast factor) of
           None \<Rightarrow> anchor_nBits
         | Some product \<Rightarrow>
             (let next_target = take 32 (drop 2 product)
              in if shifts > 0 then
                   (if shifts > 255 then MAX_DIFFICULTY_BITS
                    else
                      (let next_target = ShiftTargetLeft next_target shifts
                       in if IsTargetZero next_target then MIN_DIFFICULTY_BITS else AsertBits next_target))
                 else if shifts < 0 then
                   (let abs_shifts = - shifts
                    in if abs_shifts > 255 then MIN_DIFFICULTY_BITS
                       else
                         (let next_target = ShiftTargetRight next_target abs_shifts
                          in if IsTargetZero next_target then MIN_DIFFICULTY_BITS else AsertBits next_target))
                 else if IsTargetZero next_target then MIN_DIFFICULTY_BITS
                 else AsertBits next_target))"

definition GetNextWorkRequiredASERT :: "ChainParams \<Rightarrow> CBlockIndex \<Rightarrow> CBlockIndex \<Rightarrow> u32" where
  "GetNextWorkRequiredASERT params pindexPrev pindexAnchor =
     AsertTarget (hdr_nBits (header pindexAnchor)) (AsertExponent params pindexPrev pindexAnchor)"

section \<open>The rule for the next block\<close>

text \<open>The reduction loop of the emergency adjustment.\<close>

fun EDA_loop :: "nat \<Rightarrow> uint256 \<Rightarrow> uint256" where
  "EDA_loop 0 target = target"
| "EDA_loop (Suc steps) target =
     (case Multiply256x64 target EDA_REDUCTION_NUMERATOR of
        None \<Rightarrow> target
      | Some product \<Rightarrow> EDA_loop steps (Divide320x64 product EDA_REDUCTION_DENOMINATOR))"

definition EDABits :: "ChainParams \<Rightarrow> int \<Rightarrow> u32 \<Rightarrow> int \<Rightarrow> u32" where
  "EDABits params newBlockHeight prevBits steps =
     (let target = EDA_loop (nat steps) (CompactToBig prevBits);
          edaBits = BigToCompact target;
          fixHeight = compactEncodingFixHeight params;
          edaBits = (if fixHeight \<ge> 0 \<and> newBlockHeight \<ge> fixHeight then FixCompactEncoding edaBits else edaBits);
          edaBits = (if edaBits > MAX_DIFFICULTY_BITS then MAX_DIFFICULTY_BITS else edaBits)
      in if edaBits < MIN_DIFFICULTY_BITS then MIN_DIFFICULTY_BITS else edaBits)"

text \<open>Between two retargets: the previous bits, or the emergency adjustment.\<close>

definition NoRetargetBits :: "ChainParams \<Rightarrow> CBlockIndex \<Rightarrow> int \<Rightarrow> u32" where
  "NoRetargetBits params pindexLast nBlockTime =
     (let newBlockHeight = nHeight pindexLast + 1;
          prevBits = hdr_nBits (header pindexLast)
      in if prevBits = 0 then genesisNBits params
         else if nBlockTime > 0 \<and> edaActivationHeight params \<ge> 0 \<and> newBlockHeight \<ge> edaActivationHeight params then
           (let gap = nBlockTime - uint (nTime pindexLast);
                edaThresholdBlocks =
                  (if newBlockHeight \<ge> difficultyV3ForkHeight params then 15 else EDA_THRESHOLD_BLOCKS);
                threshold = edaThresholdBlocks * blockTime params
            in if gap > threshold then
                 (let edaStepBlocks =
                        (if newBlockHeight \<ge> difficultyV3ForkHeight params then 15 else EDA_STEP_BLOCKS);
                      stepSize = edaStepBlocks * blockTime params;
                      stepsRaw = cdiv (gap - threshold) stepSize + 1;
                      steps = min stepsRaw EDA_MAX_STEPS
                  in EDABits params newBlockHeight prevBits steps)
               else prevBits)
         else prevBits)"

text \<open>At a retarget: the timespan of the interval that starts at \<open>pindexFirst\<close>.\<close>

definition RetargetTimespan :: "ChainParams \<Rightarrow> int \<Rightarrow> CBlockIndex \<Rightarrow> CBlockIndex \<Rightarrow> int" where
  "RetargetTimespan params nInterval pindexLast pindexFirst =
     (let nActualTimespan = uint (nTime pindexLast - nTime pindexFirst)
      in if nActualTimespan \<le> 0 then nInterval * blockTime params else nActualTimespan)"

definition RetargetBits :: "ChainParams \<Rightarrow> int \<Rightarrow> bool \<Rightarrow> CBlockIndex \<Rightarrow> CBlockIndex \<Rightarrow> u32" where
  "RetargetBits params nInterval useV2 pindexLast pindexFirst =
     (let newBlockHeight = nHeight pindexLast + 1;
          nActualTimespan = RetargetTimespan params nInterval pindexLast pindexFirst;
          nTargetTimespan = nInterval * blockTime params;
          useV3 = (newBlockHeight \<ge> difficultyV3ForkHeight params);
          maxChange = (if useV3 then 4 else if useV2 then difficultyMaxChange params else 4);
          nBitsNew = CalculateNextWorkRequired (nBits pindexLast) nActualTimespan nTargetTimespan maxChange;
          fixHeight = compactEncodingFixHeight params
      in if fixHeight \<ge> 0 \<and> newBlockHeight \<ge> fixHeight then FixCompactEncoding nBitsNew else nBitsNew)"

text \<open>
  \<open>GetNextWorkRequired\<close>; \<open>None\<close> stands for an invalid pointer or a walk that does not return.
  \<open>g_chainParams\<close> is \<open>None\<close> when it is not set.
\<close>

definition GetNextWorkRequired ::
    "ChainParams option \<Rightarrow> block_store \<Rightarrow> nat option \<Rightarrow> int \<Rightarrow> u32 option" where
  "GetNextWorkRequired g_chainParams st pindexLast nBlockTime =
     (case pindexLast of
        None \<Rightarrow> map_option genesisNBits g_chainParams
      | Some p \<Rightarrow>
          if (case g_chainParams of None \<Rightarrow> False | Some params \<Rightarrow> IsDilV params \<or> IsRegtest params)
          then map_option genesisNBits g_chainParams
          else
            (case st p of None \<Rightarrow> None
             | Some last' \<Rightarrow>
                 (case g_chainParams of None \<Rightarrow> Some (hdr_nBits (header last'))
                  | Some params \<Rightarrow>
                      (let newBlockHeight = nHeight last' + 1;
                           tsValHeight = timestampValidationHeight params;
                           asertActivation = asertActivationHeight params;
                           asert = (\<lambda>anchorHeight.
                             case GetAncestor st p anchorHeight of
                               None \<Rightarrow> None
                             | Some None \<Rightarrow> Some (hdr_nBits (header last'))
                             | Some (Some a) \<Rightarrow>
                                 (case st a of None \<Rightarrow> None
                                  | Some anchor \<Rightarrow> Some (GetNextWorkRequiredASERT params last' anchor)))
                       in if tsValHeight > 0 \<and> newBlockHeight \<ge> tsValHeight then asert (tsValHeight - 1)
                          else if asertActivation > 0 \<and> newBlockHeight \<ge> asertActivation
                          then asert (asertActivation - 1)
                          else
                            (let useV2 = (newBlockHeight \<ge> difficultyForkHeight params);
                                 nInterval = (if useV2 then difficultyAdjustmentV2 params
                                              else difficultyAdjustment params)
                             in if cmod newBlockHeight nInterval \<noteq> 0
                                then Some (NoRetargetBits params last' nBlockTime)
                                else
                                  (case nth_parent st p (nat (nInterval - 1)) of
                                     None \<Rightarrow> Some (nBits last')
                                   | Some f \<Rightarrow>
                                       (case st f of None \<Rightarrow> None
                                        | Some first' \<Rightarrow>
                                            Some (RetargetBits params nInterval useV2 last' first'))))))))"

section \<open>Timestamps\<close>

text \<open>The times of up to \<open>k\<close> blocks, walking back.\<close>

fun collect_times :: "block_store \<Rightarrow> nat option \<Rightarrow> nat \<Rightarrow> int list" where
  "collect_times st None k = []"
| "collect_times st (Some p) 0 = []"
| "collect_times st (Some p) (Suc k) =
     (case st p of None \<Rightarrow> [] | Some b \<Rightarrow> uint (nTime b) # collect_times st (pprev b) k)"

definition GetMedianTimePast :: "block_store \<Rightarrow> nat option \<Rightarrow> int" where
  "GetMedianTimePast st pindex =
     (case pindex of None \<Rightarrow> 0
      | Some p \<Rightarrow>
          (let vTimes = sort (collect_times st (Some p) 11)
           in if vTimes = [] then 0 else vTimes ! (length vTimes div 2)))"

definition MAX_FUTURE_BLOCK_TIME :: int where "MAX_FUTURE_BLOCK_TIME = 7200"
definition MAX_FUTURE_BLOCK_TIME_V2 :: int where "MAX_FUTURE_BLOCK_TIME_V2 = 600"

text \<open>\<open>now\<close> is what \<open>GetTime()\<close> returns.\<close>

definition CheckBlockTimestamp ::
    "ChainParams option \<Rightarrow> block_store \<Rightarrow> int \<Rightarrow> 'a CBlockHeader_scheme \<Rightarrow> nat option \<Rightarrow> int \<Rightarrow> bool" where
  "CheckBlockTimestamp g_chainParams st now block pindexPrev blockHeight =
     (if hdr_nTime block = 0 then False
      else
        (let tsValHeight = (case g_chainParams of None \<Rightarrow> 999999999 | Some params \<Rightarrow> timestampValidationHeight params);
             maxFuture = (if blockHeight \<ge> 0 \<and> blockHeight \<ge> tsValHeight
                          then MAX_FUTURE_BLOCK_TIME_V2 else MAX_FUTURE_BLOCK_TIME);
             nMaxFutureBlockTime = now + maxFuture
         in if uint (hdr_nTime block) > nMaxFutureBlockTime then False
            else if pindexPrev \<noteq> None \<and> uint (hdr_nTime block) \<le> GetMedianTimePast st pindexPrev then False
            else
              (case pindexPrev of None \<Rightarrow> True
               | Some prev \<Rightarrow>
                   (case g_chainParams of None \<Rightarrow> True
                    | Some params \<Rightarrow>
                        (let minGap = minBlockTimestampGap params;
                             gapActivation = minBlockTimestampGapHeight params
                         in if minGap > 0 \<and> blockHeight \<ge> gapActivation then
                              (case st prev of None \<Rightarrow> False
                               | Some b \<Rightarrow> \<not> uint (hdr_nTime block) < uint (nTime b) + minGap)
                            else True)))))"

text \<open>The target of ASERT as a number, before it is encoded.\<close>

definition asert_value :: "nat \<Rightarrow> int \<Rightarrow> nat" where
  "asert_value T e =
     (let b = T * unat (AsertFactor (word_of_int (e mod 65536))) div 65536; s = e div 65536
      in if s \<ge> 0 then b * 2 ^ nat s else b div 2 ^ nat (- s))"

abbreviation count_ge :: "int \<Rightarrow> int list \<Rightarrow> nat" where
  "count_ge v xs \<equiv> length (filter (\<lambda>x. v \<le> x) xs)"

section \<open>Bounds and the parts of ASERT\<close>

lemma clamp_bits_bounds:
  fixes x :: u32
  defines "y \<equiv> (if x < MIN_DIFFICULTY_BITS then MIN_DIFFICULTY_BITS else x)"
  shows "MIN_DIFFICULTY_BITS \<le> (if y > MAX_DIFFICULTY_BITS then MAX_DIFFICULTY_BITS else y)"
    "(if y > MAX_DIFFICULTY_BITS then MAX_DIFFICULTY_BITS else y) \<le> MAX_DIFFICULTY_BITS"
  by (auto simp: y_def MIN_DIFFICULTY_BITS_def MAX_DIFFICULTY_BITS_def)

lemma min_le_max_bits: "MIN_DIFFICULTY_BITS \<le> MAX_DIFFICULTY_BITS"
  by (simp add: MIN_DIFFICULTY_BITS_def MAX_DIFFICULTY_BITS_def)

lemma cdiv_nonneg: "0 \<le> a \<Longrightarrow> 0 < b \<Longrightarrow> cdiv a b = a div b"
  by (cases "a = 0") (simp_all add: cdiv_def)

lemma cdiv_neg: "a < 0 \<Longrightarrow> 0 < b \<Longrightarrow> cdiv a b = - ((- a) div b)"
  by (simp add: cdiv_def)

lemma AsertSplit_floor: "AsertSplit e = (e div 65536, word_of_int (e mod 65536))"
proof (cases "0 \<le> e")
  case True
  then show ?thesis by (simp add: AsertSplit_def cmod_def cdiv_nonneg minus_mult_div_eq_mod)
next
  case False
  define a where "a = - e"
  have a: "0 < a" "e = - a" using False by (simp_all add: a_def)
  have c: "cdiv (- a) 65536 = - (a div 65536)" using a by (simp add: cdiv_neg)
  have m: "cmod (- a) 65536 = - (a mod 65536)"
    unfolding cmod_def c by (simp add: minus_mult_div_eq_mod [symmetric])
  show ?thesis
  proof (cases "a mod 65536 = 0")
    case True
    then show ?thesis
      using False by (simp add: AsertSplit_def c m Let_def a(2) zdiv_zminus1_eq_if zmod_zminus1_eq_if)
  next
    case nz: False
    then have "0 < a mod 65536" using pos_mod_sign [of 65536 a] by linarith
    then show ?thesis
      using False nz by (simp add: AsertSplit_def c m Let_def a(2) zdiv_zminus1_eq_if zmod_zminus1_eq_if)
  qed
qed

lemma AsertFactor_val:
  fixes frac :: u16
  defines "f \<equiv> unat frac"
  shows "unat (AsertFactor frac) =
    65536 + (195766423245049 * f + 971821376 * f ^ 2 + 5127 * f ^ 3 + 2 ^ 47) div 2 ^ 48"
    "unat (AsertFactor frac) \<le> 131071"
proof -
  define S where "S = 195766423245049 * f + 971821376 * f ^ 2 + 5127 * f ^ 3 + (2 ^ 47 :: nat)"
  have f: "f \<le> 65535" using u16_range [of frac] by (simp add: f_def)
  have f2: "f ^ 2 \<le> 65535 ^ 2" "f ^ 3 \<le> 65535 ^ 3" using f by (rule power_mono; simp)+
  have "S \<le> 195766423245049 * 65535 + 971821376 * 65535 ^ 2 + 5127 * 65535 ^ 3 + 2 ^ 47"
    unfolding S_def using f f2 by (intro add_mono mult_le_mono2 order_refl)
  then have S: "S < 2 ^ 64" by simp
  let ?f = "ucast frac :: u64"
  have uf: "unat ?f = f" unfolding f_def using u16_range [of frac] by (intro unat_ucast_small) simp
  let ?w = "195766423245049 * ?f + 971821376 * (?f * ?f) + 5127 * (?f * ?f * ?f) + push_bit 47 1"
  have "?w = of_nat S"
    unfolding S_def using uf [symmetric] by (simp add: power2_eq_square power3_eq_cube)
  then have uw: "unat ?w = S" using S by (simp only: unat_of_nat_len)
  have "S div 2 ^ 48 < 2 ^ 16" using S by (simp add: less_mult_imp_div_less)
  then have d: "unat (ucast (drop_bit 48 ?w) :: u32) = S div 2 ^ 48"
    by (subst unat_ucast_small) (simp_all only: unat_drop_bit uw, simp)
  have e: "AsertFactor frac = 65536 + ucast (drop_bit 48 ?w)"
    by (simp only: AsertFactor_def Let_def)
  have "unat (65536 + ucast (drop_bit 48 ?w) :: u32) = 65536 + S div 2 ^ 48"
    using \<open>S div 2 ^ 48 < 2 ^ 16\<close> by (simp only: unat_word_ariths d) simp
  then show "unat (AsertFactor frac) =
      65536 + (195766423245049 * f + 971821376 * f ^ 2 + 5127 * f ^ 3 + 2 ^ 47) div 2 ^ 48"
    unfolding e S_def .
  then show "unat (AsertFactor frac) \<le> 131071"
    using \<open>S div 2 ^ 48 < 2 ^ 16\<close> unfolding S_def [symmetric] by simp
qed

lemma AsertBits_bounds: "MIN_DIFFICULTY_BITS \<le> AsertBits t \<and> AsertBits t \<le> MAX_DIFFICULTY_BITS"
  unfolding AsertBits_def Let_def using clamp_bits_bounds by simp

lemma AsertTarget_mult:
  "\<exists>p. Multiply256x64 (CompactToBig c) (ucast (AsertFactor frac)) = Some p \<and> length p = 40 \<and>
     le_val p = le_val (CompactToBig c) * unat (AsertFactor frac)"
proof -
  have u: "unat (ucast (AsertFactor frac) :: u64) = unat (AsertFactor frac)"
    using u32_range [of "AsertFactor frac"] by (intro unat_ucast_small) simp
  then have "unat (ucast (AsertFactor frac) :: u64) < 2 ^ 56" using AsertFactor_val(2) [of frac] by simp
  then obtain p where p: "Multiply256x64 (CompactToBig c) (ucast (AsertFactor frac)) = Some p"
    using Multiply256x64_total by blast
  then show ?thesis
    using Multiply256x64_val [OF p] wf256_CompactToBig [of c] u by (simp add: wf256_def)
qed

lemma AsertTarget_bounds:
  "MIN_DIFFICULTY_BITS \<le> AsertTarget c e \<and> AsertTarget c e \<le> MAX_DIFFICULTY_BITS"
proof -
  obtain shifts frac where sf: "AsertSplit e = (shifts, frac)" by (cases "AsertSplit e")
  obtain p where "Multiply256x64 (CompactToBig c) (ucast (AsertFactor frac)) = Some p"
    using AsertTarget_mult by blast
  then show ?thesis
    unfolding AsertTarget_def sf using AsertBits_bounds min_le_max_bits by (simp add: Let_def)
qed


lemma le_val_take_mod: "le_val (take n xs) = le_val xs mod 256 ^ n"
proof (cases "n \<le> length xs")
  case True
  have "le_val xs = le_val (take n xs) + 256 ^ n * le_val (drop n xs)"
    using le_val_append [of "take n xs" "drop n xs"] True by simp
  then show ?thesis using le_val_take_bound [of n xs] by simp
next
  case False
  then have "le_val xs < 256 ^ n"
    using le_val_take_bound [of n xs] by simp
  then show ?thesis using False by simp
qed

lemma le_val_drop_div: "n \<le> length xs \<Longrightarrow> le_val (drop n xs) = le_val xs div 256 ^ n"
proof -
  assume n: "n \<le> length xs"
  have "le_val xs = le_val (take n xs) + 256 ^ n * le_val (drop n xs)"
    using le_val_append [of "take n xs" "drop n xs"] n by simp
  then show ?thesis using le_val_take_bound [of n xs] by simp
qed

lemma BigSize_unique:
  assumes "wf256 t" "256 ^ (s - 1) \<le> le_val t" "le_val t < 256 ^ s" "0 < s"
  shows "BigSize 32 t = s"
proof -
  define r where "r = BigSize 32 t"
  note val = BigSize_val [OF assms(1) r_def [symmetric]]
  have "0 < le_val t" using assms(2) by (rule order_less_le_trans [rotated]) simp
  then have r0: "0 < r" using BigSize_0_iff [OF assms(1)] by (simp add: r_def)
  have "256 ^ (s - 1) < (256 :: nat) ^ r" using assms(2) val(2) by linarith
  then have "s - 1 < r" by (simp add: power_strict_increasing_iff)
  moreover have "256 ^ (r - 1) < (256 :: nat) ^ s" using assms(3) val(3) [OF r0] by linarith
  then have "r - 1 < s" by (simp add: power_strict_increasing_iff)
  ultimately show ?thesis using r0 assms(4) by (simp add: r_def)
qed

lemma Fix_Big_Compact:
  assumes "canonical_compact c"
  shows "FixCompactEncoding (BigToCompact (CompactToBig c)) = c"
proof -
  obtain n m where c: "unat c = n * 2 ^ 24 + m" "8 \<le> n" "n \<le> 32" "2 ^ 15 \<le> m" "m < 2 ^ 23"
    and v: "le_val (CompactToBig c) = m * 256 ^ (n - 3)"
    using canonical_decompose [OF assms] by metis
  let ?t = "CompactToBig c"
  obtain k where k: "n = k + 4" using c(2) le_Suc_ex [of 4 n] by (auto simp: add.commute)
  have "unat (FixCompactEncoding (BigToCompact ?t)) = unat c"
  proof (cases "2 ^ 16 \<le> m")
    case True
    have "256 ^ (n - 1) = 2 ^ 16 * (256 :: nat) ^ (k + 1)" "256 ^ n = 2 ^ 24 * (256 :: nat) ^ (k + 1)"
      unfolding k by (simp_all add: power_add)
    then have s: "BigSize 32 ?t = n"
      using True c v k by (intro BigSize_unique) auto
    then have b: "unat (BigToCompact ?t) = n * 2 ^ 24 + m"
      using BigToCompact_val [OF _ s] c(2) v k by simp
    then show ?thesis using c by (subst FixCompact_val) (simp_all add: b)
  next
    case False
    have "256 ^ (n - 1 - 1) = 2 ^ 8 * (256 :: nat) ^ (k + 1)" "256 ^ (n - 1) = 2 ^ 16 * (256 :: nat) ^ (k + 1)"
      unfolding k by (simp_all add: power_add)
    then have s: "BigSize 32 ?t = n - 1"
      using False c v k by (intro BigSize_unique) auto
    have "m * 256 ^ (n - 3) div 256 ^ (n - 1 - 3) = m * 256" unfolding k by simp
    then have b: "unat (BigToCompact ?t) = (n - 1) * 2 ^ 24 + m * 256"
      using BigToCompact_val [OF _ s] c(2) v k by simp
    have "unat (FixCompactEncoding (BigToCompact ?t)) = (n - 1 + 1) * 2 ^ 24 + m * 256 div 256"
      using False c by (subst FixCompact_val) (simp_all add: b)
    then show ?thesis using c by simp
  qed
  then show ?thesis by (simp add: word_unat_eq_iff)
qed

lemma IsTargetZero_val: "IsTargetZero t \<longleftrightarrow> le_val t = 0"
  by (simp add: IsTargetZero_def le_val_eq_0_iff list_all_iff)

lemma AsertFactor_0: "AsertFactor 0 = 65536"
proof -
  have "unat (AsertFactor 0) = 65536" using AsertFactor_val(1) [of 0] by simp
  then show ?thesis by (simp add: word_unat_eq_iff)
qed

lemma AsertTarget_whole:
  assumes "e = 65536 * k"
  shows "AsertTarget c e =
    (let t = CompactToBig c
     in if k > 255 then MAX_DIFFICULTY_BITS else if k < - 255 then MIN_DIFFICULTY_BITS
        else
          (let t' = (if k > 0 then ShiftTargetLeft t k else ShiftTargetRight t (- k))
           in if IsTargetZero t' then MIN_DIFFICULTY_BITS else AsertBits t'))"
proof -
  have sf: "AsertSplit e = (k, 0)" using AsertSplit_floor [of e] assms by simp
  obtain p where p: "Multiply256x64 (CompactToBig c) (ucast (AsertFactor 0)) = Some p" "length p = 40"
    "le_val p = le_val (CompactToBig c) * 65536"
    using AsertTarget_mult [of c 0] AsertFactor_0 by auto
  have "le_val (take 32 (drop 2 p)) = le_val (CompactToBig c) mod 256 ^ 32"
    using p(2,3) by (simp add: le_val_take_mod le_val_drop_div)
  also have "\<dots> = le_val (CompactToBig c)"
    using le_val_bound [of "CompactToBig c"] wf256_CompactToBig [of c] by (simp add: wf256_def)
  finally have "take 32 (drop 2 p) = CompactToBig c"
    using p(2) wf256_CompactToBig [of c] by (intro le_val_inject) (simp_all add: wf256_def)
  then show ?thesis
    using p(1) unfolding AsertTarget_def sf by (auto simp: Let_def ShiftTargetRight_def)
qed

lemma le_valI: "length xs = 32 \<Longrightarrow> length ys = 32 \<Longrightarrow> le_val xs = le_val ys \<Longrightarrow> xs = ys"
  by (rule le_val_inject) simp

lemma factor_div_le: "x \<le> T * 131071 \<Longrightarrow> x div 65536 \<le> 2 * (T :: nat)"
proof -
  assume "x \<le> T * 131071"
  then have "x div 65536 \<le> (2 * T * 65536) div 65536" by (intro div_le_mono) linarith
  then show ?thesis by simp
qed

lemma CompactToBig_255: "le_val (CompactToBig c) < 2 ^ 255"
proof -
  define n where "n = unat c div 2 ^ 24"
  define m where "m = unat c mod 2 ^ 23"
  have m: "m < 2 ^ 23" by (simp add: m_def)
  note v = CompactToBig_val [of c, folded n_def m_def]
  consider "m = 0 \<or> n = 0 \<or> n > 32" | "n \<le> 3" | "3 < n" "n \<le> 32" by linarith
  then show ?thesis
  proof cases
    case 1
    then show ?thesis by (simp add: v)
  next
    case 2
    have "m < 2 ^ 255" using m by simp
    then have "m div 256 ^ (3 - n) < 2 ^ 255" by (rule order_le_less_trans [OF div_le_dividend])
    then show ?thesis using 2 by (simp add: v)
  next
    case 3
    have "m * 256 ^ (n - 3) < 2 ^ 23 * 256 ^ (n - 3)" using m by simp
    also have "\<dots> \<le> 2 ^ 23 * 256 ^ 29" using 3 by (intro mult_le_mono2 power_increasing) simp_all
    finally show ?thesis using 3 by (simp add: v)
  qed
qed

lemma AsertTarget_formula:
  fixes c :: u32
  defines "T \<equiv> le_val (CompactToBig c)"
  assumes "asert_value T e < 2 ^ 256" "e div 65536 \<ge> - 255" "T > 0"
  shows "AsertTarget c e = (if asert_value T e = 0 then MIN_DIFFICULTY_BITS else AsertBits (le_bytes 32 (asert_value T e)))"
proof -
  define s where "s = e div 65536"
  define frac where "frac = (word_of_int (e mod 65536) :: u16)"
  define F where "F = unat (AsertFactor frac)"
  have sf: "AsertSplit e = (s, frac)" by (simp add: AsertSplit_floor s_def frac_def)
  obtain p where p: "Multiply256x64 (CompactToBig c) (ucast (AsertFactor frac)) = Some p" "length p = 40"
    "le_val p = T * F"
    using AsertTarget_mult [of c frac] by (auto simp: T_def F_def)
  define t where "t = take 32 (drop 2 p)"
  define b where "b = T * F div 65536"
  have F: "65536 \<le> F" unfolding F_def AsertFactor_val(1) by simp
  have Tb: "T \<le> b" unfolding b_def using F by (simp add: less_eq_div_iff_mult_less_eq)
  have av: "asert_value T e = (if s \<ge> 0 then b * 2 ^ nat s else b div 2 ^ nat (- s))"
    by (simp add: asert_value_def Let_def s_def b_def F_def frac_def)
  have t: "length t = 32" "le_val t = b mod 2 ^ 256"
    using p(2,3) by (simp_all add: t_def le_val_take_mod le_val_drop_div b_def)
  have wt: "wf256 t" using t(1) by (simp add: wf256_def)
  have lb: "le_val (le_bytes 32 (asert_value T e)) = asert_value T e" using assms(2) by (simp add: le_val_le_bytes)
  have main: "(if s > 0 then ShiftTargetLeft t s else if s < 0 then ShiftTargetRight t (- s) else t) =
      le_bytes 32 (asert_value T e)" if "b < 2 ^ 256"
  proof -
    have bt: "le_val t = b" using t(2) that by simp
    consider "s > 0" | "s < 0" | "s = 0" by linarith
    then show ?thesis
    proof cases
      case 1
      then have "le_val (ShiftTargetLeft t s) = asert_value T e"
        using ShiftTargetLeft_val [OF wt, of s] assms(2) by (simp add: bt av)
      then show ?thesis using 1 ShiftTargetLeft_val [OF wt, of s] lb
        by (simp add: le_val_inject wf256_def)
    next
      case 2
      then have "le_val (ShiftTargetRight t (- s)) = asert_value T e"
        using ShiftTargetRight_val [OF wt, of "- s"] by (simp add: bt av)
      then show ?thesis using 2 ShiftTargetRight_val [OF wt, of "- s"] lb
        by (simp add: le_val_inject wf256_def)
    next
      case 3
      then show ?thesis using bt lb t(1) by (simp add: av le_val_inject)
    qed
  qed
  have b256: "b < 2 ^ 256"
  proof -
    have "T * F \<le> T * 131071" unfolding F_def by (intro mult_le_mono2 AsertFactor_val(2))
    then have "b \<le> 2 * T" unfolding b_def by (rule factor_div_le)
    then show ?thesis using CompactToBig_255 [of c] by (simp add: T_def)
  qed
  have s255: "s \<le> 255"
  proof (rule ccontr)
    assume "\<not> s \<le> 255"
    then have "(2 :: nat) ^ 256 \<le> 2 ^ nat s" by (intro power_increasing) simp_all
    also have "\<dots> \<le> b * 2 ^ nat s" using Tb assms(4) by simp
    finally show False using assms(2) av \<open>\<not> s \<le> 255\<close> by simp
  qed
  have z: "IsTargetZero (le_bytes 32 (asert_value T e)) \<longleftrightarrow> asert_value T e = 0"
    by (simp add: IsTargetZero_val lb)
  have "s \<ge> - 255" using assms(3) by (simp add: s_def)
  then show ?thesis
    using main [OF b256] s255 z unfolding AsertTarget_def sf
    by (auto simp: Let_def p(1) t_def [symmetric] split: if_splits)
qed


section \<open>Monotonicity\<close>

lemma AsertFactor_mono: "unat a \<le> unat b \<Longrightarrow> unat (AsertFactor a) \<le> unat (AsertFactor b)"
  unfolding AsertFactor_val(1)
  by (intro add_left_mono div_le_mono add_mono mult_le_mono2 power_mono order_refl) simp_all

lemma AsertFactor_ge: "65536 \<le> unat (AsertFactor a)"
  unfolding AsertFactor_val(1) by simp

lemma asert_value_step:
  assumes "e1 \<le> e2"
  shows "asert_value T e1 \<le> asert_value T e2"
proof -
  define s1 where "s1 = e1 div 65536"
  define s2 where "s2 = e2 div 65536"
  define F1 where "F1 = unat (AsertFactor (word_of_int (e1 mod 65536)))"
  define F2 where "F2 = unat (AsertFactor (word_of_int (e2 mod 65536)))"
  define sh where "sh = (\<lambda>b s. if s \<ge> (0 :: int) then b * 2 ^ nat s else b div 2 ^ nat (- s) :: nat)"
  have v: "asert_value T e1 = sh (T * F1 div 65536) s1" "asert_value T e2 = sh (T * F2 div 65536) s2"
    by (simp_all add: asert_value_def Let_def sh_def s1_def s2_def F1_def F2_def)
  have sh_b: "sh b s \<le> sh b' s" if "b \<le> b'" for b b' s using that by (simp add: sh_def div_le_mono)
  have sh_s: "sh (2 * b) s \<le> sh b (s + 1)" for b s
  proof -
    consider "s \<ge> 0" | "s = -1" | "s < -1" by linarith
    then show ?thesis
    proof cases
      case 1
      then have "nat (s + 1) = Suc (nat s)" by simp
      then show ?thesis using 1 by (simp add: sh_def)
    next
      case 2
      then show ?thesis by (simp add: sh_def)
    next
      case 3
      then have "nat (- s) = Suc (nat (- (s + 1)))" by simp
      then show ?thesis using 3 by (simp add: sh_def)
    qed
  qed
  have sh_1: "sh b s \<le> sh b (s + 1)" for b s
    using sh_b [of b "2 * b" s] sh_s [of b s] by simp
  have sh_k: "sh b s \<le> sh b (s + int k)" for b s k
  proof (induction k)
    case (Suc k)
    then show ?case using sh_1 [of b "s + int k"] by (simp add: algebra_simps)
  qed simp
  have "s1 \<le> s2" using assms by (simp add: s1_def s2_def zdiv_mono1)
  show ?thesis
  proof (cases "s1 = s2")
    case True
    have "e1 = 65536 * s1 + e1 mod 65536" "e2 = 65536 * s2 + e2 mod 65536" by (simp_all add: s1_def s2_def)
    then have "e1 mod 65536 \<le> e2 mod 65536" using True assms by linarith
    then have "F1 \<le> F2" unfolding F1_def F2_def
      by (intro AsertFactor_mono) (simp add: unat_eq_nat_uint unsigned_of_int take_bit_eq_mod nat_mono)
    then show ?thesis unfolding v True by (intro sh_b div_le_mono mult_le_mono2)
  next
    case False
    then obtain k where k: "s2 = s1 + 1 + int k"
      using \<open>s1 \<le> s2\<close> zle_iff_zadd [of "s1 + 1" s2] by auto
    have "T * F1 \<le> T * 131071" unfolding F1_def by (intro mult_le_mono2 AsertFactor_val(2))
    then have "T * F1 div 65536 \<le> 2 * T" by (rule factor_div_le)
    then have "asert_value T e1 \<le> sh (2 * T) s1" unfolding v by (rule sh_b)
    also have "\<dots> \<le> sh T (s1 + 1)" by (rule sh_s)
    also have "\<dots> \<le> sh T s2" unfolding k by (rule sh_k)
    also have "T \<le> T * F2 div 65536"
      using AsertFactor_ge by (simp add: F2_def less_eq_div_iff_mult_less_eq)
    then have "sh T s2 \<le> asert_value T e2" unfolding v by (rule sh_b)
    finally show ?thesis .
  qed
qed


text \<open>The fixed compact encoding is monotone.\<close>

lemma Fix_Big_lex:
  assumes "wf256 t" "0 < le_val t"
  obtains n m where "unat (FixCompactEncoding (BigToCompact t)) = n * 2 ^ 24 + m" "m < 2 ^ 23" "1 \<le> n"
    "2 ^ 15 * 256 ^ n \<le> le_val t * 256 ^ 3" "le_val t * 256 ^ 3 < 2 ^ 23 * 256 ^ n"
    "m = le_val t * 256 ^ 3 div 256 ^ n"
proof -
  define s where "s = BigSize 32 t"
  have s0: "s > 0" using assms BigSize_0_iff [of t] by (simp add: s_def)
  note val = BigSize_val [OF assms(1) s_def [symmetric]]
  define v where "v = (if s \<le> 3 then le_val t * 256 ^ (3 - s) else le_val t div 256 ^ (s - 3))"
  have c: "unat (BigToCompact t) = s * 2 ^ 24 + v"
    using BigToCompact_val [OF assms(1) s_def [symmetric] s0] by (simp add: v_def)
  have v: "2 ^ 16 \<le> v" "v < 2 ^ 24"
    using BigToCompact_mantissa [OF assms(1) s_def [symmetric] s0] by (simp_all add: v_def)
  have vd: "v = le_val t * 256 ^ 3 div 256 ^ s"
  proof (cases "s \<le> 3")
    case True
    then have "(256 :: nat) ^ 3 = 256 ^ (3 - s) * 256 ^ s" by (simp flip: power_add)
    then have e: "le_val t * 256 ^ 3 = le_val t * 256 ^ (3 - s) * 256 ^ s" by (simp only: mult.assoc)
    show ?thesis unfolding e using True by (simp add: v_def)
  next
    case False
    then have "s - 3 + 3 = s" by simp
    then have e: "(256 :: nat) ^ s = 256 ^ (s - 3) * 256 ^ 3" by (metis power_add)
    show ?thesis unfolding e using False by (simp add: v_def del: power_numeral)
  qed
  define V where "V = le_val t * 256 ^ 3"
  have p: "0 < (256 :: nat) ^ s" by simp
  have V: "v * 256 ^ s \<le> V" "V < (v + 1) * 256 ^ s"
    unfolding vd V_def [symmetric] using div_times_less_eq_dividend [of V "256 ^ s"] dividend_less_div_times [OF p, of V]
    by (simp_all add: algebra_simps)
  show ?thesis
  proof (cases "v < 2 ^ 23")
    case True
    then have u: "unat (FixCompactEncoding (BigToCompact t)) = s * 2 ^ 24 + v"
      using val(4) v by (subst FixCompact_val) (simp_all add: c)
    have "2 ^ 15 * 256 ^ s \<le> v * 256 ^ s" using v by (intro mult_le_mono1) simp
    then have a: "2 ^ 15 * 256 ^ s \<le> V" using V(1) by (rule order_trans)
    have "(v + 1) * 256 ^ s \<le> 2 ^ 23 * 256 ^ s" using True by (intro mult_le_mono1) simp
    with V(2) have b: "V < 2 ^ 23 * 256 ^ s" by (rule order_less_le_trans)
    show ?thesis
      by (rule that [OF u True _ a [unfolded V_def] b [unfolded V_def] vd]) (use s0 in simp)
  next
    case False
    then have u: "unat (FixCompactEncoding (BigToCompact t)) = (s + 1) * 2 ^ 24 + v div 256"
      using val(4) v by (subst FixCompact_val) (simp_all add: c)
    have "2 ^ 15 * 256 ^ (s + 1) = 2 ^ 23 * (256 :: nat) ^ s" by simp
    also have "\<dots> \<le> v * 256 ^ s" using False by (intro mult_le_mono1) simp
    also note V(1)
    finally have a: "2 ^ 15 * 256 ^ (s + 1) \<le> V" .
    note V(2)
    also have "(v + 1) * 256 ^ s \<le> 2 ^ 24 * 256 ^ s" using v by (intro mult_le_mono1) simp
    also have "\<dots> \<le> 2 ^ 23 * 256 ^ (s + 1)" by simp
    finally have b: "V < 2 ^ 23 * 256 ^ (s + 1)" .
    have m: "v div 256 = V div 256 ^ (s + 1)" unfolding vd V_def [symmetric]
      by (simp only: div_mult2_eq [symmetric] power_add power_one_right)
    have "v div 256 < 2 ^ 23" using v by simp
    then show ?thesis
      by (rule that [OF u _ _ a [unfolded V_def] b [unfolded V_def] m [unfolded V_def]]) simp
  qed
qed

lemma Fix_Big_mono:
  assumes "wf256 t" "wf256 t'" "0 < le_val t" "le_val t \<le> le_val t'"
  shows "unat (FixCompactEncoding (BigToCompact t)) \<le> unat (FixCompactEncoding (BigToCompact t'))"
proof -
  obtain n m where a: "unat (FixCompactEncoding (BigToCompact t)) = n * 2 ^ 24 + m" "m < 2 ^ 23"
    "2 ^ 15 * 256 ^ n \<le> le_val t * 256 ^ 3" "m = le_val t * 256 ^ 3 div 256 ^ n"
    using Fix_Big_lex [OF assms(1,3)] by metis
  obtain n' m' where b: "unat (FixCompactEncoding (BigToCompact t')) = n' * 2 ^ 24 + m'"
    "le_val t' * 256 ^ 3 < 2 ^ 23 * 256 ^ n'" "m' = le_val t' * 256 ^ 3 div 256 ^ n'"
    using Fix_Big_lex [OF assms(2)] assms(3,4) by (metis order_less_le_trans)
  have le: "le_val t * 256 ^ 3 \<le> le_val t' * 256 ^ 3" using assms(4) by (rule mult_le_mono1)
  have "2 ^ 15 * 256 ^ n < 2 ^ 23 * (256 :: nat) ^ n'" using a(3) b(2) le by linarith
  then have "(256 :: nat) ^ n < 256 ^ Suc n'" by simp
  then have "n < Suc n'" by (rule power_less_imp_less_exp [rotated]) simp
  then consider "n = n'" | "n < n'" by linarith
  then show ?thesis
  proof cases
    case 1
    then show ?thesis using a b le by (simp add: div_le_mono)
  next
    case 2
    then have "(n + 1) * 2 ^ 24 \<le> n' * 2 ^ 24" by (intro mult_le_mono1) simp
    then show ?thesis using a b by simp
  qed
qed


lemma AsertBits_mono:
  assumes "wf256 t" "wf256 t'" "0 < le_val t" "le_val t \<le> le_val t'"
  shows "AsertBits t \<le> AsertBits t'"
proof -
  have "FixCompactEncoding (BigToCompact t) \<le> FixCompactEncoding (BigToCompact t')"
    using Fix_Big_mono [OF assms] by (simp add: word_le_nat_alt)
  then show ?thesis using min_le_max_bits by (auto simp: AsertBits_def Let_def)
qed

lemma AsertTarget_mono:
  fixes c :: u32
  defines "T \<equiv> le_val (CompactToBig c)"
  assumes "e1 \<le> e2" "asert_value T e2 < 2 ^ 256" "T > 0"
  shows "AsertTarget c e1 \<le> AsertTarget c e2"
proof -
  have le: "asert_value T e1 \<le> asert_value T e2" by (rule asert_value_step [OF assms(2)])
  have low: "AsertTarget c e = MIN_DIFFICULTY_BITS" if "e div 65536 < - 255" for e
  proof -
    obtain p where "Multiply256x64 (CompactToBig c) (ucast (AsertFactor (word_of_int (e mod 65536)))) = Some p"
      using AsertTarget_mult by blast
    then show ?thesis using that by (simp add: AsertTarget_def AsertSplit_floor)
  qed
  show ?thesis
  proof (cases "e1 div 65536 < - 255")
    case True
    then show ?thesis using low AsertTarget_bounds by simp
  next
    case False
    then have h: "e1 div 65536 \<ge> - 255" "e2 div 65536 \<ge> - 255"
      using zdiv_mono1 [OF assms(2), of 65536] by simp_all
    have lt1: "asert_value T e1 < 2 ^ 256" using le assms(3) by simp
    have f1: "AsertTarget c e1 = (if asert_value T e1 = 0 then MIN_DIFFICULTY_BITS else AsertBits (le_bytes 32 (asert_value T e1)))"
      using AsertTarget_formula [of c e1] lt1 h(1) assms(4) by (simp add: T_def)
    have f2: "AsertTarget c e2 = (if asert_value T e2 = 0 then MIN_DIFFICULTY_BITS else AsertBits (le_bytes 32 (asert_value T e2)))"
      using AsertTarget_formula [of c e2] assms(3) h(2) assms(4) by (simp add: T_def)
    have "AsertBits (le_bytes 32 (asert_value T e1)) \<le> AsertBits (le_bytes 32 (asert_value T e2))"
      if "0 < asert_value T e1"
      using that le lt1 assms(3) by (intro AsertBits_mono) (simp_all add: le_val_le_bytes wf256_def)
    then show ?thesis using f1 f2 le AsertBits_bounds by auto
  qed
qed

section \<open>Median time past\<close>

lemma count_ge_sort: "count_ge v (sort xs) = count_ge v xs"
  by (simp add: filter_sort)

lemma count_ge_nth_sort:
  assumes "k < length xs"
  shows "length xs - k \<le> count_ge (sort xs ! k) xs"
proof -
  let ?ys = "sort xs"
  have "\<forall>x \<in> set (drop k ?ys). ?ys ! k \<le> x"
    by (auto simp: in_set_conv_nth less_diff_conv add.commute intro!: sorted_nth_mono)
  then have "filter (\<lambda>x. ?ys ! k \<le> x) (drop k ?ys) = drop k ?ys" by (simp add: filter_id_conv)
  then have "length xs - k \<le> count_ge (?ys ! k) (take k ?ys @ drop k ?ys)" by (simp only: filter_append) simp
  then show ?thesis by (simp add: count_ge_sort)
qed

lemma nth_sort_ge:
  assumes "k < length xs" "length xs - k \<le> count_ge v xs"
  shows "v \<le> sort xs ! k"
proof (rule ccontr)
  let ?ys = "sort xs"
  assume "\<not> v \<le> ?ys ! k"
  have "\<forall>x \<in> set (take (Suc k) ?ys). \<not> v \<le> x"
  proof
    fix x assume "x \<in> set (take (Suc k) ?ys)"
    then obtain i where "i \<le> k" "x = ?ys ! i" by (auto simp: in_set_conv_nth less_Suc_eq_le)
    moreover have "?ys ! i \<le> ?ys ! k" using \<open>i \<le> k\<close> assms(1) by (intro sorted_nth_mono) simp_all
    ultimately show "\<not> v \<le> x" using \<open>\<not> v \<le> ?ys ! k\<close> by simp
  qed
  then have "filter (\<lambda>x. v \<le> x) (take (Suc k) ?ys) = []" by (simp add: filter_empty_conv)
  then have "count_ge v (take (Suc k) ?ys @ drop (Suc k) ?ys) \<le> length xs - Suc k"
    by (simp only: filter_append) (simp add: le_trans [OF length_filter_le])
  then have "count_ge v xs \<le> length xs - Suc k" by (simp add: count_ge_sort)
  then show False using assms by simp
qed

lemma collect_times_0 [simp]: "collect_times st q 0 = []"
  by (cases q) simp_all

lemma collect_times_11:
  assumes "st p = Some b"
  shows "collect_times st (Some p) 11 = uint (nTime b) # collect_times st (pprev b) 10"
proof -
  have "collect_times st (Some p) (Suc 10) = uint (nTime b) # collect_times st (pprev b) 10"
    by (simp only: collect_times.simps assms option.case)
  then show ?thesis by simp
qed

lemma collect_times_prefix:
  "collect_times st q (Suc k) = collect_times st q k \<or> (\<exists>x. collect_times st q (Suc k) = collect_times st q k @ [x])"
proof (induction k arbitrary: q)
  case 0
  then show ?case by (cases q) (auto split: option.splits)
next
  case (Suc k)
  show ?case
  proof (cases q)
    case None
    then show ?thesis by simp
  next
    case (Some p)
    show ?thesis
    proof (cases "st p")
      case None
      then show ?thesis using Some by simp
    next
      case b: (Some b)
      then show ?thesis using Some Suc.IH [of "pprev b"] by auto
    qed
  qed
qed

lemma sort_Nil_iff: "sort xs = [] \<longleftrightarrow> xs = []"
  by (metis length_0_conv length_sort)

lemma median_mono:
  fixes L M :: "int list"
  assumes "L = M \<or> (\<exists>x. L = M @ [x])" "L \<noteq> []" "sort L ! (length L div 2) < t"
  shows "sort L ! (length L div 2) \<le> sort (t # M) ! (length (t # M) div 2)"
proof (rule nth_sort_ge)
  let ?v = "sort L ! (length L div 2)"
  have c: "length L - length L div 2 \<le> count_ge ?v L"
    using assms(2) by (intro count_ge_nth_sort) simp
  have n: "count_ge ?v (t # M) = Suc (count_ge ?v M)" using assms(3) by simp
  show "length (t # M) - length (t # M) div 2 \<le> count_ge ?v (t # M)"
    using assms(1)
  proof
    assume "L = M"
    then show ?thesis using c n by simp linarith
  next
    assume "\<exists>x. L = M @ [x]"
    then obtain x where x: "L = M @ [x]" by blast
    have "count_ge ?v L \<le> Suc (count_ge ?v M)" unfolding x by simp
    then show ?thesis using c n x by simp
  qed
qed simp

lemma GetMedianTimePast_eq:
  "collect_times st (Some q) 11 \<noteq> [] \<Longrightarrow> GetMedianTimePast st (Some q) =
     sort (collect_times st (Some q) 11) ! (length (collect_times st (Some q) 11) div 2)"
  by (simp add: GetMedianTimePast_def Let_def sort_Nil_iff)

lemma GetMedianTimePast_mono:
  assumes "st p = Some b" "st p' = Some b'" "pprev b' = Some p" "GetMedianTimePast st (Some p) < uint (nTime b')"
  shows "GetMedianTimePast st (Some p) \<le> GetMedianTimePast st (Some p')"
proof -
  let ?L = "collect_times st (Some p) 11" and ?M = "collect_times st (Some p) 10"
  have L: "?L \<noteq> []" using collect_times_11 [of st p b] assms(1) by simp
  have N: "collect_times st (Some p') 11 = uint (nTime b') # ?M"
    using collect_times_11 [of st p' b', OF assms(2)] assms(3) by simp
  have pre: "?L = ?M \<or> (\<exists>x. ?L = ?M @ [x])" using collect_times_prefix [of st "Some p" 10] by simp
  have v: "GetMedianTimePast st (Some p) = sort ?L ! (length ?L div 2)"
    using L by (rule GetMedianTimePast_eq)
  have "GetMedianTimePast st (Some p') = sort (uint (nTime b') # ?M) ! (length (uint (nTime b') # ?M) div 2)"
    using GetMedianTimePast_eq [of st p'] unfolding N by simp
  then show ?thesis
    using median_mono [OF pre L] assms(4) unfolding v by simp
qed

lemma CheckBlockTimestamp_median:
  assumes "CheckBlockTimestamp g st now block (Some p) h"
  shows "GetMedianTimePast st (Some p) < uint (hdr_nTime block)"
  using assms by (auto simp: CheckBlockTimestamp_def Let_def split: if_splits)

lemma ClampTimespan_bounds:
  assumes "0 < target" "1 \<le> mc"
  shows "cdiv target mc \<le> ClampTimespan a target mc \<and> ClampTimespan a target mc \<le> target * mc \<and>
    0 \<le> ClampTimespan a target mc \<and>
    (cdiv target mc \<le> a \<and> a \<le> target * mc \<longrightarrow> ClampTimespan a target mc = a)"
proof -
  have c: "cdiv target mc = target div mc" using assms by (simp add: cdiv_nonneg)
  have "target div mc \<le> target" using zdiv_mono2 [of target 1 mc] assms by simp
  moreover have "target * 1 \<le> target * mc" using assms by (intro mult_left_mono) simp_all
  moreover have "0 \<le> target div mc" using assms by (simp add: pos_imp_zdiv_nonneg_iff)
  ultimately show ?thesis by (auto simp: ClampTimespan_def Let_def c)
qed

lemma CalculateNextWorkRequired_val:
  assumes "0 < target" "1 \<le> mc" "target * mc < 2 ^ 56"
  shows "\<exists>t. wf256 t \<and>
    le_val t = le_val (CompactToBig c) * nat (ClampTimespan a target mc) div nat target mod 2 ^ 256 \<and>
    CalculateNextWorkRequired c a target mc =
      (let b = (if BigToCompact t < MIN_DIFFICULTY_BITS then MIN_DIFFICULTY_BITS else BigToCompact t)
       in if b > MAX_DIFFICULTY_BITS then MAX_DIFFICULTY_BITS else b)"
proof -
  define x where "x = ClampTimespan a target mc"
  have x: "0 \<le> x" "x < 2 ^ 56" using ClampTimespan_bounds [OF assms(1,2), of a] assms(3) by (simp_all add: x_def)
  have "target * 1 \<le> target * mc" using assms by (intro mult_left_mono) simp_all
  then have t: "target < 2 ^ 56" using assms(3) by simp
  have ux: "unat (word_of_int x :: u64) = nat x" "unat (word_of_int target :: u64) = nat target"
    using x t assms(1) by (simp_all add: unat_eq_nat_uint unsigned_of_int take_bit_int_eq_self)
  obtain p where p: "Multiply256x64 (CompactToBig c) (word_of_int x) = Some p"
    using Multiply256x64_total [of "word_of_int x" "CompactToBig c"] ux(1) x by (auto simp: nat_less_iff)
  have pv: "length p = 40" "le_val p = le_val (CompactToBig c) * nat x"
    using Multiply256x64_val [OF p] wf256_CompactToBig [of c] ux(1) by (simp_all add: wf256_def)
  have d: "length (Divide320x64 p (word_of_int target)) = 32"
    "le_val (Divide320x64 p (word_of_int target)) = le_val p div nat target mod 256 ^ 32"
    using Divide320x64_val [OF pv(1), of "word_of_int target"] ux(2) t assms(1) by simp_all
  show ?thesis
    using p d pv(2)
    by (intro exI [of _ "Divide320x64 p (word_of_int target)"])
      (simp add: wf256_def CalculateNextWorkRequired_def Let_def x_def)
qed

lemma GetNextWorkRequired_asert:
  assumes "wf_store st" "no_skips st" "st p = Some b" "\<not> IsDilV params" "\<not> IsRegtest params"
    and "0 < h" "h \<le> nHeight b + 1"
    and "h = (if timestampValidationHeight params > 0 \<and> nHeight b + 1 \<ge> timestampValidationHeight params
              then timestampValidationHeight params else asertActivationHeight params)"
  obtains a anchor where "nth_parent st p (nat (nHeight b + 1 - h)) = Some a" "st a = Some anchor"
    "nHeight anchor = h - 1"
    "GetNextWorkRequired (Some params) st (Some p) t = Some (GetNextWorkRequiredASERT params b anchor)"
proof -
  obtain a anchor where a: "nth_parent st p (nat (nHeight b - (h - 1))) = Some a" "st a = Some anchor" "nHeight anchor = h - 1"
    using GetAncestor_walk_parent [OF assms(1-3), of "h - 1" "nat (nHeight b - (h - 1))"] assms(6,7) by auto
  moreover from a(1) have "GetAncestor st p (h - 1) = Some (Some a)"
    using GetAncestor_parent [of st p b "h - 1", OF assms(1-3)] assms(6,7) by simp
  ultimately show ?thesis
    using that [of a anchor] assms(3-8)
    by (auto simp: GetNextWorkRequired_def Let_def algebra_simps split: if_splits)
qed

definition ex_anchor :: "u32 \<Rightarrow> CBlockIndex" where
  "ex_anchor bits = CBlockIndex_default\<lparr>header := CBlockHeader_SetNull\<lparr>hdr_nBits := bits\<rparr>\<rparr>"

definition ex_at :: "u32 \<Rightarrow> CBlockIndex" where
  "ex_at t = CBlockIndex_default\<lparr>nTime := t\<rparr>"

lemma ex_exponent:
  "AsertExponent Mainnet (ex_at t) (ex_anchor bits) = cdiv ((uint t - 240) * 65536) 34560"
  by (simp add: AsertExponent_def ex_at_def ex_anchor_def CBlockIndex_default_def Let_def Mainnet_def)

section \<open>Properties\<close>





text \<open>
  ASERT never leaves the allowed range of bits, whatever the anchor and the times; its exponent is
  split by floor division, and its cubic factor is computed without overflow and lies between 1.0 and 2.0 in
  16-bit fixed point.
\<close>

theorem asert_bounds:
  "MIN_DIFFICULTY_BITS \<le> GetNextWorkRequiredASERT params prev anchor \<and>
   GetNextWorkRequiredASERT params prev anchor \<le> MAX_DIFFICULTY_BITS \<and>
   AsertSplit e = (e div 65536, word_of_int (e mod 65536)) \<and>
   unat (AsertFactor frac) =
     65536 + (195766423245049 * unat frac + 971821376 * unat frac ^ 2 + 5127 * unat frac ^ 3 + 2 ^ 47) div 2 ^ 48 \<and>
   65536 \<le> unat (AsertFactor frac) \<and> unat (AsertFactor frac) \<le> 131071"
  unfolding GetNextWorkRequiredASERT_def
  using AsertTarget_bounds AsertSplit_floor AsertFactor_val AsertFactor_ge by blast

text \<open>
  ASERT is monotone. For the same anchor, the later the parent block is relative to the schedule, the
  easier (or equal) the bits, as long as the ideal target fits 256 bits.
\<close>

theorem asert_monotone:
  assumes "AsertExponent params prev1 anchor \<le> AsertExponent params prev2 anchor"
    and "asert_value (le_val (CompactToBig (hdr_nBits (header anchor)))) (AsertExponent params prev2 anchor) < 2 ^ 256"
    and "0 < le_val (CompactToBig (hdr_nBits (header anchor)))"
  shows "GetNextWorkRequiredASERT params prev1 anchor \<le> GetNextWorkRequiredASERT params prev2 anchor"
  unfolding GetNextWorkRequiredASERT_def using assms by (rule AsertTarget_mono)

theorem asert_monotone_witness:
  "GetNextWorkRequiredASERT Mainnet (ex_at 240) (ex_anchor 0x1d00ffff) \<le>
   GetNextWorkRequiredASERT Mainnet (ex_at 34800) (ex_anchor 0x1d00ffff)"
proof (rule asert_monotone)
  have e: "AsertExponent Mainnet (ex_at 240) (ex_anchor 0x1d00ffff) = 0"
    "AsertExponent Mainnet (ex_at 34800) (ex_anchor 0x1d00ffff) = 65536"
    unfolding ex_exponent by (simp_all add: cdiv_def)
  have b: "hdr_nBits (header (ex_anchor 0x1d00ffff)) = 0x1d00ffff" by (simp add: ex_anchor_def)
  show "AsertExponent Mainnet (ex_at 240) (ex_anchor 0x1d00ffff) \<le> AsertExponent Mainnet (ex_at 34800) (ex_anchor 0x1d00ffff)"
    unfolding e by simp
  show "0 < le_val (CompactToBig (hdr_nBits (header (ex_anchor 0x1d00ffff))))"
    unfolding b by (simp add: CompactToBig_val)
  show "asert_value (le_val (CompactToBig (hdr_nBits (header (ex_anchor 0x1d00ffff)))))
      (AsertExponent Mainnet (ex_at 34800) (ex_anchor 0x1d00ffff)) < 2 ^ 256"
    unfolding e b by (simp add: CompactToBig_val asert_value_def AsertFactor_0)
qed

text \<open>
  On schedule ASERT keeps the difficulty: with exponent 0 and canonical anchor bits inside the range the
  next bits are the anchor's.
\<close>

theorem asert_on_schedule:
  assumes "AsertExponent params prev anchor = 0" "canonical_compact (hdr_nBits (header anchor))"
    "MIN_DIFFICULTY_BITS \<le> hdr_nBits (header anchor)" "hdr_nBits (header anchor) \<le> MAX_DIFFICULTY_BITS"
  shows "GetNextWorkRequiredASERT params prev anchor = hdr_nBits (header anchor)"
proof -
  let ?c = "hdr_nBits (header anchor)"
  obtain n m where "2 ^ 15 \<le> m" "le_val (CompactToBig ?c) = m * 256 ^ (n - 3)"
    using canonical_decompose [OF assms(2)] by metis
  then have "0 < le_val (CompactToBig ?c)" by simp
  moreover have "\<not> ?c < MIN_DIFFICULTY_BITS" "\<not> MAX_DIFFICULTY_BITS < ?c"
    using assms(3,4) by simp_all
  ultimately show ?thesis
    using AsertTarget_whole [of 0 0 ?c]
    unfolding GetNextWorkRequiredASERT_def assms(1)
    by (simp add: ShiftTargetRight_def IsTargetZero_val AsertBits_def Fix_Big_Compact [OF assms(2)] Let_def)
qed

theorem asert_on_schedule_witness:
  "GetNextWorkRequiredASERT Mainnet (ex_at 240) (ex_anchor 0x1e01fffe) = 0x1e01fffe"
proof -
  have e: "AsertExponent Mainnet (ex_at 240) (ex_anchor 0x1e01fffe) = 0"
    unfolding ex_exponent by (simp add: cdiv_def)
  have b: "hdr_nBits (header (ex_anchor 0x1e01fffe)) = 0x1e01fffe" by (simp add: ex_anchor_def)
  show ?thesis
    using asert_on_schedule [OF e, unfolded b]
    by (simp add: canonical_compact_def MIN_DIFFICULTY_BITS_def MAX_DIFFICULTY_BITS_def)
qed

text \<open>
  C28: the left shift of ASERT has no overflow test below 256 positions. With mainnet parameters and an anchor at
  the easiest bits, a parent 31 halflives late gives the easiest bits, and one 32 halflives late the hardest: the
  shifted target is zero modulo 2^256 and is treated as an underflow.
\<close>

theorem asert_overflow_flips:
  "GetNextWorkRequiredASERT Mainnet (ex_at (240 + 31 * 34560)) (ex_anchor 0x1f0fffff) = MAX_DIFFICULTY_BITS \<and>
   GetNextWorkRequiredASERT Mainnet (ex_at (240 + 32 * 34560)) (ex_anchor 0x1f0fffff) = MIN_DIFFICULTY_BITS"
proof -
  let ?T = "CompactToBig 0x1f0fffff"
  have e: "AsertExponent Mainnet (ex_at (240 + 31 * 34560)) (ex_anchor 0x1f0fffff) = 65536 * 31"
    "AsertExponent Mainnet (ex_at (240 + 32 * 34560)) (ex_anchor 0x1f0fffff) = 65536 * 32"
    unfolding ex_exponent by (simp_all add: cdiv_def)
  have b: "hdr_nBits (header (ex_anchor 0x1f0fffff)) = 0x1f0fffff" by (simp add: ex_anchor_def)
  have s31: "wf256 (ShiftTargetLeft ?T 31)" "le_val (ShiftTargetLeft ?T 31) = 2 ^ 255"
    using ShiftTargetLeft_val [OF wf256_CompactToBig, of 31 "0x1f0fffff"] by (simp_all add: CompactToBig_val)
  have s32: "le_val (ShiftTargetLeft ?T 32) = 0"
    using ShiftTargetLeft_val [OF wf256_CompactToBig, of 32 "0x1f0fffff"] by (simp add: CompactToBig_val)
  have "BigSize 32 (ShiftTargetLeft ?T 31) = 32" using s31 by (intro BigSize_unique) simp_all
  then have "unat (BigToCompact (ShiftTargetLeft ?T 31)) = 32 * 2 ^ 24 + 2 ^ 23"
    using BigToCompact_val [OF s31(1)] s31(2) by simp
  then have "unat (FixCompactEncoding (BigToCompact (ShiftTargetLeft ?T 31))) = 33 * 2 ^ 24 + 2 ^ 15"
    by (subst FixCompact_val) simp_all
  then have "AsertBits (ShiftTargetLeft ?T 31) = MAX_DIFFICULTY_BITS"
    by (simp add: AsertBits_def Let_def word_less_nat_alt MIN_DIFFICULTY_BITS_def MAX_DIFFICULTY_BITS_def)
  then show ?thesis
    unfolding GetNextWorkRequiredASERT_def e b
    using AsertTarget_whole [of "65536 * 31" 31 "0x1f0fffff"] AsertTarget_whole [of "65536 * 32" 32 "0x1f0fffff"] s31 s32
    by (simp add: IsTargetZero_val)
qed

text \<open>
  C24: median time past never goes back: if a block passes the timestamp rules on top of its parent, the
  median time past of the new block is at least the parent's, and the block's own time is above it.
\<close>

theorem median_time_monotone:
  assumes "st p = Some b" "st p' = Some b'" "pprev b' = Some p" "nTime b' = hdr_nTime block"
    "CheckBlockTimestamp g st now block (Some p) h"
  shows "GetMedianTimePast st (Some p) < uint (nTime b') \<and>
     GetMedianTimePast st (Some p) \<le> GetMedianTimePast st (Some p')"
  using CheckBlockTimestamp_median [OF assms(5)] GetMedianTimePast_mono [OF assms(1-3)] assms(4) by simp

theorem median_time_monotone_witness:
  "GetMedianTimePast [0 \<mapsto> ex_at 100, 1 \<mapsto> (ex_at 200)\<lparr>pprev := Some 0\<rparr>] (Some 0) = 100 \<and>
   100 \<le> GetMedianTimePast [0 \<mapsto> ex_at 100, 1 \<mapsto> (ex_at 200)\<lparr>pprev := Some 0\<rparr>] (Some 1)"
proof -
  let ?st = "[0 \<mapsto> ex_at 100, 1 \<mapsto> (ex_at 200)\<lparr>pprev := Some 0\<rparr>] :: block_store"
  let ?b = "CBlockHeader_SetNull\<lparr>hdr_nTime := 200\<rparr>"
  have p: "pprev (ex_at t) = None" "nTime (ex_at t) = t" for t by (simp_all add: ex_at_def CBlockIndex_default_def)
  have c: "collect_times ?st (Some 0) 11 = [100]"
    using collect_times.simps(3) [of ?st 0 10] by (simp add: p)
  then have m: "GetMedianTimePast ?st (Some 0) = 100" by (simp add: GetMedianTimePast_def)
  then have "CheckBlockTimestamp None ?st 0 ?b (Some 0) 1"
    by (simp add: CheckBlockTimestamp_def MAX_FUTURE_BLOCK_TIME_def)
  then show ?thesis
    using median_time_monotone [of ?st 0 "ex_at 100" 1 "(ex_at 200)\<lparr>pprev := Some 0\<rparr>" ?b None 0 1] m by (simp add: p)
qed

text \<open>
  The timespan guard of the retarget does not see time going backwards. The difference of the two 32-bit times
  is computed unsigned, so a last block before the first one in time gives a positive timespan near 2^32, which the
  clamp turns into the largest allowed easing, while equal times fall back to no adjustment.
\<close>

theorem retarget_time_backwards:
  assumes "nTime last' < nTime first'" "0 < n * blockTime params" "1 \<le> mc"
    "n * blockTime params * mc \<le> 2 ^ 32 - (uint (nTime first') - uint (nTime last'))"
  shows "RetargetTimespan params n last' first' = 2 ^ 32 - (uint (nTime first') - uint (nTime last')) \<and>
     ClampTimespan (RetargetTimespan params n last' first') (n * blockTime params) mc = n * blockTime params * mc"
proof -
  have "uint (nTime last') < uint (nTime first')" using assms(1) by (simp add: word_less_def)
  then have lt: "uint (nTime last') - uint (nTime first') < 0" by simp
  have r: "uint (nTime first') < 2 ^ 32" "0 \<le> uint (nTime last')"
    using uint_lt2p [of "nTime first'"] by simp_all
  have "uint (nTime last' - nTime first') = (uint (nTime last') - uint (nTime first')) mod 2 ^ 32"
    by (simp add: uint_word_ariths)
  also have "\<dots> = (uint (nTime last') - uint (nTime first') + 2 ^ 32) mod 2 ^ 32" by simp
  also have "\<dots> = 2 ^ 32 - (uint (nTime first') - uint (nTime last'))"
    using lt r by (subst mod_pos_pos_trivial) linarith+
  finally have d: "uint (nTime last' - nTime first') = 2 ^ 32 - (uint (nTime first') - uint (nTime last'))" .
  have "\<not> 2 ^ 32 - (uint (nTime first') - uint (nTime last')) \<le> 0" using r by linarith
  then have u: "RetargetTimespan params n last' first' = 2 ^ 32 - (uint (nTime first') - uint (nTime last'))"
    unfolding RetargetTimespan_def d Let_def by (simp only: if_False)
  show ?thesis
    using ClampTimespan_bounds [OF assms(2,3)] assms(4) unfolding u by (auto simp: ClampTimespan_def Let_def)
qed

theorem retarget_time_backwards_witness:
  "ClampTimespan (RetargetTimespan Mainnet 100 (ex_at 1000) (ex_at 1001)) 24000 4 = 96000"
proof -
  have t: "nTime (ex_at t) = t" for t by (simp add: ex_at_def)
  have b: "blockTime Mainnet = 240" by (simp add: Mainnet_def)
  show ?thesis
    using retarget_time_backwards [of "ex_at 1000" "ex_at 1001" 100 Mainnet 4] by (auto simp: t b)
qed

text \<open>
  Once ASERT is active, for a well-formed block tree \<open>GetNextWorkRequired\<close> always returns: it finds the
  anchor, the ancestor just below the activation height, and answers with the ASERT bits, inside the range.
\<close>

theorem next_work_asert:
  assumes "wf_store st" "no_skips st" "st p = Some b" "\<not> IsDilV params" "\<not> IsRegtest params"
    and "0 < h" "h \<le> nHeight b + 1"
    and "h = (if timestampValidationHeight params > 0 \<and> nHeight b + 1 \<ge> timestampValidationHeight params
              then timestampValidationHeight params else asertActivationHeight params)"
  shows "\<exists>a anchor bits. nth_parent st p (nat (nHeight b + 1 - h)) = Some a \<and> st a = Some anchor \<and>
     nHeight anchor = h - 1 \<and> bits = GetNextWorkRequiredASERT params b anchor \<and>
     GetNextWorkRequired (Some params) st (Some p) t = Some bits \<and>
     MIN_DIFFICULTY_BITS \<le> bits \<and> bits \<le> MAX_DIFFICULTY_BITS"
  using GetNextWorkRequired_asert [OF assms, of t] AsertTarget_bounds
  unfolding GetNextWorkRequiredASERT_def by metis

theorem next_work_asert_witness:
  "\<exists>a anchor. nth_parent ex_store 8 5 = Some a \<and> ex_store a = Some anchor \<and> nHeight anchor = 3 \<and>
     GetNextWorkRequired (Some (Mainnet\<lparr>timestampValidationHeight := 4\<rparr>)) ex_store (Some 8) 0 =
       Some (GetNextWorkRequiredASERT (Mainnet\<lparr>timestampValidationHeight := 4\<rparr>) (ex_chain 8) anchor)"
proof -
  let ?p = "Mainnet\<lparr>timestampValidationHeight := 4\<rparr>"
  have n: "\<not> IsDilV ?p" "\<not> IsRegtest ?p" by (simp_all add: IsDilV_def IsRegtest_def Mainnet_def)
  have h: "nHeight (ex_chain 8) = 8" "ex_store 8 = Some (ex_chain 8)"
    by (simp_all add: ex_store_def ex_chain_def CBlockIndex_default_def)
  show ?thesis
    using next_work_asert [OF wf_ex_store h(2) n, of 4 0] h(1) by auto
qed

end
