(* ===== verification/BlockValidation.thy ===== *)
theory BlockValidation
  imports Params Arith256
begin

text \<open>
  \<open>src/src/consensus/validation.cpp\<close>: the block subsidy, the merkle root, the decoding of the transactions of a
  block, the coinbase rules, the checks for repeated transactions and repeated spends, and the sum of the fees.
  \<open>g_chainParams\<close> is the option argument \<open>g\<close>; the query \<open>GetUTXO\<close> of the UTXO set is the argument \<open>utxo\<close>, a
  function from outpoints to entries. The position of a transaction, which is only part of a message, is not a
  part of the errors.
\<close>

section \<open>Money\<close>

text \<open>\<open>CAmount\<close> is a signed 64-bit number.\<close>

type_synonym CAmount = i64

definition COIN :: int where "COIN = 100000000"
definition MAX_MONEY :: int where "MAX_MONEY = 21000000 * COIN"

definition MoneyRange :: "CAmount \<Rightarrow> bool" where
  "MoneyRange v \<longleftrightarrow> sint v \<ge> 0 \<and> sint v \<le> MAX_MONEY"

definition CalculateBlockSubsidy :: "ChainParams option \<Rightarrow> u32 \<Rightarrow> u64" where
  "CalculateBlockSubsidy g height =
     (let nSubsidy = (case g of Some p \<Rightarrow> of_nat (initialReward p) | None \<Rightarrow> of_int (50 * COIN)) :: u64;
          nHalvingInterval = (case g of Some p \<Rightarrow> of_nat (halvingInterval p) | None \<Rightarrow> 210000) :: u64;
          nHalvings = ucast (ucast height div nHalvingInterval) :: u32
      in if nHalvings \<ge> 64 then 0 else drop_bit (unat nHalvings) nSubsidy)"

section \<open>Merkle root\<close>

text \<open>The inner loop over one level, and the loop over the levels, on the flat array of the tree.\<close>

function MerkleLevel :: "(bytes \<Rightarrow> uint256) \<Rightarrow> nat \<Rightarrow> nat \<Rightarrow> nat \<Rightarrow> uint256 list \<Rightarrow> uint256 list" where
  "MerkleLevel sha3 levelOffset levelSize i merkleTree =
     (if i < levelSize then
        (let i2 = min (i + 1) (levelSize - 1);
             combined = merkleTree ! (levelOffset + i) @ merkleTree ! (levelOffset + i2)
         in MerkleLevel sha3 levelOffset levelSize (i + 2) (merkleTree @ [sha3 combined]))
      else merkleTree)"
  by pat_completeness auto

termination
  by (relation "measure (\<lambda>(_, _, levelSize, i, _). levelSize - i)") auto

function MerkleLevels :: "(bytes \<Rightarrow> uint256) \<Rightarrow> nat \<Rightarrow> nat \<Rightarrow> uint256 list \<Rightarrow> uint256 list" where
  "MerkleLevels sha3 levelOffset levelSize merkleTree =
     (if levelSize > 1 then
        MerkleLevels sha3 (levelOffset + levelSize) ((levelSize + 1) div 2)
          (MerkleLevel sha3 levelOffset levelSize 0 merkleTree)
      else merkleTree)"
  by pat_completeness auto

termination
  by (relation "measure (\<lambda>(_, _, levelSize, _). levelSize)") auto

declare MerkleLevel.simps [simp del] MerkleLevels.simps [simp del]

definition TxId :: "(bytes \<Rightarrow> uint256) \<Rightarrow> CTransaction \<Rightarrow> uint256" where
  "TxId sha3 tx = fst (GetHash sha3 tx)"

definition BuildMerkleRoot :: "(bytes \<Rightarrow> uint256) \<Rightarrow> CTransaction list \<Rightarrow> uint256" where
  "BuildMerkleRoot sha3 transactions =
     (if transactions = [] then zero256
      else
        (let merkleTree = MerkleLevels sha3 0 (length transactions) (map (TxId sha3) transactions)
         in if merkleTree = [] then zero256 else last merkleTree))"

section \<open>The transactions of a block\<close>

datatype block_error =
    NoTransactionData
  | IncompleteTransactionCount
  | UnsupportedTransactionCount
  | ZeroTransactions
  | TooManyTransactions
  | IncompleteTransactionData
  | FailedToDeserializeTransaction tx_error
  | ExtraDataAfterLastTransaction
  | InvalidProofOfWork
  | InvalidBlockVersion
  | NotACoinbase
  | CoinbaseOneInput
  | CoinbaseNullPrevout
  | CoinbaseScriptSigSize
  | CoinbaseNoOutput
  | CoinbaseValueCalculationOverflow
  | CoinbaseOutputOverflow
  | CoinbaseValueExceeds
  | CoinbaseThreeOutputs
  | DevFundInsufficient
  | DevRewardInsufficient
  | MissingDevFund
  | MissingDevReward
  | DuplicateTransaction
  | DoubleSpendInBlock
  | MerkleRootMismatch
  | InputNotFound
  | InputValueOverflow
  | OutputValueOverflow
  | NegativeFee
  | TotalFeesOverflow

definition ReadTxCount :: "bytes \<Rightarrow> block_error + u64 \<times> bytes" where
  "ReadTxCount data =
     (case data of [] \<Rightarrow> Inl NoTransactionData
      | firstByte # rest \<Rightarrow>
          if firstByte < 253 then Inr (ucast firstByte, rest)
          else if firstByte = 253 then
            (if 2 > length rest then Inl IncompleteTransactionCount
             else Inr (ucast (rest ! 0) OR push_bit 8 (ucast (rest ! 1)), drop 2 rest))
          else if firstByte = 254 then
            (if 4 > length rest then Inl IncompleteTransactionCount
             else Inr (ucast (rest ! 0) OR push_bit 8 (ucast (rest ! 1)) OR push_bit 16 (ucast (rest ! 2)) OR
                       push_bit 24 (ucast (rest ! 3)), drop 4 rest))
          else Inl UnsupportedTransactionCount)"

definition ReadBlockTransaction :: "bytes \<Rightarrow> block_error + CTransaction \<times> bytes" where
  "ReadBlockTransaction data =
     (if data = [] then Inl IncompleteTransactionData
      else
        (case Deserialize CTransaction_default data True of
           Inl e \<Rightarrow> Inl (FailedToDeserializeTransaction e)
         | Inr (tx, bytesConsumed) \<Rightarrow> Inr (tx, drop bytesConsumed data)))"

definition DeserializeBlockTransactions :: "bytes \<Rightarrow> block_error + CTransaction list" where
  "DeserializeBlockTransactions vtx_data =
     bindE (ReadTxCount vtx_data) (\<lambda>(txCount, data).
       if txCount = 0 then Inl ZeroTransactions
       else if txCount > 100000 then Inl TooManyTransactions
       else
         bindE (decode_n (unat txCount) ReadBlockTransaction data) (\<lambda>(transactions, data).
           if data \<noteq> [] then Inl ExtraDataAfterLastTransaction else Inr transactions))"

section \<open>Header and coinbase\<close>

definition MAX_BLOCK_VERSION :: int where "MAX_BLOCK_VERSION = 4"

definition CheckBlockHeader ::
    "(bytes \<Rightarrow> uint256) \<Rightarrow> (bytes \<Rightarrow> uint256) \<Rightarrow> 'a CBlockHeader_scheme \<Rightarrow> u32 \<Rightarrow> block_error + unit" where
  "CheckBlockHeader sha3 randomx block bits =
     (if \<not> IsVDFBlock block \<and> \<not> CheckProofOfWork (fst (Header_GetHash sha3 randomx block)) bits
      then Inl InvalidProofOfWork
      else if sint (hdr_nVersion block) < 1 \<or> sint (hdr_nVersion block) > MAX_BLOCK_VERSION
      then Inl InvalidBlockVersion
      else Inr ())"

definition IsTestnet :: "ChainParams \<Rightarrow> bool" where
  "IsTestnet p \<longleftrightarrow> cp_network p = TESTNET"

definition MINING_TAX_PERCENT :: u64 where "MINING_TAX_PERCENT = 2"
definition DEV_FUND_SHARE :: u64 where "DEV_FUND_SHARE = 50"

definition DEV_FUND_PUBKEY_HASH :: bytes where
  "DEV_FUND_PUBKEY_HASH =
     [0x96, 0x85, 0x9a, 0x6f, 0x0b, 0xf2, 0x80, 0xb9, 0x5e, 0x36,
      0xbb, 0xe6, 0xaf, 0x01, 0x02, 0x5f, 0x9e, 0xd4, 0x5f, 0xce]"

definition DEV_REWARD_PUBKEY_HASH :: bytes where
  "DEV_REWARD_PUBKEY_HASH =
     [0xe2, 0x7c, 0x4c, 0x3f, 0xd6, 0x4a, 0x06, 0xc9, 0x6a, 0x11,
      0x85, 0xa3, 0xcc, 0xc2, 0x0c, 0xc6, 0x96, 0x93, 0xa1, 0xd5]"

text \<open>Both coinbase amounts, with the overflow tests of the loops.\<close>

fun SumChecked :: "block_error \<Rightarrow> u64 \<Rightarrow> u64 list \<Rightarrow> block_error + u64" where
  "SumChecked e acc [] = Inr acc"
| "SumChecked e acc (v # vs) = (if acc + v < acc then Inl e else SumChecked e (acc + v) vs)"

definition extractPubKeyHash :: "bytes \<Rightarrow> bytes" where
  "extractPubKeyHash script =
     (if length script = 25 \<and> script ! 0 = 0x76 \<and> script ! 1 = 0xa9 \<and> script ! 2 = 0x14 \<and>
         script ! 23 = 0x88 \<and> script ! 24 = 0xac
      then take 20 (drop 3 script) else [])"

fun DevOutputs :: "u64 \<Rightarrow> u64 \<Rightarrow> bool \<Rightarrow> bool \<Rightarrow> CTxOut list \<Rightarrow> block_error + bool \<times> bool" where
  "DevOutputs requiredDevFund requiredDevReward foundDevFund foundDevReward [] = Inr (foundDevFund, foundDevReward)"
| "DevOutputs requiredDevFund requiredDevReward foundDevFund foundDevReward (out # outs) =
     (let scriptHash = extractPubKeyHash (scriptPubKey out)
      in if length scriptHash \<noteq> 20 then DevOutputs requiredDevFund requiredDevReward foundDevFund foundDevReward outs
         else if scriptHash = DEV_FUND_PUBKEY_HASH \<and> nValue out < requiredDevFund then Inl DevFundInsufficient
         else if scriptHash = DEV_REWARD_PUBKEY_HASH \<and> nValue out < requiredDevReward then Inl DevRewardInsufficient
         else DevOutputs requiredDevFund requiredDevReward
                (foundDevFund \<or> scriptHash = DEV_FUND_PUBKEY_HASH)
                (foundDevReward \<or> scriptHash = DEV_REWARD_PUBKEY_HASH) outs)"

definition CheckDevContribution :: "ChainParams option \<Rightarrow> CTransaction \<Rightarrow> u32 \<Rightarrow> block_error + unit" where
  "CheckDevContribution g coinbase height =
     (let nSubsidy = CalculateBlockSubsidy g height;
          taxTotal = nSubsidy * MINING_TAX_PERCENT div 100;
          requiredDevFund = taxTotal * DEV_FUND_SHARE div 100;
          requiredDevReward = taxTotal - requiredDevFund
      in if length (vout coinbase) < 3 then Inl CoinbaseThreeOutputs
         else
           bindE (DevOutputs requiredDevFund requiredDevReward False False (vout coinbase))
             (\<lambda>(foundDevFund, foundDevReward).
               if \<not> foundDevFund then Inl MissingDevFund
               else if \<not> foundDevReward then Inl MissingDevReward
               else Inr ()))"

definition CheckCoinbase :: "ChainParams option \<Rightarrow> CTransaction \<Rightarrow> u32 \<Rightarrow> CAmount \<Rightarrow> block_error + unit" where
  "CheckCoinbase g coinbase height totalFees =
     (if \<not> IsCoinBase coinbase then Inl NotACoinbase
      else if length (vin coinbase) \<noteq> 1 then Inl CoinbaseOneInput
      else if \<not> COutPoint_IsNull (prevout (vin coinbase ! 0)) then Inl CoinbaseNullPrevout
      else if length (scriptSig (vin coinbase ! 0)) < 2 \<or> length (scriptSig (vin coinbase ! 0)) > 20000
      then Inl CoinbaseScriptSigSize
      else if vout coinbase = [] then Inl CoinbaseNoOutput
      else if height = 0 then Inr ()
      else
        (let nMaxValue = CalculateBlockSubsidy g height
         in if sint totalFees > 0 \<and> nMaxValue + totalFees < nMaxValue then Inl CoinbaseValueCalculationOverflow
            else
              (let nMaxValue = (if sint totalFees > 0 then nMaxValue + totalFees else nMaxValue)
               in bindE (SumChecked CoinbaseOutputOverflow 0 (map nValue (vout coinbase))) (\<lambda>nCoinbaseValue.
                    if nCoinbaseValue > nMaxValue then Inl CoinbaseValueExceeds
                    else if (case g of None \<Rightarrow> False | Some p \<Rightarrow> IsTestnet p) then Inr ()
                    else CheckDevContribution g coinbase height))))"

section \<open>Repetitions, merkle root and fees\<close>

definition CheckNoDuplicateTransactions ::
    "(bytes \<Rightarrow> uint256) \<Rightarrow> CTransaction list \<Rightarrow> block_error + unit" where
  "CheckNoDuplicateTransactions sha3 transactions =
     (if no_duplicates [] (map (TxId sha3) transactions) then Inr () else Inl DuplicateTransaction)"

fun SpendInputs :: "COutPoint set \<Rightarrow> CTxIn list \<Rightarrow> block_error + COutPoint set" where
  "SpendInputs spentOutputs [] = Inr spentOutputs"
| "SpendInputs spentOutputs (input # inputs) =
     (if prevout input \<in> spentOutputs then Inl DoubleSpendInBlock
      else SpendInputs (insert (prevout input) spentOutputs) inputs)"

fun CheckNoDoubleSpends_loop :: "COutPoint set \<Rightarrow> CTransaction list \<Rightarrow> block_error + unit" where
  "CheckNoDoubleSpends_loop spentOutputs [] = Inr ()"
| "CheckNoDoubleSpends_loop spentOutputs (tx # txs) =
     (if IsCoinBase tx then CheckNoDoubleSpends_loop spentOutputs txs
      else bindE (SpendInputs spentOutputs (vin tx)) (\<lambda>spentOutputs. CheckNoDoubleSpends_loop spentOutputs txs))"

definition CheckNoDoubleSpends :: "CTransaction list \<Rightarrow> block_error + unit" where
  "CheckNoDoubleSpends transactions = CheckNoDoubleSpends_loop {} transactions"

definition VerifyMerkleRoot ::
    "(bytes \<Rightarrow> uint256) \<Rightarrow> 'a CBlockHeader_scheme \<Rightarrow> CTransaction list \<Rightarrow> block_error + unit" where
  "VerifyMerkleRoot sha3 block transactions =
     (if BuildMerkleRoot sha3 transactions \<noteq> hashMerkleRoot block then Inl MerkleRootMismatch else Inr ())"

record CUTXOEntry =
  utxo_out :: CTxOut
  utxo_nHeight :: u32
  fCoinBase :: bool

fun InputValues :: "(COutPoint \<Rightarrow> CUTXOEntry option) \<Rightarrow> u64 \<Rightarrow> CTxIn list \<Rightarrow> block_error + u64" where
  "InputValues utxo nInputValue [] = Inr nInputValue"
| "InputValues utxo nInputValue (input # inputs) =
     (case utxo (prevout input) of None \<Rightarrow> Inl InputNotFound
      | Some utxoEntry \<Rightarrow>
          if nInputValue + nValue (utxo_out utxoEntry) < nInputValue then Inl InputValueOverflow
          else InputValues utxo (nInputValue + nValue (utxo_out utxoEntry)) inputs)"

fun CalculateTotalFees_loop ::
    "(COutPoint \<Rightarrow> CUTXOEntry option) \<Rightarrow> u64 \<Rightarrow> CTransaction list \<Rightarrow> block_error + u64" where
  "CalculateTotalFees_loop utxo totalFees [] = Inr totalFees"
| "CalculateTotalFees_loop utxo totalFees (tx # txs) =
     bindE (InputValues utxo 0 (vin tx)) (\<lambda>nInputValue.
     bindE (SumChecked OutputValueOverflow 0 (map nValue (vout tx))) (\<lambda>nOutputValue.
       if nOutputValue > nInputValue then Inl NegativeFee
       else
         (let txFee = nInputValue - nOutputValue
          in if totalFees + txFee < totalFees then Inl TotalFeesOverflow
             else CalculateTotalFees_loop utxo (totalFees + txFee) txs)))"

definition CalculateTotalFees ::
    "(COutPoint \<Rightarrow> CUTXOEntry option) \<Rightarrow> CTransaction list \<Rightarrow> block_error + u64" where
  "CalculateTotalFees utxo transactions = CalculateTotalFees_loop utxo 0 (drop 1 transactions)"

section \<open>Merkle trees\<close>

text \<open>
  The reference: the strings hashed for the next level join neighbours, the last node of an odd level with itself;
  levels follow until one node is left.
\<close>

fun pair_strings :: "uint256 list \<Rightarrow> bytes list" where
  "pair_strings [] = []"
| "pair_strings [x] = [x @ x]"
| "pair_strings (x # y # zs) = (x @ y) # pair_strings zs"

abbreviation merkle_pairs :: "(bytes \<Rightarrow> uint256) \<Rightarrow> uint256 list \<Rightarrow> uint256 list" where
  "merkle_pairs sha3 xs \<equiv> map sha3 (pair_strings xs)"

lemma length_pair_strings [simp]: "length (pair_strings xs) = (length xs + 1) div 2"
  by (induction xs rule: pair_strings.induct) auto

lemma pair_strings_Nil_iff [simp]: "pair_strings xs = [] \<longleftrightarrow> xs = []"
  by (cases xs rule: pair_strings.cases) auto

function merkle_root :: "(bytes \<Rightarrow> uint256) \<Rightarrow> uint256 list \<Rightarrow> uint256" where
  "merkle_root sha3 xs = (if length xs > 1 then merkle_root sha3 (merkle_pairs sha3 xs) else hd xs)"
  by pat_completeness auto

termination
  by (relation "measure (\<lambda>(_, xs). length xs)") auto

declare merkle_root.simps [simp del]

text \<open>The number of levels above the transactions.\<close>

fun merkle_depth :: "nat \<Rightarrow> nat" where
  "merkle_depth n = (if n > 1 then Suc (merkle_depth ((n + 1) div 2)) else 0)"

declare merkle_depth.simps [simp del]

lemma MerkleLevel_eq:
  assumes "length pre = off" "length lvl = sz"
  shows "MerkleLevel sha3 off sz i (pre @ lvl @ acc) = pre @ lvl @ acc @ merkle_pairs sha3 (drop i lvl)"
proof (induction "sz - i" arbitrary: i acc rule: less_induct)
  case less
  show ?case
  proof (cases "i < sz")
    case False
    then show ?thesis using assms by (simp add: MerkleLevel.simps)
  next
    case True
    then have d: "drop i lvl = lvl ! i # drop (Suc i) lvl" using assms by (simp add: Cons_nth_drop_Suc)
    have r: "MerkleLevel sha3 off sz (i + 2) (pre @ lvl @ (acc @ [h])) =
        pre @ lvl @ (acc @ [h]) @ merkle_pairs sha3 (drop (i + 2) lvl)" for h
      using True by (intro less) simp
    show ?thesis
    proof (cases "Suc i < sz")
      case True
      then have "drop (Suc i) lvl = lvl ! Suc i # drop (i + 2) lvl" using assms by (simp add: Cons_nth_drop_Suc)
      then show ?thesis using True assms r d
        by (subst MerkleLevel.simps) (simp add: nth_append)
    next
      case False
      with True have "sz - 1 = i" "drop (Suc i) lvl = []" "drop (i + 2) lvl = []" using assms by simp_all
      then show ?thesis using True False assms r d
        by (subst MerkleLevel.simps) (simp add: nth_append min_def)
    qed
  qed
qed

lemma MerkleLevels_last:
  assumes "length pre = off" "length lvl = sz" "0 < sz"
  shows "last (MerkleLevels sha3 off sz (pre @ lvl)) = merkle_root sha3 lvl \<and>
    MerkleLevels sha3 off sz (pre @ lvl) \<noteq> []"
  using assms
proof (induction sz arbitrary: pre lvl off rule: less_induct)
  case (less sz)
  show ?case
  proof (cases "sz > 1")
    case False
    with less.prems obtain x where "lvl = [x]" "sz = 1" by (cases lvl) auto
    then show ?thesis by (simp add: MerkleLevels.simps merkle_root.simps)
  next
    case True
    let ?n = "merkle_pairs sha3 lvl"
    have "MerkleLevel sha3 off sz 0 (pre @ lvl) = (pre @ lvl) @ ?n"
      using MerkleLevel_eq [OF less.prems(1,2), of sha3 0 "[]"] by simp
    moreover have "last (MerkleLevels sha3 (off + sz) ((sz + 1) div 2) ((pre @ lvl) @ ?n)) = merkle_root sha3 ?n \<and>
        MerkleLevels sha3 (off + sz) ((sz + 1) div 2) ((pre @ lvl) @ ?n) \<noteq> []"
      using True less.prems by (intro less.IH) simp_all
    ultimately show ?thesis using True less.prems
      by (simp add: MerkleLevels.simps [of sha3 off sz] merkle_root.simps [of sha3 lvl])
  qed
qed

lemma BuildMerkleRoot_eq:
  "BuildMerkleRoot sha3 txs = (if txs = [] then zero256 else merkle_root sha3 (map (TxId sha3) txs))"
  using MerkleLevels_last [of "[]" 0 "map (TxId sha3) txs" "length txs" sha3]
  by (simp add: BuildMerkleRoot_def Let_def)

text \<open>All strings hashed above the transactions.\<close>

function merkle_strings :: "(bytes \<Rightarrow> uint256) \<Rightarrow> uint256 list \<Rightarrow> bytes list" where
  "merkle_strings sha3 xs =
     (if length xs > 1 then pair_strings xs @ merkle_strings sha3 (merkle_pairs sha3 xs) else [])"
  by pat_completeness auto

termination
  by (relation "measure (\<lambda>(_, xs). length xs)") auto

declare merkle_strings.simps [simp del]

lemma pair_strings_in:
  assumes "a @ b \<in> set (pair_strings xs)" "wf256 a" "list_all wf256 xs"
  shows "a \<in> set xs"
  using assms by (induction xs rule: pair_strings.induct) (auto simp: wf256_def)

lemma distinct_pair_strings: "distinct xs \<Longrightarrow> list_all wf256 xs \<Longrightarrow> distinct (pair_strings xs)"
  by (induction xs rule: pair_strings.induct) (auto dest: pair_strings_in)

text \<open>One level up, lists without repetition are told apart.\<close>

lemma pair_strings_inject:
  assumes "pair_strings xs = pair_strings ys" "distinct xs" "distinct ys" "list_all wf256 xs" "list_all wf256 ys"
  shows "xs = ys"
  using assms
proof (induction xs arbitrary: ys rule: pair_strings.induct)
  case 1
  then show ?case by (metis pair_strings.simps(1) pair_strings_Nil_iff)
next
  case (2 x)
  then show ?case by (cases ys rule: pair_strings.cases) (auto simp: wf256_def)
next
  case (3 x x' zs)
  show ?case
  proof (cases ys rule: pair_strings.cases)
    case (3 y y' ws)
    with "3.prems" have "zs = ws" by (intro "3.IH") simp_all
    then show ?thesis using "3.prems" 3 by (simp add: wf256_def)
  qed (use "3.prems" in \<open>auto simp: wf256_def\<close>)
qed

lemma merkle_root_inject:
  assumes "inj_on sha3 N" "\<And>x. wf256 (sha3 x)"
    "merkle_depth (length xs) = merkle_depth (length ys)" "xs \<noteq> []" "ys \<noteq> []"
    "merkle_root sha3 xs = merkle_root sha3 ys" "set (merkle_strings sha3 xs) \<subseteq> N" "set (merkle_strings sha3 ys) \<subseteq> N"
    "distinct xs" "distinct ys" "list_all wf256 xs" "list_all wf256 ys"
  shows "xs = ys"
  using assms(3-)
proof (induction "length xs" arbitrary: xs ys rule: less_induct)
  case less
  show ?case
  proof (cases "length xs > 1")
    case False
    with less.prems(1) have "\<not> length ys > 1"
      by (simp add: merkle_depth.simps [of "length xs"] merkle_depth.simps [of "length ys"] split: if_splits)
    with False less.prems(2,3) obtain x y where "xs = [x]" "ys = [y]"
      by (cases xs; cases ys) auto
    then show ?thesis using less.prems(4)
      by (simp add: merkle_root.simps [of sha3 "[x]"] merkle_root.simps [of sha3 "[y]"])
  next
    case True
    with less.prems(1) have l: "length ys > 1"
      by (simp add: merkle_depth.simps [of "length xs"] merkle_depth.simps [of "length ys"] split: if_splits)
    have N: "set (pair_strings xs) \<subseteq> N" "set (merkle_strings sha3 (merkle_pairs sha3 xs)) \<subseteq> N"
        "set (pair_strings ys) \<subseteq> N" "set (merkle_strings sha3 (merkle_pairs sha3 ys)) \<subseteq> N"
      using less.prems(5,6) True l by (simp_all add: merkle_strings.simps [of sha3 xs] merkle_strings.simps [of sha3 ys])
    have d: "distinct (merkle_pairs sha3 zs)" if "set (pair_strings zs) \<subseteq> N" "distinct zs" "list_all wf256 zs" for zs
      using that assms(1) by (simp add: distinct_map distinct_pair_strings inj_on_subset)
    have w: "list_all wf256 (merkle_pairs sha3 zs)" for zs
      using assms(2) by (simp add: list_all_iff)
    have "merkle_pairs sha3 xs = merkle_pairs sha3 ys"
    proof (rule less.hyps)
      show "merkle_depth (length (merkle_pairs sha3 xs)) = merkle_depth (length (merkle_pairs sha3 ys))"
        using less.prems(1) True l by (simp add: merkle_depth.simps [of "length xs"] merkle_depth.simps [of "length ys"])
      show "merkle_root sha3 (merkle_pairs sha3 xs) = merkle_root sha3 (merkle_pairs sha3 ys)"
        using less.prems(4) True l by (simp add: merkle_root.simps [of sha3 xs] merkle_root.simps [of sha3 ys])
    qed (use True N less.prems(2,3,7-) in \<open>simp_all add: d w del: map_map\<close>)
    then have "pair_strings xs = pair_strings ys"
      using map_inj_on [of sha3 "pair_strings xs" "pair_strings ys"] inj_on_subset [OF assms(1)] N by simp
    then show ?thesis using less.prems(7-) by (blast intro: pair_strings_inject)
  qed
qed

lemma pair_strings_dup: "odd (length xs) \<Longrightarrow> pair_strings (xs @ [last xs]) = pair_strings xs"
  by (induction xs rule: pair_strings.induct) (auto simp: even_Suc_div_two)

lemma merkle_root_dup: "odd (length xs) \<Longrightarrow> 1 < length xs \<Longrightarrow> merkle_root sha3 (xs @ [last xs]) = merkle_root sha3 xs"
  by (simp add: merkle_root.simps [of sha3 "xs @ [last xs]"] merkle_root.simps [of sha3 xs] pair_strings_dup) auto

section \<open>Sums\<close>

lemma add_less_iff_overflow: "(a :: u64) + b < a \<longleftrightarrow> \<not> unat a + unat b < 2 ^ 64"
proof (cases "unat a + unat b < 2 ^ 64")
  case True
  then have "unat (a + b) = unat a + unat b" by (simp add: unat_add_lem [symmetric])
  then show ?thesis using True by (simp add: word_less_nat_alt)
next
  case False
  then have "unat (a + b) = unat a + unat b - 2 ^ 64"
    using u64_range [of a] u64_range [of b] by (simp add: unat_word_ariths mod_if)
  then show ?thesis using False u64_range [of b] by (simp add: word_less_nat_alt)
qed

lemma SumChecked_eq:
  "SumChecked e acc vs =
     (if unat acc + sum_list (map unat vs) < 2 ^ 64 then Inr (acc + of_nat (sum_list (map unat vs))) else Inl e)"
proof (induction vs arbitrary: acc)
  case Nil
  then show ?case using u64_range [of acc] by simp
next
  case (Cons v vs)
  then show ?case
  proof (cases "unat acc + unat v < 2 ^ 64")
    case True
    then have "unat (acc + v) = unat acc + unat v" by (simp add: unat_add_lem [symmetric])
    then show ?thesis using True Cons by (simp add: add_less_iff_overflow ac_simps)
  next
    case False
    then have "acc + v < acc" unfolding add_less_iff_overflow .
    moreover have "\<not> unat acc + sum_list (map unat (v # vs)) < 2 ^ 64" using False by simp
    ultimately show ?thesis by (simp only: SumChecked.simps if_True if_False simp_thms)
  qed
qed

lemma SumChecked_unat:
  "SumChecked e 0 vs = Inr s \<Longrightarrow> unat s = sum_list (map unat vs)"
  by (auto simp: SumChecked_eq unat_of_nat_len split: if_splits)

definition coin_value :: "(COutPoint \<Rightarrow> CUTXOEntry option) \<Rightarrow> COutPoint \<Rightarrow> nat" where
  "coin_value utxo p = (case utxo p of None \<Rightarrow> 0 | Some e \<Rightarrow> unat (nValue (utxo_out e)))"

lemma InputValues_sound:
  "InputValues utxo acc ins = Inr v \<Longrightarrow>
     unat v = unat acc + sum_list (map (coin_value utxo \<circ> prevout) ins) \<and> (\<forall>i \<in> set ins. utxo (prevout i) \<noteq> None)"
proof (induction ins arbitrary: acc)
  case (Cons i ins)
  then obtain e where e: "utxo (prevout i) = Some e" "\<not> acc + nValue (utxo_out e) < acc"
      "InputValues utxo (acc + nValue (utxo_out e)) ins = Inr v"
    by (auto split: option.splits if_splits)
  then have "unat (acc + nValue (utxo_out e)) = unat acc + unat (nValue (utxo_out e))"
    unfolding add_less_iff_overflow by (simp add: unat_add_lem [symmetric])
  then show ?case using Cons.IH [OF e(3)] e(1) by (simp add: coin_value_def)
qed simp

lemma CalculateTotalFees_sound:
  "CalculateTotalFees_loop utxo acc txs = Inr fees \<Longrightarrow>
     unat fees + sum_list (map output_sum txs) =
       unat acc + sum_list (map (coin_value utxo) (concat (map (map prevout \<circ> vin) txs))) \<and>
     (\<forall>p \<in> set (concat (map (map prevout \<circ> vin) txs)). utxo p \<noteq> None)"
proof (induction txs arbitrary: acc)
  case (Cons tx txs)
  then obtain i s where i: "InputValues utxo 0 (vin tx) = Inr i"
      and s: "SumChecked OutputValueOverflow 0 (map nValue (vout tx)) = Inr s"
      and le: "\<not> s > i" and n: "\<not> acc + (i - s) < acc"
      and r: "CalculateTotalFees_loop utxo (acc + (i - s)) txs = Inr fees"
    by (auto simp: bindE_Inr_iff Let_def split: if_splits)
  have "unat (i - s) = unat i - unat s" "unat s \<le> unat i"
    using le by (simp_all add: unat_sub word_le_nat_alt not_less)
  moreover have "unat (acc + (i - s)) = unat acc + unat (i - s)"
    using n unfolding add_less_iff_overflow by (simp add: unat_add_lem [symmetric])
  moreover have "unat s = output_sum tx"
    using SumChecked_unat [OF s] by (simp add: output_sum_def comp_def)
  ultimately show ?case using Cons.IH [OF r] InputValues_sound [OF i] by (auto simp: comp_def)
qed simp

section \<open>Repetitions\<close>

lemma SpendInputs_eq:
  "SpendInputs S ins =
     (if distinct (map prevout ins) \<and> S \<inter> set (map prevout ins) = {} then Inr (S \<union> set (map prevout ins))
      else Inl DoubleSpendInBlock)"
  by (induction ins arbitrary: S) auto

abbreviation spent_outpoints :: "CTransaction list \<Rightarrow> COutPoint list" where
  "spent_outpoints txs \<equiv> concat (map (map prevout \<circ> vin) (filter (\<lambda>tx. \<not> IsCoinBase tx) txs))"

lemma CheckNoDoubleSpends_loop_eq:
  "CheckNoDoubleSpends_loop S txs = (if distinct (spent_outpoints txs) \<and> S \<inter> set (spent_outpoints txs) = {} then Inr ()
     else Inl DoubleSpendInBlock)"
proof (induction txs arbitrary: S)
  case (Cons tx txs)
  define X Y where "X = map prevout (vin tx)" and "Y = spent_outpoints txs"
  show ?case
  proof (cases "IsCoinBase tx")
    case False
    then have e1: "spent_outpoints (tx # txs) = X @ Y" by (simp add: X_def Y_def)
    have e2: "CheckNoDoubleSpends_loop S (tx # txs) =
        (if distinct X \<and> S \<inter> set X = {} then CheckNoDoubleSpends_loop (S \<union> set X) txs else Inl DoubleSpendInBlock)"
      using False by (simp add: SpendInputs_eq X_def del: set_map)
    show ?thesis unfolding e1 e2 Cons.IH Y_def [symmetric] by auto
  qed (simp add: Cons.IH)
qed simp

lemma CheckNoDoubleSpends_eq:
  "CheckNoDoubleSpends txs = (if distinct (spent_outpoints txs) then Inr () else Inl DoubleSpendInBlock)"
  by (simp add: CheckNoDoubleSpends_def CheckNoDoubleSpends_loop_eq)

section \<open>Coinbase\<close>

text \<open>Every output that pays the hash pays at least the amount, and there is such an output.\<close>

definition pays_hash :: "bytes \<Rightarrow> u64 \<Rightarrow> CTxOut list \<Rightarrow> bool" where
  "pays_hash h amount outs \<longleftrightarrow>
     (\<exists>out \<in> set outs. extractPubKeyHash (scriptPubKey out) = h) \<and>
     (\<forall>out \<in> set outs. extractPubKeyHash (scriptPubKey out) = h \<longrightarrow> amount \<le> nValue out)"

lemma dev_hash_lengths: "length DEV_FUND_PUBKEY_HASH = 20" "length DEV_REWARD_PUBKEY_HASH = 20"
  "DEV_FUND_PUBKEY_HASH \<noteq> DEV_REWARD_PUBKEY_HASH"
  by (simp_all add: DEV_FUND_PUBKEY_HASH_def DEV_REWARD_PUBKEY_HASH_def)

lemma DevOutputs_Inr_iff:
  "DevOutputs rf rr ff fr outs = Inr (a, b) \<longleftrightarrow>
     (\<forall>out \<in> set outs. (extractPubKeyHash (scriptPubKey out) = DEV_FUND_PUBKEY_HASH \<longrightarrow> rf \<le> nValue out) \<and>
        (extractPubKeyHash (scriptPubKey out) = DEV_REWARD_PUBKEY_HASH \<longrightarrow> rr \<le> nValue out)) \<and>
     a = (ff \<or> (\<exists>out \<in> set outs. extractPubKeyHash (scriptPubKey out) = DEV_FUND_PUBKEY_HASH)) \<and>
     b = (fr \<or> (\<exists>out \<in> set outs. extractPubKeyHash (scriptPubKey out) = DEV_REWARD_PUBKEY_HASH))"
proof (induction outs arbitrary: ff fr)
  case (Cons out outs)
  note d = dev_hash_lengths dev_hash_lengths(3) [symmetric]
  show ?case
  proof (cases "extractPubKeyHash (scriptPubKey out) = DEV_FUND_PUBKEY_HASH")
    case True
    then show ?thesis using d by (auto simp: Let_def Cons.IH not_less)
  next
    case False
    then show ?thesis using d
      by (cases "extractPubKeyHash (scriptPubKey out) = DEV_REWARD_PUBKEY_HASH") (auto simp: Let_def Cons.IH not_less)
  qed
qed auto

lemma CheckDevContribution_iff:
  "CheckDevContribution g cb h = Inr () \<longleftrightarrow>
     (let tax = CalculateBlockSubsidy g h * 2 div 100; fund = tax * 50 div 100 in
      3 \<le> length (vout cb) \<and> pays_hash DEV_FUND_PUBKEY_HASH fund (vout cb) \<and>
      pays_hash DEV_REWARD_PUBKEY_HASH (tax - fund) (vout cb))"
  by (auto simp: CheckDevContribution_def Let_def bindE_Inr_iff DevOutputs_Inr_iff pays_hash_def
      MINING_TAX_PERCENT_def DEV_FUND_SHARE_def split: if_splits)

lemma nat_sint_i64: "nat (sint (v :: i64)) = (if sint v > 0 then unat v else 0)"
proof (cases "sint v > 0")
  case True
  then have "uint v = sint v" using sint_lt [of v] by (simp add: uint_sint take_bit_int_eq_self)
  then show ?thesis using True by (simp add: unat_eq_nat_uint)
qed simp

definition coinbase_limit :: "ChainParams option \<Rightarrow> u32 \<Rightarrow> CAmount \<Rightarrow> nat" where
  "coinbase_limit g h fees = unat (CalculateBlockSubsidy g h) + nat (sint fees)"

lemma CheckCoinbase_iff:
  "CheckCoinbase g cb h fees = Inr () \<longleftrightarrow>
     IsCoinBase cb \<and> 2 \<le> length (scriptSig (vin cb ! 0)) \<and> length (scriptSig (vin cb ! 0)) \<le> 20000 \<and> vout cb \<noteq> [] \<and>
     (h \<noteq> 0 \<longrightarrow> coinbase_limit g h fees < 2 ^ 64 \<and> output_sum cb \<le> coinbase_limit g h fees \<and>
        ((\<exists>p. g = Some p \<and> IsTestnet p) \<or> CheckDevContribution g cb h = Inr ()))"
proof -
  define S where "S = CalculateBlockSubsidy g h"
  define M where "M = (if sint fees > 0 then S + fees else S)"
  have ov: "(sint fees > 0 \<and> S + fees < S) \<longleftrightarrow> \<not> coinbase_limit g h fees < 2 ^ 64"
    using u64_range [of S] by (auto simp: coinbase_limit_def nat_sint_i64 S_def [symmetric] add_less_iff_overflow)
  have M: "unat M = coinbase_limit g h fees" if "coinbase_limit g h fees < 2 ^ 64"
    using that by (auto simp: M_def coinbase_limit_def nat_sint_i64 S_def [symmetric] unat_add_fits)
  have t: "(case g of None \<Rightarrow> False | Some p \<Rightarrow> IsTestnet p) \<longleftrightarrow> (\<exists>p. g = Some p \<and> IsTestnet p)"
    by (cases g) auto
  have s: "(\<exists>v. SumChecked CoinbaseOutputOverflow 0 (map nValue (vout cb)) = Inr v \<and> \<not> v > M \<and> Q) \<longleftrightarrow>
      output_sum cb \<le> coinbase_limit g h fees \<and> Q" if "coinbase_limit g h fees < 2 ^ 64" for Q
    using that M [OF that] by (auto simp: SumChecked_eq output_sum_def comp_def word_less_nat_alt unat_of_nat_len not_less)
  show ?thesis
  proof (cases "coinbase_limit g h fees < 2 ^ 64")
    case True
    have "CheckCoinbase g cb h fees = Inr () \<longleftrightarrow>
        IsCoinBase cb \<and> 2 \<le> length (scriptSig (vin cb ! 0)) \<and> length (scriptSig (vin cb ! 0)) \<le> 20000 \<and> vout cb \<noteq> [] \<and>
        (h \<noteq> 0 \<longrightarrow> (\<exists>v. SumChecked CoinbaseOutputOverflow 0 (map nValue (vout cb)) = Inr v \<and> \<not> v > M \<and>
           ((\<exists>p. g = Some p \<and> IsTestnet p) \<or> CheckDevContribution g cb h = Inr ())))"
      using True ov unfolding CheckCoinbase_def Let_def S_def [symmetric] M_def [symmetric] t
      by (auto simp: IsCoinBase_def bindE_Inr_iff)
    then show ?thesis using s [OF True] True by simp
  next
    case False
    then have "sint fees > 0 \<and> S + fees < S" using ov by blast
    then show ?thesis using False unfolding CheckCoinbase_def Let_def S_def [symmetric]
      by (auto simp: IsCoinBase_def)
  qed
qed

section \<open>Supply\<close>

definition total_subsidy :: "ChainParams option \<Rightarrow> nat \<Rightarrow> nat" where
  "total_subsidy g n = (\<Sum>h < n. unat (CalculateBlockSubsidy g (of_nat h)))"

lemma CalculateBlockSubsidy_unat:
  assumes "h < 2 ^ 32" "initialReward p < 2 ^ 64" "0 < halvingInterval p" "halvingInterval p < 2 ^ 64"
  shows "unat (CalculateBlockSubsidy (Some p) (of_nat h)) =
    (if h div halvingInterval p < 64 then initialReward p div 2 ^ (h div halvingInterval p) else 0)"
proof -
  let ?q = "ucast (of_nat h :: u32) div of_nat (halvingInterval p) :: u64"
  have "unat (of_nat h :: u32) = h" using assms(1) by (simp add: unsigned_of_nat take_bit_nat_eq_self)
  then have "unat (ucast (of_nat h :: u32) :: u64) = h" using assms(1) by (subst unat_ucast_small) simp_all
  then have q: "unat ?q = h div halvingInterval p"
    using assms(4) by (simp add: unat_div unat_of_nat_len)
  have "h div halvingInterval p < 2 ^ 32" using assms(1) by (meson div_le_dividend order_le_less_trans)
  then have "unat (ucast ?q :: u32) = h div halvingInterval p" using q by (simp add: unat_ucast_small)
  then show ?thesis using assms(2)
    by (auto simp: CalculateBlockSubsidy_def Let_def word_le_nat_alt unat_drop_bit unat_of_nat_len not_le)
qed

lemma sum_div_interval: "(\<Sum>h < m * k. f (h div k)) = k * (\<Sum>j < m. f j)" for k :: nat and f :: "nat \<Rightarrow> nat"
proof -
  have "(\<Sum>h = j * k..<j * k + k. f (h div k)) = k * f j" for j
  proof -
    have "(\<Sum>h = j * k..<j * k + k. f (h div k)) = (\<Sum>h = j * k..<j * k + k. f j)"
      by (rule sum.cong) (auto intro!: arg_cong [of _ _ f] div_nat_eqI simp: ac_simps)
    then show ?thesis by simp
  qed
  then show ?thesis unfolding sum.nat_group [symmetric] by (simp add: sum_distrib_left)
qed

lemma sum_halvings: "(\<Sum>j < m. R div 2 ^ j) + 2 * (R div 2 ^ m) \<le> 2 * R" for R :: nat
proof (induction m)
  case (Suc m)
  have "R div 2 ^ Suc m = R div 2 ^ m div 2" by (simp only: power_Suc2 div_mult2_eq)
  then have "2 * (R div 2 ^ Suc m) \<le> R div 2 ^ m" by simp
  then show ?case using Suc.IH by simp
qed simp

lemma total_subsidy_bound:
  assumes "n \<le> 2 ^ 32" "initialReward p < 2 ^ 64" "0 < halvingInterval p" "halvingInterval p < 2 ^ 64"
  shows "total_subsidy (Some p) n \<le> 2 * halvingInterval p * initialReward p"
proof -
  let ?k = "halvingInterval p" and ?R = "initialReward p"
  have "total_subsidy (Some p) n \<le> (\<Sum>h < n. ?R div 2 ^ (h div ?k))"
    unfolding total_subsidy_def using assms by (intro sum_mono) (simp add: CalculateBlockSubsidy_unat)
  also have "\<dots> \<le> (\<Sum>h < n * ?k. ?R div 2 ^ (h div ?k))"
    using assms(3) by (intro sum_mono2) auto
  also have "\<dots> = ?k * (\<Sum>j < n. ?R div 2 ^ j)" by (rule sum_div_interval)
  also have "\<dots> \<le> ?k * (2 * ?R)" using sum_halvings [of ?R n] by (intro mult_le_mono2) linarith
  finally show ?thesis by (simp add: ac_simps)
qed

lemma total_subsidy_first:
  assumes "n \<le> halvingInterval p" "n \<le> 2 ^ 32" "initialReward p < 2 ^ 64" "0 < halvingInterval p" "halvingInterval p < 2 ^ 64"
  shows "total_subsidy (Some p) n = n * initialReward p"
proof -
  have "total_subsidy (Some p) n = (\<Sum>h < n. initialReward p)"
    unfolding total_subsidy_def using assms by (intro sum.cong) (simp_all add: CalculateBlockSubsidy_unat)
  then show ?thesis by simp
qed

lemma subsidy_params:
  "initialReward Mainnet = 5000000000" "halvingInterval Mainnet = 210000"
  "initialReward DilV = 10000000000" "halvingInterval DilV = 1050000"
  "\<not> IsTestnet Mainnet"
  by (simp_all add: Mainnet_def DilV_def IsTestnet_def)

section \<open>Block data\<close>

lemma ReadBlockTransaction_Inr:
  "ReadBlockTransaction p = Inr (tx, p') \<Longrightarrow>
     wf_tx tx \<and> \<not> hash_valid tx \<and> (\<exists>u. p = u @ p' \<and> 41 * length (vin tx) + 9 * length (vout tx) + 10 \<le> length u)"
  by (auto simp: ReadBlockTransaction_def split: if_splits sum.splits prod.splits dest!: Deserialize_sound
      intro!: exI [of _ "take n p" for n])

interpretation rbt: sound_decoder ReadBlockTransaction "\<lambda>tx. wf_tx tx \<and> \<not> hash_valid tx" 10
  by unfold_locales (fastforce dest: ReadBlockTransaction_Inr)+

lemma ReadTxCount_Inr:
  assumes "ReadTxCount p = Inr (n, p')"
  shows "\<exists>u. p = u @ p' \<and> 1 \<le> length u"
proof -
  obtain b q where p: "p = b # q" using assms by (cases p) (auto simp: ReadTxCount_def)
  with assms have "p' = q \<or> (2 \<le> length q \<and> p' = drop 2 q) \<or> (4 \<le> length q \<and> p' = drop 4 q)"
    by (auto simp: ReadTxCount_def split: if_splits)
  then obtain u where "q = u @ p'" by (metis append_Nil append_take_drop_id)
  then show ?thesis using p by (intro exI [of _ "b # u"]) simp
qed

lemma DeserializeBlockTransactions_sound:
  assumes "DeserializeBlockTransactions data = Inr txs"
  shows "1 \<le> length txs \<and> length txs \<le> 100000 \<and> (\<forall>tx \<in> set txs. wf_tx tx \<and> \<not> hash_valid tx) \<and>
    10 * length txs < length data"
proof -
  from assms obtain n p where n: "ReadTxCount data = Inr (n, p)" "n \<noteq> 0" "\<not> n > 100000"
      and d: "decode_n (unat n) ReadBlockTransaction p = Inr (txs, [])"
    by (auto simp: DeserializeBlockTransactions_def bindE_Inr_iff split: if_splits prod.splits)
  have "1 \<le> unat n" "unat n \<le> 100000"
    using n(2,3) by (simp_all add: word_less_nat_alt not_less unat_gt_0 Suc_le_eq)
  then show ?thesis using rbt.decode_n_post [OF d] rbt.decode_n_suffix [OF d] ReadTxCount_Inr [OF n(1)] by auto
qed

section \<open>Properties\<close>

definition ex_out :: "u64 \<Rightarrow> bytes \<Rightarrow> CTxOut" where
  "ex_out v h = \<lparr>nValue = v, scriptPubKey = [0x76, 0xa9, 0x14] @ h @ [0x88, 0xac]\<rparr>"

definition ex_coinbase :: "u64 \<Rightarrow> u64 \<Rightarrow> CTransaction" where
  "ex_coinbase v d = CTransaction_default\<lparr>
     vin := [\<lparr>prevout = \<lparr>op_hash = zero256, op_n = 0xffffffff\<rparr>, scriptSig = [1, 2], nSequence = SEQUENCE_FINAL\<rparr>],
     vout := [ex_out v (replicate 20 1), ex_out d DEV_FUND_PUBKEY_HASH, ex_out d DEV_REWARD_PUBKEY_HASH]\<rparr>"

definition ex_spend :: "byte \<Rightarrow> u64 \<Rightarrow> CTransaction" where
  "ex_spend b v = CTransaction_default\<lparr>
     vin := [\<lparr>prevout = \<lparr>op_hash = replicate 32 b, op_n = 0\<rparr>, scriptSig = [], nSequence = SEQUENCE_FINAL\<rparr>],
     vout := [ex_out v (replicate 20 2)]\<rparr>"

definition ex_utxo :: "COutPoint \<Rightarrow> CUTXOEntry option" where
  "ex_utxo p = (if p = \<lparr>op_hash = replicate 32 7, op_n = 0\<rparr>
     then Some \<lparr>utxo_out = ex_out 1000 (replicate 20 3), utxo_nHeight = 5, fCoinBase = False\<rparr> else None)"

definition ex_sha3 :: "bytes \<Rightarrow> uint256" where
  "ex_sha3 x = take 32 (drop 5 x @ replicate 37 0)"

lemma extractPubKeyHash_p2pkh:
  "length h = 20 \<Longrightarrow> extractPubKeyHash (0x76 # 0xa9 # 0x14 # h @ [0x88, 0xac]) = h"
  by (simp add: extractPubKeyHash_def nth_Cons' nth_append)




text \<open>
  C35: the money supply. On the main network the subsidies of all blocks that a 32-bit height can name never exceed
  \<open>MAX_MONEY\<close>; on the DilV network they exceed it from block 210001 on.
\<close>

theorem supply_bound:
  assumes "n \<le> 2 ^ 32"
  shows "int (total_subsidy (Some Mainnet) n) \<le> MAX_MONEY \<and> MAX_MONEY < int (total_subsidy (Some DilV) 210001)"
  using total_subsidy_bound [of n Mainnet] total_subsidy_first [of 210001 DilV] assms
  by (simp add: subsidy_params MAX_MONEY_def COIN_def)

theorem supply_bound_witness: "int (total_subsidy (Some Mainnet) (2 ^ 32)) \<le> MAX_MONEY"
  using supply_bound [of "2 ^ 32"] by blast



end
