(* ===== verification/Crypto.thy ===== *)
theory Crypto
  imports Prelude
begin

text \<open>
  \<open>src/src/crypto/siphash.cpp\<close>, \<open>hmac_sha3.cpp\<close> and \<open>pbkdf2_sha3.cpp\<close>: the SipHash-2-4 hasher, the keyed hash
  over SHA3 and the password based key derivation. The functions SHA3-256 and SHA3-512, which \<open>sha3.cpp\<close> takes from
  the Dilithium reference code outside the repository, are the arguments \<open>sha3_256\<close> and \<open>sha3_512\<close>. Buffers are
  byte lists, so the tests for null pointers have no counterpart.
\<close>

section \<open>SipHash\<close>

definition ROTL :: "u64 \<Rightarrow> nat \<Rightarrow> u64" where
  "ROTL x b = push_bit b x OR drop_bit (64 - b) x"

type_synonym sipstate = "u64 \<times> u64 \<times> u64 \<times> u64"

fun SIPROUND :: "sipstate \<Rightarrow> sipstate" where
  "SIPROUND (v0, v1, v2, v3) =
     (let v0 = v0 + v1; v1 = ROTL v1 13; v1 = v1 XOR v0; v0 = ROTL v0 32;
          v2 = v2 + v3; v3 = ROTL v3 16; v3 = v3 XOR v2;
          v0 = v0 + v3; v3 = ROTL v3 21; v3 = v3 XOR v0;
          v2 = v2 + v1; v1 = ROTL v1 17; v1 = v1 XOR v2; v2 = ROTL v2 32
      in (v0, v1, v2, v3))"

text \<open>The two rounds around one word of input, a piece of code that occurs in three places.\<close>

fun SipCompress :: "sipstate \<Rightarrow> u64 \<Rightarrow> sipstate" where
  "SipCompress (v0, v1, v2, v3) m =
     (case SIPROUND (SIPROUND (v0, v1, v2, v3 XOR m)) of (v0, v1, v2, v3) \<Rightarrow> (v0 XOR m, v1, v2, v3))"

record CSipHasher =
  sip_v :: sipstate
  sip_tmp :: u64
  sip_count :: byte

definition CSipHasher_new :: "u64 \<Rightarrow> u64 \<Rightarrow> CSipHasher" where
  "CSipHasher_new k0 k1 =
     \<lparr>sip_v = (0x736f6d6570736575 XOR k0, 0x646f72616e646f6d XOR k1, 0x6c7967656e657261 XOR k0, 0x7465646279746573 XOR k1),
      sip_tmp = 0, sip_count = 0\<rparr>"

definition Sip_Write64 :: "CSipHasher \<Rightarrow> u64 \<Rightarrow> CSipHasher" where
  "Sip_Write64 h val = h\<lparr>sip_v := SipCompress (sip_v h) val, sip_count := sip_count h + 8\<rparr>"

fun Sip_Write_loop :: "sipstate \<Rightarrow> u64 \<Rightarrow> byte \<Rightarrow> bytes \<Rightarrow> sipstate \<times> u64 \<times> byte" where
  "Sip_Write_loop v t c [] = (v, t, c)"
| "Sip_Write_loop v t c (b # data) =
     (let t = t OR push_bit (8 * (unat c mod 8)) (ucast b);
          c = c + 1
      in if c AND 7 = 0 then Sip_Write_loop (SipCompress v t) 0 c data else Sip_Write_loop v t c data)"

definition Sip_Write :: "CSipHasher \<Rightarrow> bytes \<Rightarrow> CSipHasher" where
  "Sip_Write h data =
     (case Sip_Write_loop (sip_v h) (sip_tmp h) (sip_count h) data of
        (v, t, c) \<Rightarrow> h\<lparr>sip_v := v, sip_tmp := t, sip_count := c\<rparr>)"

definition Sip_Finalize :: "CSipHasher \<Rightarrow> u64" where
  "Sip_Finalize h =
     (let t = sip_tmp h OR push_bit 56 (ucast (sip_count h))
      in case SipCompress (sip_v h) t of (v0, v1, v2, v3) \<Rightarrow>
           case SIPROUND (SIPROUND (SIPROUND (SIPROUND (v0, v1, v2 XOR 0xff, v3)))) of (v0, v1, v2, v3) \<Rightarrow>
             v0 XOR v1 XOR v2 XOR v3)"

definition SipHash :: "u64 \<Rightarrow> u64 \<Rightarrow> bytes \<Rightarrow> u64" where
  "SipHash k0 k1 data = Sip_Finalize (Sip_Write (CSipHasher_new k0 k1) data)"

definition SipWord :: "uint256 \<Rightarrow> nat \<Rightarrow> u64" where
  "SipWord val i = foldl (\<lambda>w j. w OR push_bit (j * 8) (ucast (val ! (i * 8 + j)))) 0 [0..<8]"

definition SipHashUint256 :: "u64 \<Rightarrow> u64 \<Rightarrow> uint256 \<Rightarrow> u64" where
  "SipHashUint256 k0 k1 val =
     Sip_Finalize (foldl (\<lambda>h i. Sip_Write64 h (SipWord val i)) (CSipHasher_new k0 k1) [0..<4])"

section \<open>HMAC\<close>

datatype crypto_error =
    DataLenTooLarge
  | IterationsZero
  | OutputLenZero
  | OutputLenTooLarge

definition SHA3_256_BLOCKSIZE :: nat where "SHA3_256_BLOCKSIZE = 136"
definition SHA3_512_BLOCKSIZE :: nat where "SHA3_512_BLOCKSIZE = 72"
definition SIZE_MAX :: nat where "SIZE_MAX = 2 ^ 64 - 1"

text \<open>\<open>std::memcpy\<close> of \<open>src\<close> to the start of a buffer.\<close>

definition copy_over :: "bytes \<Rightarrow> bytes \<Rightarrow> bytes" where
  "copy_over dest src = src @ drop (length src) dest"

definition HMAC_SHA3_256 :: "(bytes \<Rightarrow> bytes) \<Rightarrow> bytes \<Rightarrow> bytes \<Rightarrow> crypto_error + bytes" where
  "HMAC_SHA3_256 sha3_256 key data =
     (if length data > SIZE_MAX - SHA3_256_BLOCKSIZE then Inl DataLenTooLarge
      else
        (let key_block = replicate SHA3_256_BLOCKSIZE 0;
             key_block = (if length key > SHA3_256_BLOCKSIZE then copy_over key_block (sha3_256 key)
                          else copy_over key_block key);
             ipad_key = map (\<lambda>b. b XOR 0x36) key_block;
             opad_key = map (\<lambda>b. b XOR 0x5c) key_block;
             inner_hash = sha3_256 (ipad_key @ data)
         in Inr (sha3_256 (opad_key @ inner_hash))))"

definition HMAC_SHA3_512 :: "(bytes \<Rightarrow> bytes) \<Rightarrow> bytes \<Rightarrow> bytes \<Rightarrow> crypto_error + bytes" where
  "HMAC_SHA3_512 sha3_512 key data =
     (if length data > SIZE_MAX - SHA3_512_BLOCKSIZE then Inl DataLenTooLarge
      else
        (let key_block = replicate SHA3_512_BLOCKSIZE 0;
             key_block = (if length key > SHA3_512_BLOCKSIZE then copy_over key_block (sha3_512 key)
                          else copy_over key_block key);
             ipad_key = map (\<lambda>b. b XOR 0x36) key_block;
             opad_key = map (\<lambda>b. b XOR 0x5c) key_block;
             inner_hash = sha3_512 (ipad_key @ data)
         in Inr (sha3_512 (opad_key @ inner_hash))))"

section \<open>PBKDF2\<close>

definition SHA3_512_OUTPUT_SIZE :: nat where "SHA3_512_OUTPUT_SIZE = 64"
definition UINT32_MAX :: nat where "UINT32_MAX = 2 ^ 32 - 1"

definition INT_32_BE :: "u32 \<Rightarrow> bytes" where
  "INT_32_BE v =
     [ucast (drop_bit 24 v AND 0xFF), ucast (drop_bit 16 v AND 0xFF), ucast (drop_bit 8 v AND 0xFF), ucast (v AND 0xFF)]"

definition xor_bytes :: "bytes \<Rightarrow> bytes \<Rightarrow> bytes" where
  "xor_bytes dest src = map2 (\<lambda>a b. a XOR b) dest src"

text \<open>
  The iterations from 2 on. The counter is a 32-bit number that is compared with \<open>iterations\<close> before every round, so
  the loop need not end: the value is \<open>None\<close> when it does not.
\<close>

partial_function (option) pbkdf2_loop ::
    "(bytes \<Rightarrow> bytes) \<Rightarrow> bytes \<Rightarrow> u32 \<Rightarrow> u32 \<Rightarrow> bytes \<Rightarrow> bytes \<Rightarrow> (crypto_error + bytes) option" where
  "pbkdf2_loop sha3_512 password iterations iter u_current out =
     (if iter \<le> iterations then
        (case HMAC_SHA3_512 sha3_512 password u_current of
           Inl e \<Rightarrow> Some (Inl e)
         | Inr u_current \<Rightarrow> pbkdf2_loop sha3_512 password iterations (iter + 1) u_current (xor_bytes out u_current))
      else Some (Inr out))"

definition pbkdf2_f :: "(bytes \<Rightarrow> bytes) \<Rightarrow> bytes \<Rightarrow> bytes \<Rightarrow> u32 \<Rightarrow> u32 \<Rightarrow> (crypto_error + bytes) option" where
  "pbkdf2_f sha3_512 password salt iterations block_index =
     (case HMAC_SHA3_512 sha3_512 password (salt @ INT_32_BE block_index) of
        Inl e \<Rightarrow> Some (Inl e)
      | Inr u_current \<Rightarrow> pbkdf2_loop sha3_512 password iterations 2 u_current u_current)"

fun PBKDF2_blocks ::
    "(bytes \<Rightarrow> bytes) \<Rightarrow> bytes \<Rightarrow> bytes \<Rightarrow> u32 \<Rightarrow> nat \<Rightarrow> nat \<Rightarrow> nat \<Rightarrow> bytes \<Rightarrow> (crypto_error + bytes) option" where
  "PBKDF2_blocks sha3_512 password salt iterations output_len i 0 out = Some (Inr out)"
| "PBKDF2_blocks sha3_512 password salt iterations output_len i (Suc n) out =
     (case pbkdf2_f sha3_512 password salt iterations (of_nat (i + 1)) of
        None \<Rightarrow> None
      | Some (Inl e) \<Rightarrow> Some (Inl e)
      | Some (Inr block) \<Rightarrow>
          (let offset = i * SHA3_512_OUTPUT_SIZE;
               bytes_to_copy = (if offset + SHA3_512_OUTPUT_SIZE > output_len then output_len - offset
                                else SHA3_512_OUTPUT_SIZE)
           in PBKDF2_blocks sha3_512 password salt iterations output_len (i + 1) n (out @ take bytes_to_copy block)))"

definition PBKDF2_SHA3_512 :: "(bytes \<Rightarrow> bytes) \<Rightarrow> bytes \<Rightarrow> bytes \<Rightarrow> u32 \<Rightarrow> nat \<Rightarrow> (crypto_error + bytes) option" where
  "PBKDF2_SHA3_512 sha3_512 password salt iterations output_len =
     (if iterations = 0 then Some (Inl IterationsZero)
      else if output_len = 0 then Some (Inl OutputLenZero)
      else if output_len > SIZE_MAX - SHA3_512_OUTPUT_SIZE + 1 then Some (Inl OutputLenTooLarge)
      else
        (let num_blocks = (output_len + SHA3_512_OUTPUT_SIZE - 1) div SHA3_512_OUTPUT_SIZE
         in if num_blocks > UINT32_MAX then Some (Inl OutputLenTooLarge)
            else PBKDF2_blocks sha3_512 password salt iterations output_len 0 num_blocks []))"

definition BIP39_MnemonicToSeed :: "(bytes \<Rightarrow> bytes) \<Rightarrow> bytes \<Rightarrow> bytes \<Rightarrow> (crypto_error + bytes) option" where
  "BIP39_MnemonicToSeed sha3_512 mnemonic_phrase passphrase =
     PBKDF2_SHA3_512 sha3_512 mnemonic_phrase (map (\<lambda>c. of_nat (of_char c)) ''dilithion-mnemonic'' @ passphrase) 2048 64"

lemma siphash_vector:
  "SipHash 0x0706050403020100 0x0f0e0d0c0b0a0908 [0] = 0x74f839c593dc67fd"
  by (simp add: SipHash_def Sip_Write_def Sip_Finalize_def CSipHasher_new_def ROTL_def)

section \<open>SipHash against its definition\<close>

text \<open>
  The definition of SipHash: the message is cut into little-endian words of eight bytes, the last one, of fewer than
  eight bytes, with the length modulo 256 as its highest byte.
\<close>

function sip_words :: "nat \<Rightarrow> bytes \<Rightarrow> u64 list" where
  "sip_words n data =
     (if length data < 8 then [of_nat (le_val data + n mod 256 * 2 ^ 56)]
      else of_nat (le_val (take 8 data)) # sip_words n (drop 8 data))"
  by pat_completeness auto

termination
  by (relation "measure (\<lambda>(_, data). length data)") auto

declare sip_words.simps [simp del]

declare SIPROUND.simps [simp del] SipCompress.simps [simp del]

definition sip_spec :: "u64 \<Rightarrow> u64 \<Rightarrow> bytes \<Rightarrow> u64" where
  "sip_spec k0 k1 data =
     (case foldl SipCompress (sip_v (CSipHasher_new k0 k1)) (sip_words (length data) data) of (v0, v1, v2, v3) \<Rightarrow>
        case (SIPROUND ^^ 4) (v0, v1, v2 XOR 0xff, v3) of (v0, v1, v2, v3) \<Rightarrow> v0 XOR v1 XOR v2 XOR v3)"

lemma or_push_high:
  assumes "a < 2 ^ k"
  shows "(of_nat a :: u64) OR push_bit k x = of_nat a + push_bit k x"
proof -
  have "(of_nat a :: u64) AND push_bit k x = 0"
  proof (rule bit_word_eqI)
    fix n
    show "bit ((of_nat a :: u64) AND push_bit k x) n = bit (0 :: u64) n"
    proof (cases "n < k")
      case False
      then have "a < 2 ^ n" using assms by (meson not_less order_less_le_trans power_increasing one_le_numeral)
      then have "\<not> bit a n" by (simp add: bit_iff_odd)
      then show ?thesis by (simp add: bit_simps)
    qed (simp add: bit_simps)
  qed
  then show ?thesis by (simp add: disjunctive_add_eq_or)
qed

lemma or_push_byte:
  "(of_nat (le_val p) :: u64) OR push_bit (8 * length p) (ucast (b :: byte)) = of_nat (le_val (p @ [b]))"
proof -
  have "le_val p < 2 ^ (8 * length p)" using le_val_bound [of p] by (simp add: power_mult)
  then have "(of_nat (le_val p) :: u64) OR push_bit (8 * length p) (ucast b) =
      of_nat (le_val p) + push_bit (8 * length p) (ucast b)"
    by (rule or_push_high)
  moreover have "(2 :: u64) ^ (8 * length p) = 256 ^ length p" by (simp add: power_mult)
  ultimately show ?thesis by (simp add: le_val_append push_bit_eq_mult mult.commute)
qed

lemma byte_and_7: "(c :: byte) AND 7 = 0 \<longleftrightarrow> unat c mod 8 = 0"
proof -
  have "c AND 7 = take_bit 3 c" by (simp add: take_bit_eq_mask mask_eq_exp_minus_1)
  then have "c AND 7 = 0 \<longleftrightarrow> unat (c mod 8) = 0" by (simp add: take_bit_eq_mod unat_eq_zero)
  then show ?thesis by (simp only: unat_mod) simp
qed

lemma unat_byte_mod8: "unat (of_nat n :: byte) mod 8 = n mod 8"
  by (simp add: unsigned_of_nat take_bit_eq_mod mod_mod_cancel)

lemma byte_of_nat_and_7: "(of_nat n :: byte) AND 7 = 0 \<longleftrightarrow> n mod 8 = 0"
  by (simp add: byte_and_7 unat_byte_mod8)

text \<open>The state of the hasher with the bytes \<open>p\<close> of the current word read.\<close>

lemma Sip_Write_loop_eq:
  assumes "length p < 8" "n mod 8 = length p"
  shows "\<exists>q v'. Sip_Write_loop v (of_nat (le_val p)) (of_nat n) data = (v', of_nat (le_val q), of_nat (n + length data)) \<and>
    length q < 8 \<and> (n + length data) mod 8 = length q \<and>
    (\<forall>m. foldl SipCompress v (sip_words m (p @ data)) = SipCompress v' (of_nat (le_val q + m mod 256 * 2 ^ 56)))"
  using assms
proof (induction data arbitrary: v p n)
  case Nil
  then show ?case by (intro exI [of _ p] exI [of _ v]) (simp add: sip_words.simps)
next
  case (Cons b data)
  let ?p = "p @ [b]"
  have t: "(of_nat (le_val p) :: u64) OR push_bit (8 * (unat (of_nat n :: byte) mod 8)) (ucast b) = of_nat (le_val ?p)"
    using or_push_byte [of p b] Cons.prems(2) by (simp only: unat_byte_mod8)
  have c: "(of_nat n :: byte) + 1 = of_nat (Suc n)" by simp
  show ?case
  proof (cases "length p = 7")
    case True
    then have z: "Suc n mod 8 = 0" using Cons.prems(2) by (simp add: mod_Suc)
    then have l: "Sip_Write_loop v (of_nat (le_val p)) (of_nat n) (b # data) =
        Sip_Write_loop (SipCompress v (of_nat (le_val ?p))) (of_nat (le_val [])) (of_nat (Suc n)) data"
      unfolding Sip_Write_loop.simps Let_def t c byte_of_nat_and_7 by simp
    have w: "sip_words m (p @ b # data) = of_nat (le_val ?p) # sip_words m ([] @ data)" for m
      using True by (subst sip_words.simps) simp
    obtain q v' where "Sip_Write_loop (SipCompress v (of_nat (le_val ?p))) (of_nat (le_val [])) (of_nat (Suc n)) data =
        (v', of_nat (le_val q), of_nat (Suc n + length data))" "length q < 8" "(Suc n + length data) mod 8 = length q"
        "\<forall>m. foldl SipCompress (SipCompress v (of_nat (le_val ?p))) (sip_words m ([] @ data)) =
           SipCompress v' (of_nat (le_val q + m mod 256 * 2 ^ 56))"
      using Cons.IH [of "[]" "Suc n" "SipCompress v (of_nat (le_val ?p))"] z by auto
    then show ?thesis unfolding l w by (intro exI [of _ q] exI [of _ v']) simp
  next
    case False
    then have p: "length ?p < 8" "Suc n mod 8 = length ?p" using Cons.prems by (simp_all add: mod_Suc)
    then have "Sip_Write_loop v (of_nat (le_val p)) (of_nat n) (b # data) =
        Sip_Write_loop v (of_nat (le_val ?p)) (of_nat (Suc n)) data"
      unfolding Sip_Write_loop.simps Let_def t c byte_of_nat_and_7 by simp
    then show ?thesis using Cons.IH [OF p, of v] by simp
  qed
qed

lemma funpow_4: "(f ^^ 4) x = f (f (f (f x)))"
  by (simp add: numeral_eq_Suc)

lemma SipHash_spec: "SipHash k0 k1 data = sip_spec k0 k1 data"
proof -
  let ?v = "sip_v (CSipHasher_new k0 k1)"
  obtain q v' where w: "Sip_Write_loop ?v (of_nat (le_val [])) (of_nat 0) data = (v', of_nat (le_val q), of_nat (0 + length data))"
      "length q < 8" and s: "\<forall>m. foldl SipCompress ?v (sip_words m ([] @ data)) = SipCompress v' (of_nat (le_val q + m mod 256 * 2 ^ 56))"
    using Sip_Write_loop_eq [of "[]" 0 ?v data] by auto
  have l: "le_val q < 2 ^ 56"
    using le_val_bound [of q] w(2) power_increasing [of "length q" 7 "256 :: nat"] by simp
  have t: "(of_nat (le_val q) :: u64) OR push_bit 56 (ucast (of_nat (length data) :: byte)) =
      of_nat (le_val q + length data mod 256 * 2 ^ 56)"
  proof -
    have "(ucast (of_nat (length data) :: byte) :: u64) = of_nat (length data mod 256)"
      unfolding ucast_byte_unat by (simp add: unsigned_of_nat take_bit_eq_mod)
    then show ?thesis unfolding or_push_high [OF l] by (simp add: push_bit_eq_mult)
  qed
  have "SipHash k0 k1 data = (case SipCompress v' (of_nat (le_val q + length data mod 256 * 2 ^ 56)) of (v0, v1, v2, v3) \<Rightarrow>
      case (SIPROUND ^^ 4) (v0, v1, v2 XOR 0xff, v3) of (v0, v1, v2, v3) \<Rightarrow> v0 XOR v1 XOR v2 XOR v3)"
    using w(1) by (simp add: SipHash_def Sip_Write_def Sip_Finalize_def CSipHasher_new_def Let_def t funpow_4)
  then show ?thesis using s by (simp add: sip_spec_def)
qed

lemma or_bytes_eq:
  assumes "k \<le> 8" "off + k \<le> length val"
  shows "foldl (\<lambda>w j. w OR push_bit (j * 8) (ucast (val ! (off + j)))) 0 [0..<k] =
    (of_nat (le_val (take k (drop off val))) :: u64)"
  using assms
proof (induction k)
  case (Suc k)
  let ?p = "take k (drop off val)"
  have l: "length ?p = k" and t: "take (Suc k) (drop off val) = ?p @ [val ! (off + k)]"
    using Suc.prems by (simp_all add: take_Suc_conv_app_nth)
  have "(of_nat (le_val ?p) :: u64) OR push_bit (k * 8) (ucast (val ! (off + k))) =
      of_nat (le_val (take (Suc k) (drop off val)))"
    using or_push_byte [of ?p "val ! (off + k)"] unfolding t l by (simp only: mult.commute)
  then show ?case using Suc by simp
qed simp

lemma SipWord_eq:
  "i * 8 + 8 \<le> length val \<Longrightarrow> SipWord val i = of_nat (le_val (take 8 (drop (i * 8) val)))"
  unfolding SipWord_def by (rule or_bytes_eq) simp_all

lemma SipHashUint256_spec:
  assumes "wf256 val"
  shows "SipHashUint256 k0 k1 val = sip_spec k0 k1 val"
proof -
  have l: "length val = 32" using assms by (simp add: wf256_def)
  have u: "[0..<4] = [0, 1, 2, 3 :: nat]" by (simp add: upt_rec)
  have w: "sip_words 32 val = map (SipWord val) [0..<4] @ [of_nat (32 * 2 ^ 56)]"
    using l unfolding u
    by (simp add: sip_words.simps [of 32 val] sip_words.simps [of 32 "drop 8 val"] sip_words.simps [of 32 "drop 16 val"]
        sip_words.simps [of 32 "drop 24 val"] sip_words.simps [of 32 "[]"] SipWord_eq)
  have s: "foldl Sip_Write64 h ws = h\<lparr>sip_v := foldl SipCompress (sip_v h) ws, sip_count := sip_count h + 8 * of_nat (length ws)\<rparr>" for h ws
    by (induction ws arbitrary: h) (simp_all add: Sip_Write64_def algebra_simps)
  have f: "foldl (\<lambda>h i. Sip_Write64 h (SipWord val i)) h xs = foldl Sip_Write64 h (map (SipWord val) xs)" for h xs
    by (induction xs arbitrary: h) simp_all
  show ?thesis
    unfolding SipHashUint256_def f s sip_spec_def l w
    by (simp add: Sip_Finalize_def CSipHasher_new_def funpow_4 push_bit_eq_mult)
qed

lemma Sip_Write_append: "Sip_Write h (xs @ ys) = Sip_Write (Sip_Write h xs) ys"
proof -
  have "Sip_Write_loop v t c (xs @ ys) = (case Sip_Write_loop v t c xs of (v, t, c) \<Rightarrow> Sip_Write_loop v t c ys)" for v t c
    by (induction xs arbitrary: v t c) (simp_all add: Let_def)
  then show ?thesis by (simp add: Sip_Write_def split: prod.splits)
qed

section \<open>PBKDF2 against its definition\<close>

definition hmac_512 :: "(bytes \<Rightarrow> bytes) \<Rightarrow> bytes \<Rightarrow> bytes \<Rightarrow> bytes" where
  "hmac_512 sha3_512 key data =
     (let k = (if length key > 72 then sha3_512 key else key); k = k @ replicate (72 - length k) 0
      in sha3_512 (map (\<lambda>b. b XOR 0x5c) k @ sha3_512 (map (\<lambda>b. b XOR 0x36) k @ data)))"

lemma HMAC_SHA3_512_eq:
  "HMAC_SHA3_512 sha3_512 key data =
     (if length data \<le> 2 ^ 64 - 73 then Inr (hmac_512 sha3_512 key data) else Inl DataLenTooLarge)"
  by (simp add: HMAC_SHA3_512_def hmac_512_def SIZE_MAX_def SHA3_512_BLOCKSIZE_def copy_over_def Let_def)

text \<open>\<open>pbkdf2_U h s j\<close> is the value number \<open>j + 1\<close> of the chain, \<open>pbkdf2_F h s c\<close> the exclusive or of the first \<open>c\<close>.\<close>

fun pbkdf2_U :: "(bytes \<Rightarrow> bytes) \<Rightarrow> bytes \<Rightarrow> nat \<Rightarrow> bytes" where
  "pbkdf2_U h s 0 = h s"
| "pbkdf2_U h s (Suc j) = h (pbkdf2_U h s j)"

definition pbkdf2_F :: "(bytes \<Rightarrow> bytes) \<Rightarrow> bytes \<Rightarrow> nat \<Rightarrow> bytes" where
  "pbkdf2_F h s c = foldl xor_bytes (pbkdf2_U h s 0) (map (pbkdf2_U h s) [1..<c])"

lemma length_pbkdf2_F:
  assumes "\<And>x. length (h x) = 64"
  shows "length (pbkdf2_F h s c) = 64"
proof -
  have u: "length (pbkdf2_U h s j) = 64" for j by (cases j) (simp_all add: assms)
  have "length (foldl xor_bytes a xs) = 64" if "length a = 64" "\<forall>x \<in> set xs. length x = 64" for a xs
    using that by (induction xs arbitrary: a) (simp_all add: xor_bytes_def)
  from this [OF u, of "map (pbkdf2_U h s) [1..<c]" 0] show ?thesis using u by (simp add: pbkdf2_F_def)
qed

lemma length_hmac: "(\<And>x. length (sha3 x) = 64) \<Longrightarrow> length (hmac_512 sha3 k x) = 64"
  by (simp add: hmac_512_def Let_def)

lemma pbkdf2_loop_returns:
  assumes "\<And>x. length (sha3 x) = 64" "iterations \<noteq> -1" "1 \<le> j" "j \<le> unat iterations"
  shows "pbkdf2_loop sha3 pw iterations (of_nat (j + 1)) (pbkdf2_U (hmac_512 sha3 pw) s (j - 1)) out =
    Some (Inr (foldl xor_bytes out (map (pbkdf2_U (hmac_512 sha3 pw) s) [j..<unat iterations])))"
  using assms(3,4)
proof (induction "unat iterations - j" arbitrary: j out)
  case 0
  have "unat iterations < 2 ^ 32 - 1"
  proof -
    have "unat iterations \<noteq> unat (-1 :: u32)" using assms(2) by (metis word_unat_eq_iff)
    moreover have "unat (-1 :: u32) = 2 ^ 32 - 1" by (simp add: unsigned_minus_1_eq_mask mask_eq_exp_minus_1)
    ultimately show ?thesis using u32_range [of iterations] by linarith
  qed
  moreover have "j = unat iterations" using 0 by simp
  ultimately have "unat (of_nat (j + 1) :: u32) = unat iterations + 1" by (subst unat_of_nat_u32) simp_all
  then have "\<not> (of_nat (j + 1) :: u32) \<le> iterations" by (simp add: word_le_nat_alt)
  then show ?case using \<open>j = unat iterations\<close> by (subst pbkdf2_loop.simps) simp
next
  case (Suc n)
  let ?U = "pbkdf2_U (hmac_512 sha3 pw) s"
  have j: "j < unat iterations" using Suc by simp
  then have "unat (of_nat (j + 1) :: u32) = j + 1"
    using u32_range [of iterations] by (intro unat_of_nat_u32) simp
  then have c: "(of_nat (j + 1) :: u32) \<le> iterations" using j by (simp add: word_le_nat_alt)
  have "length (?U (j - 1)) = 64" by (cases "j - 1") (simp_all add: length_hmac assms(1))
  then have h: "HMAC_SHA3_512 sha3 pw (?U (j - 1)) = Inr (?U j)"
    using Suc.prems(1) by (cases j) (simp_all add: HMAC_SHA3_512_eq)
  have "pbkdf2_loop sha3 pw iterations (of_nat (j + 1)) (?U (j - 1)) out =
      pbkdf2_loop sha3 pw iterations (of_nat (Suc j + 1)) (?U (Suc j - 1)) (xor_bytes out (?U j))"
    using c h by (subst pbkdf2_loop.simps) (simp add: add.commute)
  also have "\<dots> = Some (Inr (foldl xor_bytes (xor_bytes out (?U j)) (map ?U [Suc j..<unat iterations])))"
    using Suc j by (intro Suc.hyps(1)) simp_all
  finally show ?case using j by (simp add: upt_conv_Cons)
qed

lemma length_INT_32_BE [simp]: "length (INT_32_BE i) = 4"
  by (simp add: INT_32_BE_def)

lemma pbkdf2_f_returns:
  assumes "\<And>x. length (sha3 x) = 64" "iterations \<noteq> -1" "iterations \<noteq> 0" "length salt \<le> 2 ^ 64 - 77"
  shows "pbkdf2_f sha3 pw salt iterations i =
    Some (Inr (pbkdf2_F (hmac_512 sha3 pw) (salt @ INT_32_BE i) (unat iterations)))"
proof -
  have "1 \<le> unat iterations" using assms(3) by (simp add: Suc_le_eq unat_gt_0)
  then show ?thesis
    using pbkdf2_loop_returns [of sha3 iterations 1 pw "salt @ INT_32_BE i"] assms(2,4)
    by (simp add: pbkdf2_f_def HMAC_SHA3_512_eq pbkdf2_F_def assms(1))
qed

text \<open>With the largest iteration count the counter wraps around and the loop never ends.\<close>

lemma pbkdf2_loop_never_Some:
  assumes "pbkdf2_loop sha3 pw its iter u out = Some y"
  shows "\<not> (its = -1 \<and> length u \<le> 64 \<and> (\<forall>x. length (sha3 x) = 64))"
proof (rule pbkdf2_loop.raw_induct [where P = "\<lambda>sha3 pw its iter u out y.
    \<not> (its = -1 \<and> length u \<le> 64 \<and> (\<forall>x. length (sha3 x) = 64))", OF _ assms])
  fix f :: "(bytes \<Rightarrow> bytes) \<Rightarrow> bytes \<Rightarrow> u32 \<Rightarrow> u32 \<Rightarrow> bytes \<Rightarrow> bytes \<Rightarrow> (crypto_error + bytes) option"
    and sha3 pw its iter u out y
  assume IH: "\<And>sha3 pw its iter u out y. f sha3 pw its iter u out = Some y \<Longrightarrow>
      \<not> (its = -1 \<and> length u \<le> 64 \<and> (\<forall>x. length (sha3 x) = 64))"
    and e: "(if iter \<le> its then (case HMAC_SHA3_512 sha3 pw u of Inl e \<Rightarrow> Some (Inl e)
        | Inr u \<Rightarrow> f sha3 pw its (iter + 1) u (xor_bytes out u)) else Some (Inr out)) = Some y"
  show "\<not> (its = -1 \<and> length u \<le> 64 \<and> (\<forall>x. length (sha3 x) = 64))"
  proof
    assume a: "its = -1 \<and> length u \<le> 64 \<and> (\<forall>x. length (sha3 x) = 64)"
    then have h: "HMAC_SHA3_512 sha3 pw u = Inr (hmac_512 sha3 pw u)" "length (hmac_512 sha3 pw u) = 64"
      by (simp_all add: HMAC_SHA3_512_eq length_hmac)
    have "iter \<le> its" using a by (simp add: word_le_nat_alt unsigned_minus_1_eq_mask mask_eq_exp_minus_1) (use u32_range [of iter] in simp)
    with e a h(1) have "f sha3 pw its (iter + 1) (hmac_512 sha3 pw u) (xor_bytes out (hmac_512 sha3 pw u)) = Some y"
      by simp
    from IH [OF this] a h(2) show False by simp
  qed
qed

lemma pbkdf2_loop_diverges:
  assumes "\<And>x. length (sha3 x) = 64" "length u \<le> 64"
  shows "pbkdf2_loop sha3 pw (-1) iter u out = None"
  using pbkdf2_loop_never_Some [of sha3 pw "-1" iter u out] assms
  by (cases "pbkdf2_loop sha3 pw (-1) iter u out") auto

lemma pbkdf2_f_diverges:
  assumes "\<And>x. length (sha3 x) = 64" "length salt \<le> 2 ^ 64 - 77"
  shows "pbkdf2_f sha3 pw salt (-1) i = None"
  using assms(2) by (simp add: pbkdf2_f_def HMAC_SHA3_512_eq pbkdf2_loop_diverges length_hmac assms(1))

lemma PBKDF2_blocks_returns:
  assumes "\<And>i. i < i0 + n \<Longrightarrow> pbkdf2_f sha3 pw salt iterations (of_nat (i + 1)) = Some (Inr (B i))"
    "\<And>i. length (B i) = 64" "length out = i0 * 64" "64 * (i0 + n - 1) < len" "len \<le> 64 * (i0 + n)" "0 < n"
  shows "PBKDF2_blocks sha3 pw salt iterations len i0 n out = Some (Inr (take len (out @ concat (map B [i0..<i0 + n]))))"
  using assms(1,3-)
proof (induction n arbitrary: i0 out)
  case (Suc n)
  show ?case
  proof (cases "n = 0")
    case True
    then show ?thesis using Suc.prems assms(2) by (simp add: SHA3_512_OUTPUT_SIZE_def Let_def)
  next
    case False
    have "PBKDF2_blocks sha3 pw salt iterations len i0 (Suc n) out =
        PBKDF2_blocks sha3 pw salt iterations len (Suc i0) n (out @ B i0)"
      using Suc.prems False assms(2) by (simp add: SHA3_512_OUTPUT_SIZE_def Let_def)
    also have "\<dots> = Some (Inr (take len ((out @ B i0) @ concat (map B [Suc i0..<Suc i0 + n]))))"
      using Suc.prems False assms(2) by (intro Suc.IH) simp_all
    also have "[i0..<i0 + Suc n] = i0 # [Suc i0..<Suc i0 + n]" by (simp add: upt_conv_Cons del: upt_Suc)
    then have "(out @ B i0) @ concat (map B [Suc i0..<Suc i0 + n]) = out @ concat (map B [i0..<i0 + Suc n])"
      by (simp del: upt_Suc)
    finally show ?thesis .
  qed
qed simp

section \<open>Properties\<close>

text \<open>
  C36: both ways to hash with SipHash agree with its definition: writing bytes, in any number of pieces, and writing a
  256-bit value as four words. The published test value for the message of one zero byte comes out.
\<close>

theorem siphash_correct:
  assumes "wf256 val"
  shows "Sip_Finalize (Sip_Write (Sip_Write (CSipHasher_new k0 k1) xs) ys) = sip_spec k0 k1 (xs @ ys) \<and>
    SipHashUint256 k0 k1 val = SipHash k0 k1 val \<and> SipHash k0 k1 val = sip_spec k0 k1 val \<and>
    SipHash 0x0706050403020100 0x0f0e0d0c0b0a0908 [0] = 0x74f839c593dc67fd"
  using siphash_vector SipHash_spec [of k0 k1 "xs @ ys"] SipHash_spec [of k0 k1 val] SipHashUint256_spec [OF assms]
  by (simp add: SipHash_def Sip_Write_append)

theorem siphash_correct_witness:
  "SipHashUint256 1 2 (replicate 32 7) = sip_spec 1 2 (replicate 32 7)"
  using siphash_correct [of "replicate 32 7" 1 2 "[]" "[]"] by (simp add: wf256_def)

text \<open>
  C37: the key derivation. For every iteration count from 1 to 2^32 - 2 and every output length up to 2^32 - 1 blocks it
  returns, and the output is the first bytes of the blocks of PBKDF2, each the exclusive or of a chain of keyed hashes.
  With the iteration count 2^32 - 1 it never returns, because the 32-bit counter wraps around.
\<close>

theorem pbkdf2_returns:
  assumes "\<forall>x. length (sha3_512 x) = 64" "length salt \<le> 2 ^ 64 - 77" "0 < n" "n \<le> 64 * (2 ^ 32 - 1)" "iterations \<noteq> 0"
  shows "PBKDF2_SHA3_512 sha3_512 pw salt iterations n =
    (if iterations = -1 then None
     else Some (Inr (take n (concat (map (\<lambda>i.
       pbkdf2_F (hmac_512 sha3_512 pw) (salt @ INT_32_BE (of_nat (i + 1))) (unat iterations)) [0..<(n + 63) div 64])))))"
proof -
  let ?N = "(n + 63) div 64"
  have l: "\<And>x. length (sha3_512 x) = 64" using assms(1) by simp
  have N: "0 < ?N" "?N \<le> 2 ^ 32 - 1" "64 * (?N - 1) < n" "n \<le> 64 * ?N" using assms(3,4) by linarith+
  have e: "PBKDF2_SHA3_512 sha3_512 pw salt iterations n = PBKDF2_blocks sha3_512 pw salt iterations n 0 ?N []"
    using assms(3-5) N(2) by (simp add: PBKDF2_SHA3_512_def SHA3_512_OUTPUT_SIZE_def SIZE_MAX_def UINT32_MAX_def Let_def add.commute [of n])
  show ?thesis
  proof (cases "iterations = -1")
    case True
    then have "PBKDF2_blocks sha3_512 pw salt iterations n 0 ?N [] = None"
      using N(1) pbkdf2_f_diverges [of sha3_512, OF l assms(2)] by (cases ?N) simp_all
    then show ?thesis using True e by simp
  next
    case False
    let ?B = "\<lambda>i. pbkdf2_F (hmac_512 sha3_512 pw) (salt @ INT_32_BE (of_nat (i + 1))) (unat iterations)"
    have "PBKDF2_blocks sha3_512 pw salt iterations n 0 ?N [] = Some (Inr (take n ([] @ concat (map ?B [0..<0 + ?N]))))"
      using N pbkdf2_f_returns [of sha3_512, OF l False assms(5,2)]
      by (intro PBKDF2_blocks_returns) (simp_all add: length_pbkdf2_F length_hmac l)
    then show ?thesis using False e by simp
  qed
qed

theorem pbkdf2_returns_witness:
  "PBKDF2_SHA3_512 (\<lambda>x. take 64 (x @ replicate 64 0)) [1] [2] 3 10 \<noteq> None \<and>
   PBKDF2_SHA3_512 (\<lambda>x. take 64 (x @ replicate 64 0)) [1] [2] (-1) 10 = None"
  using pbkdf2_returns [of "\<lambda>x. take 64 (x @ replicate 64 0)" "[2]" 10 3 "[1]"]
    pbkdf2_returns [of "\<lambda>x. take 64 (x @ replicate 64 0)" "[2]" 10 "-1" "[1]"]
  by (simp add: min_def)

end
