(* ===== verification/CompactBlock.thy ===== *)
theory CompactBlock
  imports BlockValidation Crypto
begin

text \<open>
  \<open>src/src/net/blockencodings.cpp\<close>: the byte form of the transactions of a block, compact blocks and their wire
  form, the reconstruction of a block from a compact block, the memory pool and requested transactions, and the two
  messages of the request. The random nonce of a compact block is an argument of its constructor.

  A decoder answers \<open>Rejected\<close> where the code returns \<open>false\<close>. Where the code reads bytes behind the end of its
  buffer, which has no defined result, the model answers \<open>ReadPastEnd\<close>.
\<close>

datatype read_error = Rejected | ReadPastEnd

section \<open>Transactions of a block as bytes\<close>

definition ReadVtxCount :: "bytes \<Rightarrow> read_error + u64 \<times> bytes" where
  "ReadVtxCount data =
     (case data of [] \<Rightarrow> Inl Rejected
      | firstByte # rest \<Rightarrow>
          if firstByte < 253 then Inr (ucast firstByte, rest)
          else if firstByte = 253 then
            (if 2 > length rest then Inl Rejected
             else Inr (ucast (rest ! 0) OR push_bit 8 (ucast (rest ! 1)), drop 2 rest))
          else if firstByte = 254 then
            (if 4 > length rest then Inl Rejected
             else Inr (ucast (rest ! 0) OR push_bit 8 (ucast (rest ! 1)) OR push_bit 16 (ucast (rest ! 2)) OR
                       push_bit 24 (ucast (rest ! 3)), drop 4 rest))
          else
            (if 8 > length rest then Inl Rejected
             else Inr (ucast (rest ! 0) OR push_bit 8 (ucast (rest ! 1)) OR push_bit 16 (ucast (rest ! 2)) OR
                       push_bit 24 (ucast (rest ! 3)) OR push_bit 32 (ucast (rest ! 4)) OR push_bit 40 (ucast (rest ! 5)) OR
                       push_bit 48 (ucast (rest ! 6)) OR push_bit 56 (ucast (rest ! 7)), drop 8 rest)))"

definition ReadVtxTransaction :: "bytes \<Rightarrow> read_error + CTransaction \<times> bytes" where
  "ReadVtxTransaction data =
     (case Deserialize CTransaction_default data True of
        Inl e \<Rightarrow> Inl Rejected
      | Inr (tx, bytesConsumed) \<Rightarrow> Inr (tx, drop bytesConsumed data))"

definition DeserializeTransactionsFromVtx :: "bytes \<Rightarrow> read_error + CTransaction list" where
  "DeserializeTransactionsFromVtx data =
     bindE (ReadVtxCount data) (\<lambda>(txCount, data).
       if txCount > 100000 then Inl Rejected
       else bindE (decode_n (unat txCount) ReadVtxTransaction data) (\<lambda>(transactions, _). Inr transactions))"

text \<open>A transaction pointer is an option: \<open>None\<close> is the null pointer.\<close>

definition VtxCount :: "u64 \<Rightarrow> bytes" where
  "VtxCount txCount =
     (if txCount < 253 then [ucast txCount]
      else if txCount \<le> 0xFFFF then [253, ucast txCount, ucast (drop_bit 8 txCount)]
      else if txCount \<le> 0xFFFFFFFF then
        [254, ucast txCount, ucast (drop_bit 8 txCount), ucast (drop_bit 16 txCount), ucast (drop_bit 24 txCount)]
      else
        [255, ucast txCount, ucast (drop_bit 8 txCount), ucast (drop_bit 16 txCount), ucast (drop_bit 24 txCount),
         ucast (drop_bit 32 txCount), ucast (drop_bit 40 txCount), ucast (drop_bit 48 txCount), ucast (drop_bit 56 txCount)])"

definition SerializeTransactionsToVtx :: "CTransaction option list \<Rightarrow> bytes" where
  "SerializeTransactionsToVtx transactions =
     foldl (\<lambda>data tx. case tx of None \<Rightarrow> data | Some tx \<Rightarrow> data @ Serialize tx)
       (VtxCount (of_nat (length transactions))) transactions"

definition BuildMerkleRootFromTxs :: "(bytes \<Rightarrow> uint256) \<Rightarrow> CTransaction option list \<Rightarrow> uint256" where
  "BuildMerkleRootFromTxs sha3 transactions =
     (if transactions = [] then zero256
      else
        (let merkleTree = map (\<lambda>tx. case tx of None \<Rightarrow> zero256 | Some tx \<Rightarrow> TxId sha3 tx) transactions;
             merkleTree = MerkleLevels sha3 0 (length transactions) merkleTree
         in if merkleTree = [] then zero256 else last merkleTree))"

section \<open>Compact blocks\<close>

record PrefilledTransaction =
  pt_index :: u16
  pt_tx :: CTransaction

record CBlockHeaderAndShortTxIDs =
  cb_header :: CBlockHeader
  cb_nonce :: u64
  shorttxids :: "u64 list"
  prefilledtxn :: "PrefilledTransaction list"
  shorttxidk0 :: u64
  shorttxidk1 :: u64

definition CompactBlock_default :: CBlockHeaderAndShortTxIDs where
  "CompactBlock_default = \<lparr>cb_header = CBlockHeader_SetNull, cb_nonce = 0, shorttxids = [], prefilledtxn = [],
     shorttxidk0 = 0, shorttxidk1 = 0\<rparr>"

text \<open>The header and the nonce as the 88 bytes that are hashed, and the two keys from the first 16 bytes of the hash.\<close>

definition SelectorData :: "CBlockHeaderAndShortTxIDs \<Rightarrow> bytes" where
  "SelectorData c =
     (let header = cb_header c
      in le_bytes 4 (unat (hdr_nVersion header)) @ hashPrevBlock header @ hashMerkleRoot header @
         le_bytes 4 (unat (hdr_nTime header)) @ le_bytes 4 (unat (hdr_nBits header)) @ le_bytes 4 (unat (hdr_nNonce header)) @
         le_bytes 8 (unat (cb_nonce c)))"

definition FillShortTxIDSelector ::
    "(bytes \<Rightarrow> uint256) \<Rightarrow> CBlockHeaderAndShortTxIDs \<Rightarrow> CBlockHeaderAndShortTxIDs" where
  "FillShortTxIDSelector sha3 c =
     (let hash = sha3 (SelectorData c)
      in c\<lparr>shorttxidk0 := foldl (\<lambda>k i. k OR push_bit (i * 8) (ucast (hash ! i))) 0 [0..<8],
           shorttxidk1 := foldl (\<lambda>k i. k OR push_bit (i * 8) (ucast (hash ! (i + 8)))) 0 [0..<8]\<rparr>)"

text \<open>The short identifier, with the object after the call: unset keys are filled in.\<close>

definition GetShortID ::
    "(bytes \<Rightarrow> uint256) \<Rightarrow> CBlockHeaderAndShortTxIDs \<Rightarrow> uint256 \<Rightarrow> u64 \<times> CBlockHeaderAndShortTxIDs" where
  "GetShortID sha3 c txid =
     (let c = (if shorttxidk0 c = 0 \<and> shorttxidk1 c = 0 then FillShortTxIDSelector sha3 c else c)
      in (SipHashUint256 (shorttxidk0 c) (shorttxidk1 c) txid AND 0xffffffffffff, c))"

fun PushShortIDs ::
    "(bytes \<Rightarrow> uint256) \<Rightarrow> CBlockHeaderAndShortTxIDs \<Rightarrow> CTransaction list \<Rightarrow> CBlockHeaderAndShortTxIDs" where
  "PushShortIDs sha3 c [] = c"
| "PushShortIDs sha3 c (tx # txs) =
     (case GetShortID sha3 c (TxId sha3 tx) of
        (shortid, c) \<Rightarrow> PushShortIDs sha3 (c\<lparr>shorttxids := shorttxids c @ [shortid]\<rparr>) txs)"

definition CompactBlock_of_block ::
    "(bytes \<Rightarrow> uint256) \<Rightarrow> u64 \<Rightarrow> CBlock \<Rightarrow> CBlockHeaderAndShortTxIDs" where
  "CompactBlock_of_block sha3 nonce block =
     (let header = CBlockHeader_SetNull\<lparr>hdr_nVersion := hdr_nVersion block, hashPrevBlock := hashPrevBlock block,
            hashMerkleRoot := hashMerkleRoot block, hdr_nTime := hdr_nTime block, hdr_nBits := hdr_nBits block,
            hdr_nNonce := hdr_nNonce block\<rparr>;
          header = (if sint (hdr_nVersion block) \<ge> 4
            then header\<lparr>vdfOutput := vdfOutput block, vdfProofHash := vdfProofHash block\<rparr> else header);
          c = FillShortTxIDSelector sha3 (CompactBlock_default\<lparr>cb_header := header, cb_nonce := nonce\<rparr>)
      in case DeserializeTransactionsFromVtx (vtx block) of
           Inl e \<Rightarrow> c
         | Inr [] \<Rightarrow> c
         | Inr (coinbase # txs) \<Rightarrow>
             PushShortIDs sha3 (c\<lparr>prefilledtxn := [\<lparr>pt_index = 0, pt_tx = CTransaction_copy coinbase\<rparr>]\<rparr>) txs)"

definition CompactBlock_IsValid :: "CBlockHeaderAndShortTxIDs \<Rightarrow> bool" where
  "CompactBlock_IsValid c \<longleftrightarrow>
     \<not> length (shorttxids c) > 100000 \<and>
     \<not> length (prefilledtxn c) > length (shorttxids c) + 1 \<and>
     list_all (\<lambda>prefilled. \<not> unat (pt_index prefilled) > length (shorttxids c)) (prefilledtxn c)"

text \<open>The six bytes of a short identifier.\<close>

definition ShortIdBytes :: "u64 \<Rightarrow> bytes" where
  "ShortIdBytes shortid = map (\<lambda>i. ucast (drop_bit (i * 8) shortid AND 0xFF)) [0..<6]"

fun SerializePrefilled :: "u16 \<Rightarrow> PrefilledTransaction list \<Rightarrow> bytes" where
  "SerializePrefilled last_index [] = []"
| "SerializePrefilled last_index (prefilled # ps) =
     (let diff = pt_index prefilled - last_index
      in le_bytes 2 (unat diff) @ Serialize (pt_tx prefilled) @ SerializePrefilled (pt_index prefilled + 1) ps)"

definition CompactBlock_Serialize :: "CBlockHeaderAndShortTxIDs \<Rightarrow> bytes" where
  "CompactBlock_Serialize c =
     (let header = cb_header c;
          data = le_bytes 4 (unat (hdr_nVersion header)) @ hashPrevBlock header @ hashMerkleRoot header @
            le_bytes 4 (unat (hdr_nTime header)) @ le_bytes 4 (unat (hdr_nBits header)) @ le_bytes 4 (unat (hdr_nNonce header));
          data = (if sint (hdr_nVersion header) \<ge> 4 then data @ vdfOutput header @ vdfProofHash header else data);
          data = data @ le_bytes 8 (unat (cb_nonce c));
          data = data @ le_bytes 4 (unat (of_nat (length (shorttxids c)) :: u32));
          data = data @ concat (map ShortIdBytes (shorttxids c));
          data = data @ le_bytes 2 (unat (of_nat (length (prefilledtxn c)) :: u16))
      in data @ SerializePrefilled 0 (prefilledtxn c))"

definition ReadShortId :: "bytes \<Rightarrow> read_error + u64 \<times> bytes" where
  "ReadShortId data =
     Inr (foldl (\<lambda>shortid j. shortid OR push_bit (j * 8) (ucast (data ! j))) 0 [0..<6], drop 6 data)"

fun ReadPrefilled :: "nat \<Rightarrow> u16 \<Rightarrow> bytes \<Rightarrow> read_error + PrefilledTransaction list" where
  "ReadPrefilled 0 last_index data = Inr []"
| "ReadPrefilled (Suc n) last_index data =
     (if 2 > length data then Inl Rejected
      else
        (let diff = of_nat (le_val (take 2 data)) :: u16;
             index = last_index + diff
         in bindE (ReadVtxTransaction (drop 2 data)) (\<lambda>(tx, data).
            bindE (ReadPrefilled n (index + 1) data) (\<lambda>ps. Inr (\<lparr>pt_index = index, pt_tx = tx\<rparr> # ps)))))"

text \<open>The fields of the header in front of the VDF fields; the caller has checked that the bytes are there.\<close>

definition ReadHeaderFields :: "bytes \<Rightarrow> CBlockHeader" where
  "ReadHeaderFields data = CBlockHeader_SetNull\<lparr>
     hdr_nVersion := of_nat (le_val (take 4 data)), hashPrevBlock := take 32 (drop 4 data),
     hashMerkleRoot := take 32 (drop 36 data), hdr_nTime := of_nat (le_val (take 4 (drop 68 data))),
     hdr_nBits := of_nat (le_val (take 4 (drop 72 data))), hdr_nNonce := of_nat (le_val (take 4 (drop 76 data)))\<rparr>"

definition CompactBlock_Deserialize ::
    "(bytes \<Rightarrow> uint256) \<Rightarrow> bytes \<Rightarrow> read_error + CBlockHeaderAndShortTxIDs" where
  "CompactBlock_Deserialize sha3 data =
     (if length data < 90 then Inl Rejected
      else
        (let header = ReadHeaderFields data; rest = drop 80 data
         in if sint (hdr_nVersion header) \<ge> 4 \<and> 64 > length rest then Inl Rejected
            else
              (let header = (if sint (hdr_nVersion header) \<ge> 4
                     then header\<lparr>vdfOutput := take 32 rest, vdfProofHash := take 32 (drop 32 rest)\<rparr> else header);
                   rest = (if sint (hdr_nVersion header) \<ge> 4 then drop 64 rest else rest)
               in if 8 > length rest then Inl ReadPastEnd
                  else
                    (let c = FillShortTxIDSelector sha3 (CompactBlock_default\<lparr>cb_header := header,
                           cb_nonce := of_nat (le_val (take 8 rest))\<rparr>);
                         rest = drop 8 rest
                     in if 4 > length rest then Inl Rejected
                        else
                          (let count = of_nat (le_val (take 4 rest)) :: u32; rest = drop 4 rest
                           in if count > 100000 then Inl Rejected
                              else if unat (count * 6) > length rest then Inl Rejected
                              else
                                bindE (decode_n (unat count) ReadShortId rest) (\<lambda>(ids, rest).
                                  if 2 > length rest then Inl Rejected
                                  else
                                    (let prefilled_count = of_nat (le_val (take 2 rest)) :: u16
                                     in bindE (ReadPrefilled (unat prefilled_count) 0 (drop 2 rest)) (\<lambda>ps.
                                        Inr (c\<lparr>shorttxids := ids, prefilledtxn := ps\<rparr>)))))))))"

section \<open>Reconstruction of a block\<close>

datatype ReadStatus = OK | INVALID | FAILED | CHECKBLOCK_FAILED | EXTRA_TXN

record PartiallyDownloadedBlock =
  is_initialized :: bool
  pd_header :: CBlockHeader
  txn_available :: "CTransaction option list"
  shortid_to_index :: "u64 \<rightharpoonup> u16"
  prefilled_indices :: "u16 set"

definition PartiallyDownloadedBlock_default :: PartiallyDownloadedBlock where
  "PartiallyDownloadedBlock_default = \<lparr>is_initialized = False, pd_header = CBlockHeader_SetNull, txn_available = [],
     shortid_to_index = Map.empty, prefilled_indices = {}\<rparr>"

definition GetMissingTxCount :: "PartiallyDownloadedBlock \<Rightarrow> nat" where
  "GetMissingTxCount p = length (filter (\<lambda>tx. tx = None) (txn_available p))"

definition GetMissingTxIndices :: "PartiallyDownloadedBlock \<Rightarrow> u16 list" where
  "GetMissingTxIndices p =
     map of_nat (filter (\<lambda>i. txn_available p ! i = None) [0..<length (txn_available p)])"

definition IsTxAvailable :: "PartiallyDownloadedBlock \<Rightarrow> nat \<Rightarrow> bool" where
  "IsTxAvailable p index = (if index \<ge> length (txn_available p) then False else txn_available p ! index \<noteq> None)"

text \<open>The three loops of \<open>InitData\<close>; \<open>False\<close> stands for the early return of \<open>INVALID\<close>.\<close>

fun PlacePrefilled ::
    "nat \<Rightarrow> PrefilledTransaction list \<Rightarrow> PartiallyDownloadedBlock \<Rightarrow> bool \<times> PartiallyDownloadedBlock" where
  "PlacePrefilled tx_count [] p = (True, p)"
| "PlacePrefilled tx_count (prefilled # ps) p =
     (if unat (pt_index prefilled) \<ge> tx_count then (False, p)
      else PlacePrefilled tx_count ps
        (p\<lparr>txn_available := (txn_available p)[unat (pt_index prefilled) := Some (CTransaction_copy (pt_tx prefilled))],
           prefilled_indices := insert (pt_index prefilled) (prefilled_indices p)\<rparr>))"

fun MapShortIds ::
    "nat \<Rightarrow> nat \<Rightarrow> u64 list \<Rightarrow> PartiallyDownloadedBlock \<Rightarrow> bool \<times> PartiallyDownloadedBlock" where
  "MapShortIds i 0 ids p = (True, p)"
| "MapShortIds i (Suc n) ids p =
     (if (of_nat i :: u16) \<in> prefilled_indices p then MapShortIds (i + 1) n ids p
      else
        (case ids of [] \<Rightarrow> (False, p)
         | shortid # ids \<Rightarrow>
             MapShortIds (i + 1) n ids (p\<lparr>shortid_to_index := (shortid_to_index p)(shortid \<mapsto> of_nat i)\<rparr>)))"

fun FillFromMempool ::
    "(bytes \<Rightarrow> uint256) \<Rightarrow> CBlockHeaderAndShortTxIDs \<Rightarrow> CTransaction list \<Rightarrow> PartiallyDownloadedBlock \<Rightarrow>
     PartiallyDownloadedBlock" where
  "FillFromMempool sha3 c [] p = p"
| "FillFromMempool sha3 c (tx # txs) p =
     (case GetShortID sha3 c (TxId sha3 tx) of
        (shortid, c) \<Rightarrow>
          FillFromMempool sha3 c txs
            (case shortid_to_index p shortid of
               Some i \<Rightarrow> (if txn_available p ! unat i = None
                          then p\<lparr>txn_available := (txn_available p)[unat i := Some (CTransaction_copy tx)]\<rparr> else p)
             | None \<Rightarrow> p))"

definition InitData ::
    "(bytes \<Rightarrow> uint256) \<Rightarrow> CBlockHeaderAndShortTxIDs \<Rightarrow> CTransaction list \<Rightarrow> PartiallyDownloadedBlock \<Rightarrow>
     ReadStatus \<times> PartiallyDownloadedBlock" where
  "InitData sha3 cmpctblock mempool_txs p =
     (if \<not> CompactBlock_IsValid cmpctblock then (INVALID, p)
      else
        (let tx_count = length (shorttxids cmpctblock) + length (prefilledtxn cmpctblock);
             p = p\<lparr>pd_header := cb_header cmpctblock,
                   txn_available := take tx_count (txn_available p) @ replicate (tx_count - length (txn_available p)) None\<rparr>
         in case PlacePrefilled tx_count (prefilledtxn cmpctblock) p of
              (False, p) \<Rightarrow> (INVALID, p)
            | (True, p) \<Rightarrow>
                (case MapShortIds 0 tx_count (shorttxids cmpctblock) p of
                   (False, p) \<Rightarrow> (INVALID, p)
                 | (True, p) \<Rightarrow>
                     (let p = (FillFromMempool sha3 cmpctblock mempool_txs p)\<lparr>is_initialized := True\<rparr>
                      in if GetMissingTxCount p > 0 then (EXTRA_TXN, p) else (OK, p)))))"

fun PlaceMissing :: "(u16 \<times> CTransaction) list \<Rightarrow> CTransaction option list \<Rightarrow> CTransaction option list" where
  "PlaceMissing [] avail = avail"
| "PlaceMissing ((i, tx) # xs) avail = PlaceMissing xs (avail[unat i := Some (CTransaction_copy tx)])"

definition FillMissingTxs ::
    "PartiallyDownloadedBlock \<Rightarrow> CTransaction list \<Rightarrow> ReadStatus \<times> PartiallyDownloadedBlock" where
  "FillMissingTxs p txn =
     (let missing = GetMissingTxIndices p
      in if length txn \<noteq> length missing then (INVALID, p)
         else (OK, p\<lparr>txn_available := PlaceMissing (zip missing txn) (txn_available p)\<rparr>))"

definition GetBlock :: "(bytes \<Rightarrow> uint256) \<Rightarrow> PartiallyDownloadedBlock \<Rightarrow> CBlock option" where
  "GetBlock sha3 p =
     (if \<not> is_initialized p then None
      else if GetMissingTxCount p > 0 then None
      else
        (let header = pd_header p;
             block = CBlock_SetNull\<lparr>hdr_nVersion := hdr_nVersion header, hashPrevBlock := hashPrevBlock header,
               hashMerkleRoot := hashMerkleRoot header, hdr_nTime := hdr_nTime header, hdr_nBits := hdr_nBits header,
               hdr_nNonce := hdr_nNonce header, vdfOutput := vdfOutput header, vdfProofHash := vdfProofHash header,
               vtx := SerializeTransactionsToVtx (txn_available p)\<rparr>;
             computed_merkle = BuildMerkleRootFromTxs sha3 (txn_available p)
         in if computed_merkle \<noteq> hashMerkleRoot header then None else Some block))"

section \<open>Requests for transactions\<close>

record BlockTransactionsRequest =
  req_blockhash :: uint256
  indexes :: "u16 list"

fun DiffBytes :: "u16 \<Rightarrow> u16 list \<Rightarrow> bytes" where
  "DiffBytes last_index [] = []"
| "DiffBytes last_index (idx # is) =
     (let diff = idx - last_index
      in ucast (diff AND 0xFF) # ucast (drop_bit 8 diff AND 0xFF) # DiffBytes (idx + 1) is)"

definition Request_Serialize :: "BlockTransactionsRequest \<Rightarrow> bytes" where
  "Request_Serialize r =
     (let count = of_nat (length (indexes r)) :: u16
      in req_blockhash r @ [ucast (count AND 0xFF), ucast (drop_bit 8 count AND 0xFF)] @ DiffBytes 0 (indexes r))"

fun ReadDiffs :: "nat \<Rightarrow> u16 \<Rightarrow> bytes \<Rightarrow> u16 list" where
  "ReadDiffs 0 last_index data = []"
| "ReadDiffs (Suc n) last_index data =
     (let diff = ucast (data ! 0) OR push_bit 8 (ucast (data ! 1));
          index = last_index + diff
      in index # ReadDiffs n (index + 1) (drop 2 data))"

definition Request_Deserialize :: "bytes \<Rightarrow> read_error + BlockTransactionsRequest" where
  "Request_Deserialize data =
     (if length data < 34 then Inl Rejected
      else
        (let count = ucast (data ! 32) OR push_bit 8 (ucast (data ! 33)) :: u16
         in if count > 10000 then Inl Rejected
            else if 34 + unat count * 2 > length data then Inl Rejected
            else Inr \<lparr>req_blockhash = take 32 data, indexes = ReadDiffs (unat count) 0 (drop 34 data)\<rparr>))"

record BlockTransactions =
  resp_blockhash :: uint256
  resp_txn :: "CTransaction list"

definition BlockTransactions_Serialize :: "BlockTransactions \<Rightarrow> bytes" where
  "BlockTransactions_Serialize r =
     (let count = of_nat (length (resp_txn r)) :: u16
      in foldl (\<lambda>data tx. data @ Serialize tx)
           (resp_blockhash r @ [ucast (count AND 0xFF), ucast (drop_bit 8 count AND 0xFF)]) (resp_txn r))"

definition BlockTransactions_Deserialize :: "bytes \<Rightarrow> read_error + BlockTransactions" where
  "BlockTransactions_Deserialize data =
     (if length data < 34 then Inl Rejected
      else
        (let count = ucast (data ! 32) OR push_bit 8 (ucast (data ! 33)) :: u16
         in if count > 10000 then Inl Rejected
            else bindE (decode_n (unat count) ReadVtxTransaction (drop 34 data)) (\<lambda>(txn, _).
              Inr \<lparr>resp_blockhash = take 32 data, resp_txn = txn\<rparr>)))"

section \<open>Bytes\<close>

lemma or_read_2:
  assumes "2 \<le> length p"
  shows "(ucast (p ! 0 :: byte) :: 'a::len word) OR push_bit 8 (ucast (p ! 1)) = of_nat (le_val (take 2 p))"
proof -
  obtain a b r where "p = a # b # r" using assms by (cases p; cases "tl p") auto
  then show ?thesis using le_word_2 [of a b, where 'a = 'a] by (simp add: take_Cons')
qed

lemma or_read_4:
  assumes "4 \<le> length p"
  shows "(ucast (p ! 0 :: byte) :: 'a::len word) OR push_bit 8 (ucast (p ! 1)) OR push_bit 16 (ucast (p ! 2)) OR
     push_bit 24 (ucast (p ! 3)) = of_nat (le_val (take 4 p))"
proof -
  obtain a b c d where t: "take 4 p = [a, b, c, d]" using list_of_length_4 [of "take 4 p"] assms by auto
  then have "p ! 0 = a" "p ! 1 = b" "p ! 2 = c" "p ! 3 = d"
    using nth_take [of 0 4 p] nth_take [of 1 4 p] nth_take [of 2 4 p] nth_take [of 3 4 p] by simp_all
  then show ?thesis by (simp only: t le_word_4)
qed

lemma or_read_8:
  assumes "8 \<le> length p"
  shows "(ucast (p ! 0 :: byte) :: 'a::len word) OR push_bit 8 (ucast (p ! 1)) OR push_bit 16 (ucast (p ! 2)) OR
     push_bit 24 (ucast (p ! 3)) OR push_bit 32 (ucast (p ! 4)) OR push_bit 40 (ucast (p ! 5)) OR
     push_bit 48 (ucast (p ! 6)) OR push_bit 56 (ucast (p ! 7)) = of_nat (le_val (take 8 p))"
proof -
  obtain a b c d e f g h where t: "take 8 p = [a, b, c, d, e, f, g, h]" using list_of_length_8 [of "take 8 p"] assms by auto
  then have "p ! 0 = a" "p ! 1 = b" "p ! 2 = c" "p ! 3 = d" "p ! 4 = e" "p ! 5 = f" "p ! 6 = g" "p ! 7 = h"
    using nth_take [of 0 8 p] nth_take [of 1 8 p] nth_take [of 2 8 p] nth_take [of 3 8 p]
      nth_take [of 4 8 p] nth_take [of 5 8 p] nth_take [of 6 8 p] nth_take [of 7 8 p] by simp_all
  then show ?thesis by (simp only: t le_word_8)
qed

lemmas or_read = or_read_2 or_read_4 or_read_8

lemma VtxCount_eq:
  "VtxCount n = (if n < 253 then [ucast n] else if n \<le> 0xFFFF then 253 # le_bytes 2 (unat n)
     else if n \<le> 0xFFFFFFFF then 254 # le_bytes 4 (unat n) else 255 # le_bytes 8 (unat n))"
  by (simp only: VtxCount_def le_bytes_2 le_bytes_4 le_bytes_8 ucast_word_byte unat_drop_bit)

lemma ucast_small_count:
  assumes "(n :: u64) < 253"
  shows "(ucast n :: byte) < 253" "ucast (ucast n :: byte) = n"
proof -
  have n: "unat n < 253" using assms by (simp add: word_less_nat_alt)
  then have u: "unat (ucast n :: byte) = unat n" by (intro unat_ucast_small) simp
  then show "(ucast n :: byte) < 253" using n by (simp add: word_less_nat_alt)
  have "unat (ucast (ucast n :: byte) :: u64) = unat n" using n u by (subst unat_ucast_small) simp_all
  then show "ucast (ucast n :: byte) = n" by (simp add: word_unat_eq_iff)
qed

lemma VtxCount_cases:
  fixes n :: u64
  obtains "n < 253" "VtxCount n = [ucast n]"
  | "unat n < 256 ^ 2" "VtxCount n = 253 # le_bytes 2 (unat n)"
  | "unat n < 256 ^ 4" "VtxCount n = 254 # le_bytes 4 (unat n)"
  | "\<not> n \<le> 0xFFFFFFFF" "unat n < 256 ^ 8" "VtxCount n = 255 # le_bytes 8 (unat n)"
proof -
  have "n \<le> 0xFFFF \<Longrightarrow> unat n < 256 ^ 2" "n \<le> 0xFFFFFFFF \<Longrightarrow> unat n < 256 ^ 4" "unat n < 256 ^ 8"
    using u64_range [of n] by (simp_all add: word_le_nat_alt)
  then show ?thesis using that unfolding VtxCount_eq by metis
qed

lemma ReadVtxCount_enc: "ReadVtxCount (VtxCount n @ rest) = Inr (n, rest)"
proof (cases n rule: VtxCount_cases)
  case 1
  then show ?thesis using ucast_small_count [of n] by (simp add: ReadVtxCount_def)
qed (simp_all add: ReadVtxCount_def or_read [unfolded One_nat_def] le_bytes_back)

lemma ReadTxCount_enc: "n \<le> 0xFFFFFFFF \<Longrightarrow> ReadTxCount (VtxCount n @ rest) = Inr (n, rest)"
proof (cases n rule: VtxCount_cases)
  case 1
  then show ?thesis using ucast_small_count [of n] by (simp add: ReadTxCount_def)
qed (simp_all add: ReadTxCount_def or_read [unfolded One_nat_def] le_bytes_back)

section \<open>Transactions\<close>

text \<open>A transaction as a decoder or a copy leaves it: inside the limits and without a cached hash.\<close>

definition fresh_tx :: "CTransaction \<Rightarrow> bool" where
  "fresh_tx tx \<longleftrightarrow> wf_tx tx \<and> hash_cached tx = zero256 \<and> \<not> hash_valid tx"

lemma fresh_tx_D: "fresh_tx tx \<Longrightarrow> wf_tx tx" "fresh_tx tx \<Longrightarrow> CTransaction_copy tx = tx"
  "fresh_tx tx \<Longrightarrow> hash_inv sha3 tx"
  by (simp_all add: fresh_tx_def CTransaction_copy_def hash_inv_def)

lemma decoded_fresh:
  "fresh_tx tx \<Longrightarrow> CTransaction_default\<lparr>nVersion := nVersion tx, vin := vin tx, vout := vout tx,
     nLockTime := nLockTime tx, hash_valid := False\<rparr> = tx"
  by (simp add: fresh_tx_def CTransaction_default_def)

lemma ReadVtxTransaction_enc: "fresh_tx tx \<Longrightarrow> ReadVtxTransaction (Serialize tx @ rest) = Inr (tx, rest)"
  by (simp add: ReadVtxTransaction_def Deserialize_Serialize fresh_tx_D decoded_fresh)

lemma ReadBlockTransaction_enc: "fresh_tx tx \<Longrightarrow> ReadBlockTransaction (Serialize tx @ rest) = Inr (tx, rest)"
proof -
  assume f: "fresh_tx tx"
  have "Serialize tx \<noteq> []" by (simp add: Serialize_eq SerializeUint32_def)
  then show ?thesis using f by (simp add: ReadBlockTransaction_def Deserialize_Serialize fresh_tx_D decoded_fresh)
qed

interpretation vtx: codec Serialize ReadVtxTransaction fresh_tx
  by unfold_locales (rule ReadVtxTransaction_enc)

interpretation btx: codec Serialize ReadBlockTransaction fresh_tx
  by unfold_locales (rule ReadBlockTransaction_enc)

lemma SerializeTransactionsToVtx_eq:
  "SerializeTransactionsToVtx (map Some txs) = VtxCount (of_nat (length txs)) @ concat (map Serialize txs)"
proof -
  have "foldl (\<lambda>data tx. case tx of None \<Rightarrow> data | Some tx \<Rightarrow> data @ Serialize tx) d (map Some xs) =
      d @ concat (map Serialize xs)" for d xs
    by (induction xs arbitrary: d) simp_all
  then show ?thesis by (simp add: SerializeTransactionsToVtx_def)
qed

lemma count_limits:
  assumes "length txs \<le> 100000"
  shows "unat (of_nat (length txs) :: u64) = length txs" "\<not> (of_nat (length txs) :: u64) > 100000"
    "(of_nat (length txs) :: u64) \<le> 0xFFFFFFFF" "(of_nat (length txs) :: u64) = 0 \<longleftrightarrow> txs = []"
proof -
  show u: "unat (of_nat (length txs) :: u64) = length txs" using assms by (intro unat_of_nat_len) simp
  show "\<not> (of_nat (length txs) :: u64) > 100000" "(of_nat (length txs) :: u64) \<le> 0xFFFFFFFF"
    using assms u by (simp_all add: word_less_nat_alt word_le_nat_alt)
  show "(of_nat (length txs) :: u64) = 0 \<longleftrightarrow> txs = []" using u by (simp add: word_unat_eq_iff)
qed

lemma vtx_decode:
  assumes "length txs \<le> 100000" "\<forall>tx \<in> set txs. fresh_tx tx"
  shows "DeserializeTransactionsFromVtx (SerializeTransactionsToVtx (map Some txs) @ rest) = Inr txs"
    "txs \<noteq> [] \<Longrightarrow> DeserializeBlockTransactions (SerializeTransactionsToVtx (map Some txs)) = Inr txs"
proof -
  note c = count_limits [OF assms(1)]
  show "DeserializeTransactionsFromVtx (SerializeTransactionsToVtx (map Some txs) @ rest) = Inr txs"
    using c(2) vtx.decode_n_concat [OF assms(2), of rest]
    unfolding DeserializeTransactionsFromVtx_def SerializeTransactionsToVtx_eq append_assoc ReadVtxCount_enc
    by (simp only: bindE.simps case_prod_conv c(1) if_False)
  show "DeserializeBlockTransactions (SerializeTransactionsToVtx (map Some txs)) = Inr txs" if "txs \<noteq> []"
    using c(2,4) that btx.decode_n_concat [OF assms(2), of "[]"]
    unfolding DeserializeBlockTransactions_def SerializeTransactionsToVtx_eq append_assoc ReadTxCount_enc [OF c(3)]
    by (simp only: bindE.simps case_prod_conv c(1) if_False append_Nil2) simp
qed

lemma ReadVtxTransaction_fresh:
  assumes "ReadVtxTransaction p = Inr (tx, p')"
  shows "fresh_tx tx"
proof -
  from assms obtain n where d: "Deserialize CTransaction_default p True = Inr (tx, n)"
    by (auto simp: ReadVtxTransaction_def split: sum.splits prod.splits)
  then have "hash_cached tx = zero256" unfolding Deserialize_def
    by (auto simp: bindE_Inr_iff CTransaction_default_def CTransaction_SetNull_def Let_def split: if_splits prod.splits)
  then show ?thesis using Deserialize_sound [OF d] by (simp add: fresh_tx_def)
qed

lemma ReadVtxTransaction_suffix:
  assumes "ReadVtxTransaction p = Inr (tx, p')"
  shows "\<exists>u. p = u @ p' \<and> 10 \<le> length u"
proof -
  from assms obtain n where d: "Deserialize CTransaction_default p True = Inr (tx, n)" "p' = drop n p"
    by (auto simp: ReadVtxTransaction_def split: sum.splits prod.splits)
  then show ?thesis using Deserialize_sound [OF d(1)] by (intro exI [of _ "take n p"]) auto
qed

interpretation vtxs: sound_decoder ReadVtxTransaction fresh_tx 10
  by unfold_locales (erule ReadVtxTransaction_fresh, erule ReadVtxTransaction_suffix)

lemma DeserializeTransactionsFromVtx_fresh:
  assumes "DeserializeTransactionsFromVtx data = Inr txs"
  shows "length txs \<le> 100000 \<and> (\<forall>tx \<in> set txs. fresh_tx tx)"
proof -
  from assms obtain n p q where n: "\<not> n > (100000 :: u64)" and d: "decode_n (unat n) ReadVtxTransaction p = Inr (txs, q)"
    by (auto simp: DeserializeTransactionsFromVtx_def bindE_Inr_iff split: if_splits prod.splits)
  then show ?thesis using n vtxs.decode_n_post [OF d] by (simp add: word_less_nat_alt)
qed

lemma BuildMerkleRootFromTxs_eq: "BuildMerkleRootFromTxs sha3 (map Some txs) = BuildMerkleRoot sha3 txs"
  by (simp add: BuildMerkleRootFromTxs_def BuildMerkleRoot_def comp_def)

section \<open>Wire form of compact blocks\<close>

lemma ucast_and_FF: "(ucast (x AND 0xFF :: u64) :: byte) = ucast x"
proof -
  have m: "(0xFF :: u64) = mask 8" by (simp add: mask_eq_exp_minus_1)
  show ?thesis unfolding m by (rule bit_word_eqI) (auto simp: bit_simps)
qed

lemma ShortIdBytes_eq: "ShortIdBytes s = le_bytes 6 (unat s)"
proof -
  have n: "le_bytes n v = map (\<lambda>i. of_nat (v div 256 ^ i)) [0..<n]" for n v
    by (induction n arbitrary: v) (simp_all add: upt_conv_Cons map_Suc_upt [symmetric] div_mult2_eq del: upt_Suc)
  have "ucast (drop_bit (i * 8) s AND 0xFF) = (of_nat (unat s div 256 ^ i) :: byte)" for i
  proof -
    have "(2 :: nat) ^ (i * 8) = 256 ^ i" by (subst mult.commute) (simp add: power_mult)
    then have "unat (drop_bit (i * 8) s) = unat s div 256 ^ i" by (simp only: unat_drop_bit)
    then show ?thesis unfolding ucast_and_FF unfolding ucast_word_byte by simp
  qed
  then show ?thesis by (simp add: ShortIdBytes_def n)
qed

lemma ReadShortId_enc:
  assumes "unat s < 2 ^ 48"
  shows "ReadShortId (ShortIdBytes s @ rest) = Inr (s, rest)"
proof -
  have "foldl (\<lambda>w j. w OR push_bit (j * 8) (ucast ((le_bytes 6 (unat s) @ rest) ! (0 + j)))) 0 [0..<6] =
      (of_nat (le_val (take 6 (drop 0 (le_bytes 6 (unat s) @ rest)))) :: u64)"
    by (rule or_bytes_eq) simp_all
  then show ?thesis using assms le_bytes_back [of s 6] by (simp add: ReadShortId_def ShortIdBytes_eq)
qed

interpretation sid: codec ShortIdBytes ReadShortId "\<lambda>s. unat s < 2 ^ 48"
  by unfold_locales (rule ReadShortId_enc)

lemma ReadPrefilled_enc:
  "\<forall>p \<in> set ps. fresh_tx (pt_tx p) \<Longrightarrow> ReadPrefilled (length ps) last_index (SerializePrefilled last_index ps @ rest) = Inr ps"
proof (induction ps arbitrary: last_index)
  case (Cons p ps)
  have "of_nat (le_val (le_bytes 2 (unat (pt_index p - last_index)))) = pt_index p - last_index"
    using u16_range [of "pt_index p - last_index"] by (intro le_bytes_back) simp
  then show ?case using Cons by (simp add: Let_def ReadVtxTransaction_enc)
qed simp

text \<open>The objects that survive the wire: fields inside their ranges, no cached hashes, VDF fields only from version 4 on.\<close>

definition wf_compact :: "(bytes \<Rightarrow> uint256) \<Rightarrow> CBlockHeaderAndShortTxIDs \<Rightarrow> bool" where
  "wf_compact sha3 c \<longleftrightarrow>
     wf_header (cb_header c) \<and> \<not> fHashCached (cb_header c) \<and> cachedHash (cb_header c) = zero256 \<and>
     (sint (hdr_nVersion (cb_header c)) \<ge> 4 \<or> vdfOutput (cb_header c) = zero256 \<and> vdfProofHash (cb_header c) = zero256) \<and>
     length (shorttxids c) \<le> 100000 \<and> (\<forall>s \<in> set (shorttxids c). unat s < 2 ^ 48) \<and>
     length (prefilledtxn c) < 2 ^ 16 \<and> (\<forall>p \<in> set (prefilledtxn c). fresh_tx (pt_tx p)) \<and>
     FillShortTxIDSelector sha3 c = c"

lemma FillShortTxIDSelector_cong:
  "cb_header c = cb_header d \<Longrightarrow> cb_nonce c = cb_nonce d \<Longrightarrow>
     shorttxidk0 (FillShortTxIDSelector sha3 c) = shorttxidk0 (FillShortTxIDSelector sha3 d) \<and>
     shorttxidk1 (FillShortTxIDSelector sha3 c) = shorttxidk1 (FillShortTxIDSelector sha3 d)"
  by (simp add: FillShortTxIDSelector_def SelectorData_def Let_def)

lemma FillShortTxIDSelector_sel [simp]:
  "cb_header (FillShortTxIDSelector sha3 c) = cb_header c" "cb_nonce (FillShortTxIDSelector sha3 c) = cb_nonce c"
  "shorttxids (FillShortTxIDSelector sha3 c) = shorttxids c" "prefilledtxn (FillShortTxIDSelector sha3 c) = prefilledtxn c"
  by (simp_all add: FillShortTxIDSelector_def Let_def)

lemma ReadHeaderFields_enc:
  assumes "wf_header h" "\<not> fHashCached h" "cachedHash h = zero256"
  shows "ReadHeaderFields ((le_bytes 4 (unat (hdr_nVersion h)) @ hashPrevBlock h @ hashMerkleRoot h @
      le_bytes 4 (unat (hdr_nTime h)) @ le_bytes 4 (unat (hdr_nBits h)) @ le_bytes 4 (unat (hdr_nNonce h))) @ rest) =
    h\<lparr>vdfOutput := zero256, vdfProofHash := zero256\<rparr>"
proof -
  have b: "of_nat (le_val (le_bytes 4 (unat v))) = v" for v :: u32
    using u32_range [of v] by (intro le_bytes_back) simp
  show ?thesis using assms
    by (simp add: ReadHeaderFields_def wf_header_def wf256_def b CBlockHeader_SetNull_def)
qed

lemma CompactBlock_roundtrip:
  assumes "wf_compact sha3 c"
  shows "CompactBlock_Deserialize sha3 (CompactBlock_Serialize c @ rest) = Inr c"
proof -
  define h where "h = cb_header c"
  define fixed where "fixed = le_bytes 4 (unat (hdr_nVersion h)) @ hashPrevBlock h @ hashMerkleRoot h @
      le_bytes 4 (unat (hdr_nTime h)) @ le_bytes 4 (unat (hdr_nBits h)) @ le_bytes 4 (unat (hdr_nNonce h))"
  define vdf where "vdf = (if sint (hdr_nVersion h) \<ge> 4 then vdfOutput h @ vdfProofHash h else [])"
  define non cnt pcnt where "non = le_bytes 8 (unat (cb_nonce c))"
    and "cnt = le_bytes 4 (unat (of_nat (length (shorttxids c)) :: u32))"
    and "pcnt = le_bytes 2 (unat (of_nat (length (prefilledtxn c)) :: u16))"
  define ids where "ids = concat (map ShortIdBytes (shorttxids c))"
  define more where "more = SerializePrefilled 0 (prefilledtxn c) @ rest"
  note a = assms [unfolded wf_compact_def, folded h_def]
  have w: "length (vdfOutput h) = 32" "length (vdfProofHash h) = 32" "length fixed = 80"
    using a by (simp_all add: wf_header_def wf256_def fixed_def)
  have hd: "ReadHeaderFields (fixed @ r) = h\<lparr>vdfOutput := zero256, vdfProofHash := zero256\<rparr>" for r
    unfolding fixed_def using a by (intro ReadHeaderFields_enc) auto
  have data: "CompactBlock_Serialize c @ rest = fixed @ vdf @ non @ cnt @ ids @ pcnt @ more"
    by (simp add: CompactBlock_Serialize_def h_def [symmetric] fixed_def vdf_def non_def cnt_def ids_def pcnt_def more_def Let_def)
  have lens: "length non = 8" "length cnt = 4" "length pcnt = 2" by (simp_all add: non_def cnt_def pcnt_def)
  have n: "of_nat (le_val non) = cb_nonce c"
    unfolding non_def using u64_range [of "cb_nonce c"] by (intro le_bytes_back) simp
  let ?n = "of_nat (length (shorttxids c)) :: u32"
  have c: "of_nat (le_val cnt) = ?n" "unat ?n = length (shorttxids c)" "\<not> ?n > 100000" "unat (?n * 6) = 6 * length (shorttxids c)"
  proof -
    show u: "unat ?n = length (shorttxids c)" using a by (intro unat_of_nat_u32) simp
    show "of_nat (le_val cnt) = ?n" unfolding cnt_def using u32_range [of ?n] by (intro le_bytes_back) simp
    show "\<not> ?n > 100000" using a u by (simp add: word_less_nat_alt)
    show "unat (?n * 6) = 6 * length (shorttxids c)" using a u by (simp add: unat_word_ariths)
  qed
  have p: "unat (of_nat (le_val pcnt) :: u16) = length (prefilledtxn c)"
  proof -
    have "of_nat (le_val pcnt) = (of_nat (length (prefilledtxn c)) :: u16)"
      unfolding pcnt_def using u16_range by (intro le_bytes_back) (simp add: less_le_trans)
    then show ?thesis using a by (simp add: unsigned_of_nat take_bit_nat_eq_self)
  qed
  have li: "length ids = 6 * length (shorttxids c)"
    unfolding ids_def by (subst length_concat_map [of _ _ "\<lambda>_. 6"]) (simp_all add: ShortIdBytes_eq sum_list_triv)
  have di: "decode_n (length (shorttxids c)) ReadShortId (ids @ r) = Inr (shorttxids c, r)" for r
    unfolding ids_def using a by (intro sid.decode_n_concat) blast
  have dp: "ReadPrefilled (length (prefilledtxn c)) 0 more = Inr (prefilledtxn c)"
    unfolding more_def using a by (intro ReadPrefilled_enc) blast
  let ?c = "FillShortTxIDSelector sha3 (CompactBlock_default\<lparr>cb_header := h, cb_nonce := cb_nonce c\<rparr>)"
  have fin: "?c\<lparr>shorttxids := shorttxids c, prefilledtxn := prefilledtxn c\<rparr> = c"
  proof (rule CBlockHeaderAndShortTxIDs.equality)
    have "FillShortTxIDSelector sha3 c = c" using a by blast
    then show "shorttxidk0 (?c\<lparr>shorttxids := shorttxids c, prefilledtxn := prefilledtxn c\<rparr>) = shorttxidk0 c"
      "shorttxidk1 (?c\<lparr>shorttxids := shorttxids c, prefilledtxn := prefilledtxn c\<rparr>) = shorttxidk1 c"
      using FillShortTxIDSelector_cong [of "CompactBlock_default\<lparr>cb_header := h, cb_nonce := cb_nonce c\<rparr>" c sha3]
      by (simp_all add: h_def)
  qed (simp_all add: h_def)
  have rest: "CompactBlock_Deserialize sha3 (fixed @ vdf @ non @ cnt @ ids @ pcnt @ more) = Inr c"
  proof (cases "sint (hdr_nVersion h) \<ge> 4")
    case True
    then have "vdf = vdfOutput h @ vdfProofHash h" by (simp add: vdf_def)
    then show ?thesis using True unfolding CompactBlock_Deserialize_def Let_def hd
      by (simp add: w lens n c li di p dp fin del: of_nat_mult)
  next
    case False
    then have "vdf = []" "h\<lparr>vdfOutput := zero256, vdfProofHash := zero256\<rparr> = h" using a by (simp_all add: vdf_def)
    then show ?thesis using False unfolding CompactBlock_Deserialize_def Let_def hd
      by (simp add: w lens n c li di p dp fin)
  qed
  then show ?thesis by (simp only: data)
qed

section \<open>Reconstruction\<close>

text \<open>The short identifier that a compact block gives a transaction; it depends on the keys only.\<close>

definition shortid :: "(bytes \<Rightarrow> uint256) \<Rightarrow> CBlockHeaderAndShortTxIDs \<Rightarrow> CTransaction \<Rightarrow> u64" where
  "shortid sha3 c tx = fst (GetShortID sha3 c (TxId sha3 tx))"

text \<open>A compact block made by the constructor or read from the wire has its keys filled in.\<close>

definition keys_filled :: "(bytes \<Rightarrow> uint256) \<Rightarrow> CBlockHeaderAndShortTxIDs \<Rightarrow> bool" where
  "keys_filled sha3 c \<longleftrightarrow> FillShortTxIDSelector sha3 c = c"

lemma GetShortID_keys: "keys_filled sha3 c \<Longrightarrow> snd (GetShortID sha3 c txid) = c"
  by (simp add: GetShortID_def keys_filled_def Let_def)

lemma FillShortTxIDSelector_upd:
  "FillShortTxIDSelector sha3 (c\<lparr>shorttxids := x\<rparr>) = (FillShortTxIDSelector sha3 c)\<lparr>shorttxids := x\<rparr>"
  "FillShortTxIDSelector sha3 (c\<lparr>prefilledtxn := y\<rparr>) = (FillShortTxIDSelector sha3 c)\<lparr>prefilledtxn := y\<rparr>"
  "FillShortTxIDSelector sha3 (FillShortTxIDSelector sha3 c) = FillShortTxIDSelector sha3 c"
  by (simp_all add: FillShortTxIDSelector_def SelectorData_def Let_def)

lemma keys_filled_upd [simp]:
  "keys_filled sha3 c \<Longrightarrow> keys_filled sha3 (c\<lparr>shorttxids := x\<rparr>)"
  "keys_filled sha3 c \<Longrightarrow> keys_filled sha3 (c\<lparr>prefilledtxn := y\<rparr>)"
  "keys_filled sha3 (FillShortTxIDSelector sha3 c)"
  by (simp_all add: keys_filled_def FillShortTxIDSelector_upd)

lemma shortid_upd [simp]:
  "keys_filled sha3 c \<Longrightarrow> shortid sha3 (c\<lparr>shorttxids := x\<rparr>) tx = shortid sha3 c tx"
  "keys_filled sha3 c \<Longrightarrow> shortid sha3 (c\<lparr>prefilledtxn := y\<rparr>) tx = shortid sha3 c tx"
  by (simp_all add: shortid_def GetShortID_def Let_def keys_filled_def FillShortTxIDSelector_upd)

lemma GetShortID_pair: "keys_filled sha3 c \<Longrightarrow> GetShortID sha3 c (TxId sha3 tx) = (shortid sha3 c tx, c)"
  by (simp add: shortid_def prod_eq_iff GetShortID_keys)

lemma PushShortIDs_eq:
  "keys_filled sha3 c \<Longrightarrow> PushShortIDs sha3 c txs = c\<lparr>shorttxids := shorttxids c @ map (shortid sha3 c) txs\<rparr>"
  by (induction txs arbitrary: c) (simp_all add: GetShortID_pair)

lemma FillFromMempool_keys:
  "keys_filled sha3 c \<Longrightarrow> FillFromMempool sha3 c (tx # txs) p =
     FillFromMempool sha3 c txs
       (case shortid_to_index p (shortid sha3 c tx) of
          Some i \<Rightarrow> (if txn_available p ! unat i = None
                     then p\<lparr>txn_available := (txn_available p)[unat i := Some (CTransaction_copy tx)]\<rparr> else p)
        | None \<Rightarrow> p)"
  by (simp add: GetShortID_pair)

text \<open>What the reconstruction has so far are transactions of the block in their places.\<close>

definition partial_of :: "CTransaction list \<Rightarrow> CTransaction option list \<Rightarrow> bool" where
  "partial_of txs avail \<longleftrightarrow> length avail = length txs \<and> (\<forall>i < length txs. avail ! i = None \<or> avail ! i = Some (txs ! i))"

lemma partial_of_update: "partial_of txs avail \<Longrightarrow> (i < length txs \<Longrightarrow> t = txs ! i) \<Longrightarrow> partial_of txs (avail[i := Some t])"
  by (cases "i < length txs") (auto simp: partial_of_def nth_list_update)

lemma partial_of_full:
  assumes "partial_of txs avail" "None \<notin> set avail"
  shows "avail = map Some txs"
proof (rule nth_equalityI)
  fix i assume "i < length avail"
  then have "avail ! i \<in> set avail" "i < length txs" using assms(1) by (simp_all add: partial_of_def)
  then have "avail ! i \<noteq> None" "i < length txs" using assms(2) by metis+
  then show "avail ! i = map Some txs ! i" using assms(1) by (auto simp: partial_of_def)
qed (use assms(1) in \<open>simp add: partial_of_def\<close>)

text \<open>The map from short identifiers to places points to transactions with that identifier.\<close>

lemma MapShortIds_eq:
  assumes "prefilled_indices p = {0}" "length ids = n - (if i = 0 then 1 else 0)" "i + n \<le> 2 ^ 16"
  shows "\<exists>m. MapShortIds i n ids p = (True, p\<lparr>shortid_to_index := m\<rparr>) \<and>
    (\<forall>s j. m s = Some j \<longrightarrow> shortid_to_index p s = Some j \<or>
       (\<exists>k < length ids. ids ! k = s \<and> unat j = i + k + (if i = 0 then 1 else 0)))"
  using assms
proof (induction n arbitrary: i ids p)
  case 0
  then show ?case by (intro exI [of _ "shortid_to_index p"]) simp
next
  case (Suc n)
  have u: "unat (of_nat i :: u16) = i" using Suc.prems(3) by (simp add: unsigned_of_nat take_bit_nat_eq_self)
  show ?case
  proof (cases "i = 0")
    case True
    obtain m where m: "MapShortIds 1 n ids p = (True, p\<lparr>shortid_to_index := m\<rparr>)"
        "\<forall>s j. m s = Some j \<longrightarrow> shortid_to_index p s = Some j \<or> (\<exists>k < length ids. ids ! k = s \<and> unat j = 1 + k)"
      using Suc.IH [of p ids 1] Suc.prems True by auto
    then show ?thesis using True Suc.prems(1) by (intro exI [of _ m]) simp
  next
    case False
    then have "(of_nat i :: u16) \<noteq> 0" using u by auto
    moreover from False Suc.prems(2) obtain s ids' where ids: "ids = s # ids'" by (cases ids) auto
    let ?p = "p\<lparr>shortid_to_index := (shortid_to_index p)(s \<mapsto> of_nat i)\<rparr>"
    obtain m where m: "MapShortIds (Suc i) n ids' ?p = (True, ?p\<lparr>shortid_to_index := m\<rparr>)"
        "\<forall>s' j. m s' = Some j \<longrightarrow> shortid_to_index ?p s' = Some j \<or> (\<exists>k < length ids'. ids' ! k = s' \<and> unat j = Suc i + k)"
      using Suc.IH [of ?p ids' "Suc i"] Suc.prems False ids by auto
    have "shortid_to_index p s' = Some j \<or> (\<exists>k < length ids. ids ! k = s' \<and> unat j = i + k)" if "m s' = Some j" for s' j
    proof -
      from m(2) that consider "shortid_to_index ?p s' = Some j" | k where "k < length ids'" "ids' ! k = s'" "unat j = Suc i + k"
        by blast
      then show ?thesis
      proof cases
        case 1
        then show ?thesis using u ids by (auto split: if_splits)
      next
        case 2
        then show ?thesis using ids by (intro disjI2 exI [of _ "Suc k"]) simp
      qed
    qed
    ultimately show ?thesis using False Suc.prems(1) ids m(1) by (intro exI [of _ m]) auto
  qed
qed

lemma FillFromMempool_partial:
  assumes "keys_filled sha3 c" "partial_of txs (txn_available p)"
    "\<forall>s j. shortid_to_index p s = Some j \<longrightarrow> unat j < length txs \<and> shortid sha3 c (txs ! unat j) = s \<and> 0 < unat j"
    "\<forall>tx \<in> set pool. \<forall>t \<in> set txs. shortid sha3 c tx = shortid sha3 c t \<longrightarrow> CTransaction_copy tx = t"
  shows "\<exists>avail. FillFromMempool sha3 c pool p = p\<lparr>txn_available := avail\<rparr> \<and> partial_of txs avail"
  using assms(2-)
proof (induction pool arbitrary: p)
  case Nil
  then show ?case by (intro exI [of _ "txn_available p"]) simp
next
  case (Cons tx pool)
  show ?case
  proof (cases "\<exists>j. shortid_to_index p (shortid sha3 c tx) = Some j \<and> txn_available p ! unat j = None")
    case True
    then obtain j where j: "shortid_to_index p (shortid sha3 c tx) = Some j" "txn_available p ! unat j = None" by blast
    let ?p = "p\<lparr>txn_available := (txn_available p)[unat j := Some (CTransaction_copy tx)]\<rparr>"
    have "CTransaction_copy tx = txs ! unat j" using Cons.prems j(1) by fastforce
    then have "partial_of txs (txn_available ?p)" using Cons.prems(1) by (simp add: partial_of_update)
    then obtain avail where "FillFromMempool sha3 c pool ?p = ?p\<lparr>txn_available := avail\<rparr>" "partial_of txs avail"
      using Cons.IH [of ?p] Cons.prems(2,3) by auto
    then show ?thesis using j unfolding FillFromMempool_keys [OF assms(1)] by auto
  next
    case False
    then have "FillFromMempool sha3 c (tx # pool) p = FillFromMempool sha3 c pool p"
      unfolding FillFromMempool_keys [OF assms(1)] by (auto split: option.splits)
    then show ?thesis using Cons by simp
  qed
qed

lemma PlaceMissing_partial:
  assumes "partial_of txs avail" "\<forall>(i, t) \<in> set xs. unat i < length txs \<and> CTransaction_copy t = txs ! unat i"
  shows "partial_of txs (PlaceMissing xs avail) \<and> (\<forall>j < length txs. avail ! j \<noteq> None \<or> j \<in> unat ` fst ` set xs \<longrightarrow> PlaceMissing xs avail ! j \<noteq> None)"
  using assms
proof (induction xs arbitrary: avail)
  case (Cons x xs)
  obtain i t where x: "x = (i, t)" by (cases x)
  have "partial_of txs (avail[unat i := Some (CTransaction_copy t)])"
    using Cons.prems x by (intro partial_of_update) auto
  from Cons.IH [OF this] Cons.prems x show ?case
    by (auto simp: nth_list_update partial_of_def)
qed simp

lemma CompactBlock_of_block_eq:
  assumes "DeserializeTransactionsFromVtx (vtx block) = Inr (coinbase # txs)" "c = CompactBlock_of_block sha3 nonce block"
  shows "keys_filled sha3 c" "shorttxids c = map (shortid sha3 c) txs"
    "prefilledtxn c = [\<lparr>pt_index = 0, pt_tx = CTransaction_copy coinbase\<rparr>]"
    "SerializeHeader (cb_header c) = SerializeHeader block" "hashMerkleRoot (cb_header c) = hashMerkleRoot block"
    "\<not> fHashCached (cb_header c)" "cachedHash (cb_header c) = zero256" "wf_header block \<Longrightarrow> wf_header (cb_header c)"
    "sint (hdr_nVersion (cb_header c)) \<ge> 4 \<or> vdfOutput (cb_header c) = zero256 \<and> vdfProofHash (cb_header c) = zero256"
proof -
  define h where "h = (let header = CBlockHeader_SetNull\<lparr>hdr_nVersion := hdr_nVersion block, hashPrevBlock := hashPrevBlock block,
            hashMerkleRoot := hashMerkleRoot block, hdr_nTime := hdr_nTime block, hdr_nBits := hdr_nBits block,
            hdr_nNonce := hdr_nNonce block\<rparr>
     in if sint (hdr_nVersion block) \<ge> 4 then header\<lparr>vdfOutput := vdfOutput block, vdfProofHash := vdfProofHash block\<rparr> else header)"
  define d where "d = FillShortTxIDSelector sha3 (CompactBlock_default\<lparr>cb_header := h, cb_nonce := nonce\<rparr>)"
  have k: "keys_filled sha3 (d\<lparr>prefilledtxn := [\<lparr>pt_index = 0, pt_tx = CTransaction_copy coinbase\<rparr>]\<rparr>)"
    by (simp add: d_def)
  have "shorttxids d = []" "cb_header d = h" by (simp_all add: d_def CompactBlock_default_def)
  moreover have c: "c = d\<lparr>prefilledtxn := [\<lparr>pt_index = 0, pt_tx = CTransaction_copy coinbase\<rparr>],
      shorttxids := shorttxids d @ map (shortid sha3 d) txs\<rparr>"
    unfolding assms(2) CompactBlock_of_block_def assms(1) Let_def
    using PushShortIDs_eq [OF k, of txs] k by (simp add: d_def h_def Let_def)
  ultimately show "keys_filled sha3 c" "shorttxids c = map (shortid sha3 c) txs"
    "prefilledtxn c = [\<lparr>pt_index = 0, pt_tx = CTransaction_copy coinbase\<rparr>]"
    by (simp_all add: d_def)
  have "cb_header c = h" using c \<open>cb_header d = h\<close> by simp
  then show "SerializeHeader (cb_header c) = SerializeHeader block" "hashMerkleRoot (cb_header c) = hashMerkleRoot block"
    "\<not> fHashCached (cb_header c)" "cachedHash (cb_header c) = zero256" "wf_header block \<Longrightarrow> wf_header (cb_header c)"
    "sint (hdr_nVersion (cb_header c)) \<ge> 4 \<or> vdfOutput (cb_header c) = zero256 \<and> vdfProofHash (cb_header c) = zero256"
    by (simp_all add: h_def CBlockHeader_SetNull_def SerializeHeader_def IsVDFBlock_def VDF_VERSION_def wf_header_def Let_def)
qed

lemma unat_and_mask48: "unat (x AND 0xffffffffffff :: u64) < 2 ^ 48"
proof -
  have "(0xffffffffffff :: u64) = mask 48" by (simp add: mask_eq_exp_minus_1)
  then have "x AND 0xffffffffffff = take_bit 48 x" by (simp only: take_bit_eq_mask)
  then show ?thesis by (simp only: unsigned_take_bit_eq take_bit_nat_less_exp)
qed

lemma wf_compact_of_block:
  assumes "DeserializeTransactionsFromVtx (vtx block) = Inr (coinbase # txs)" "wf_header block"
  shows "wf_compact sha3 (CompactBlock_of_block sha3 nonce block)"
proof -
  note e = CompactBlock_of_block_eq [OF assms(1) refl, of sha3 nonce]
  have "length (coinbase # txs) \<le> 100000" "fresh_tx coinbase"
    using DeserializeTransactionsFromVtx_fresh [OF assms(1)] by simp_all
  moreover have "unat (shortid sha3 c t) < 2 ^ 48" for c t
    using unat_and_mask48 by (simp add: shortid_def GetShortID_def Let_def)
  ultimately show ?thesis using e assms(2) unfolding wf_compact_def keys_filled_def by (auto simp: fresh_tx_D)
qed

lemma InitData_partial:
  assumes "DeserializeTransactionsFromVtx (vtx block) = Inr txs" "txs \<noteq> []" "length txs \<le> 2 ^ 16"
    "c = CompactBlock_of_block sha3 nonce block"
    "\<forall>tx \<in> set pool. \<forall>t \<in> set txs. shortid sha3 c tx = shortid sha3 c t \<longrightarrow> CTransaction_copy tx = t"
  shows "\<exists>p. InitData sha3 c pool PartiallyDownloadedBlock_default = (if None \<in> set (txn_available p) then EXTRA_TXN else OK, p) \<and>
    is_initialized p \<and> pd_header p = cb_header c \<and> partial_of txs (txn_available p)"
proof -
  obtain cb rest where t: "txs = cb # rest" using assms(2) by (cases txs) auto
  note e = CompactBlock_of_block_eq [OF assms(1) [unfolded t] assms(4)]
  have f: "fresh_tx cb" "length txs \<le> 100000" using DeserializeTransactionsFromVtx_fresh [OF assms(1)] t by simp_all
  let ?n = "length txs"
  define p0 where "p0 = PartiallyDownloadedBlock_default\<lparr>pd_header := cb_header c, txn_available := replicate ?n None\<rparr>"
  define p1 where "p1 = p0\<lparr>txn_available := (replicate ?n None)[0 := Some cb], prefilled_indices := {0}\<rparr>"
  have valid: "CompactBlock_IsValid c" using f(2) t by (simp add: CompactBlock_IsValid_def e)
  have place: "PlacePrefilled ?n (prefilledtxn c) p0 = (True, p1)"
    using t f(1) by (simp add: e(3) p0_def p1_def PartiallyDownloadedBlock_default_def fresh_tx_D)
  obtain m where m: "MapShortIds 0 ?n (shorttxids c) p1 = (True, p1\<lparr>shortid_to_index := m\<rparr>)"
      "\<forall>s j. m s = Some j \<longrightarrow> (\<exists>k < length rest. shorttxids c ! k = s \<and> unat j = Suc k)"
    using MapShortIds_eq [of p1 "shorttxids c" ?n 0] assms(3) t
    by (auto simp: p1_def p0_def PartiallyDownloadedBlock_default_def e(2))
  let ?p = "p1\<lparr>shortid_to_index := m\<rparr>"
  have "partial_of txs (txn_available ?p)"
    using t by (auto simp: partial_of_def p1_def nth_Cons split: nat.splits)
  moreover have "\<forall>s j. shortid_to_index ?p s = Some j \<longrightarrow> unat j < ?n \<and> shortid sha3 c (txs ! unat j) = s \<and> 0 < unat j"
  proof (intro allI impI)
    fix s j assume "shortid_to_index ?p s = Some j"
    then obtain k where "k < length rest" "shorttxids c ! k = s" "unat j = Suc k" using m(2) by auto
    then show "unat j < ?n \<and> shortid sha3 c (txs ! unat j) = s \<and> 0 < unat j" using t e(2) by auto
  qed
  ultimately obtain avail where a: "FillFromMempool sha3 c pool ?p = ?p\<lparr>txn_available := avail\<rparr>" "partial_of txs avail"
    using FillFromMempool_partial [OF e(1)] assms(5) by blast
  define q where "q = ?p\<lparr>txn_available := avail, is_initialized := True\<rparr>"
  have "0 < GetMissingTxCount q \<longleftrightarrow> None \<in> set (txn_available q)"
    by (auto simp: GetMissingTxCount_def filter_empty_conv)
  moreover have "length (shorttxids c) + length (prefilledtxn c) = ?n" using t by (simp add: e)
  then have "InitData sha3 c pool PartiallyDownloadedBlock_default = (if 0 < GetMissingTxCount q then EXTRA_TXN else OK, q)"
    using valid place m(1) a(1)
    by (simp add: InitData_def PartiallyDownloadedBlock_default_def p0_def q_def Let_def)
  ultimately show ?thesis using a(2) by (intro exI [of _ q]) (simp add: q_def p1_def p0_def)
qed

lemma FillMissingTxs_full:
  assumes "partial_of txs (txn_available p)" "length txs \<le> 2 ^ 16" "\<forall>tx \<in> set txs. fresh_tx tx"
  shows "FillMissingTxs p (map (\<lambda>i. txs ! unat i) (GetMissingTxIndices p)) = (OK, p\<lparr>txn_available := map Some txs\<rparr>)"
proof -
  let ?m = "filter (\<lambda>i. txn_available p ! i = None) [0..<length (txn_available p)]"
  have u: "unat (of_nat i :: u16) = i" if "i < length txs" for i
    using that assms(2) by (simp add: unsigned_of_nat take_bit_nat_eq_self)
  have l: "length (txn_available p) = length txs" using assms(1) by (simp add: partial_of_def)
  let ?xs = "zip (GetMissingTxIndices p) (map (\<lambda>i. txs ! unat i) (GetMissingTxIndices p))"
  have z: "?xs = map (\<lambda>i. (of_nat i, txs ! i)) ?m"
  proof -
    have "zip (map f xs) (map (\<lambda>i. txs ! unat i) (map f xs)) = map (\<lambda>i. (f i, txs ! unat (f i))) xs" for f :: "nat \<Rightarrow> u16" and xs
      by (induction xs) simp_all
    then show ?thesis using u l by (simp add: GetMissingTxIndices_def)
  qed
  have "\<forall>(i, t) \<in> set ?xs. unat i < length txs \<and> CTransaction_copy t = txs ! unat i"
    using u l assms(3) unfolding z by (auto simp: fresh_tx_D)
  note pm = PlaceMissing_partial [OF assms(1) this]
  have "None \<notin> set (PlaceMissing ?xs (txn_available p))"
  proof
    assume "None \<in> set (PlaceMissing ?xs (txn_available p))"
    then obtain j where j: "j < length txs" "PlaceMissing ?xs (txn_available p) ! j = None"
      using pm by (auto simp: in_set_conv_nth partial_of_def)
    then have "txn_available p ! j = None" "j \<notin> unat ` fst ` set ?xs" using pm by blast+
    then show False using j(1) u [OF j(1)] l unfolding z by (force simp: image_iff)
  qed
  then have "PlaceMissing ?xs (txn_available p) = map Some txs" using pm by (intro partial_of_full) simp_all
  then show ?thesis by (simp add: FillMissingTxs_def Let_def)
qed

lemma GetBlock_full:
  assumes "is_initialized p" "txn_available p = map Some txs" "txs \<noteq> []" "length txs \<le> 100000" "\<forall>tx \<in> set txs. fresh_tx tx"
  shows "GetBlock sha3 p =
    (if BuildMerkleRoot sha3 txs \<noteq> hashMerkleRoot (pd_header p) then None
     else Some (CBlock_SetNull\<lparr>hdr_nVersion := hdr_nVersion (pd_header p), hashPrevBlock := hashPrevBlock (pd_header p),
       hashMerkleRoot := hashMerkleRoot (pd_header p), hdr_nTime := hdr_nTime (pd_header p), hdr_nBits := hdr_nBits (pd_header p),
       hdr_nNonce := hdr_nNonce (pd_header p), vdfOutput := vdfOutput (pd_header p), vdfProofHash := vdfProofHash (pd_header p),
       vtx := SerializeTransactionsToVtx (map Some txs)\<rparr>))"
  using assms by (simp add: GetBlock_def GetMissingTxCount_def BuildMerkleRootFromTxs_eq comp_def Let_def)

section \<open>Request messages\<close>

lemma two_bytes: "[ucast (v AND 0xFF), ucast (drop_bit 8 v AND 0xFF)] = le_bytes 2 (unat (v :: u16))"
proof -
  have m: "(0xFF :: u16) = mask 8" by (simp add: mask_eq_exp_minus_1)
  have "(ucast (x AND 0xFF) :: byte) = ucast x" for x :: u16
    unfolding m by (rule bit_word_eqI) (auto simp: bit_simps)
  then show ?thesis by (simp only: le_bytes_2 ucast_word_byte unat_drop_bit)
qed

lemma DiffBytes_Cons: "DiffBytes l (i # is) = le_bytes 2 (unat (i - l)) @ DiffBytes (i + 1) is"
  using two_bytes [of "i - l"] by (simp add: Let_def)

lemma ReadDiffs_enc: "ReadDiffs (length is) l (DiffBytes l is @ rest) = is"
proof (induction "is" arbitrary: l)
  case (Cons i "is")
  have "of_nat (le_val (le_bytes 2 (unat (i - l)))) = i - l"
    using u16_range [of "i - l"] by (intro le_bytes_back) simp
  then show ?case using Cons
    by (simp add: DiffBytes_Cons Let_def or_read_2 [unfolded One_nat_def] del: DiffBytes.simps)
qed simp

lemma length_DiffBytes: "length (DiffBytes l is) = 2 * length is"
  by (induction "is" arbitrary: l) (simp_all add: Let_def)

lemma u16_count:
  assumes "n \<le> 10000"
  shows "unat (of_nat n :: u16) = n" "\<not> (of_nat n :: u16) > 10000" "of_nat (le_val (le_bytes 2 n)) = (of_nat n :: u16)"
proof -
  show u: "unat (of_nat n :: u16) = n" using assms by (simp add: unsigned_of_nat take_bit_nat_eq_self)
  then show "\<not> (of_nat n :: u16) > 10000" using assms by (simp add: word_less_nat_alt)
  show "of_nat (le_val (le_bytes 2 n)) = (of_nat n :: u16)" using le_bytes_back [of "of_nat n :: u16" 2] u assms by simp
qed

lemma header_count:
  assumes "length h = 32" "n \<le> 10000"
  shows "ucast ((h @ le_bytes 2 n @ rest) ! 32) OR push_bit 8 (ucast ((h @ le_bytes 2 n @ rest) ! 33)) = (of_nat n :: u16)"
  using or_read_2 [of "le_bytes 2 n @ rest", where 'a = 16] u16_count(3) [OF assms(2)] assms(1) by (simp add: nth_append)

lemma Request_roundtrip:
  assumes "wf256 (req_blockhash r)" "length (indexes r) \<le> 10000"
  shows "Request_Deserialize (Request_Serialize r @ rest) = Inr r"
proof -
  let ?n = "length (indexes r)"
  have "Request_Serialize r = req_blockhash r @ le_bytes 2 ?n @ DiffBytes 0 (indexes r)"
    using two_bytes [of "of_nat ?n"] u16_count(1) [OF assms(2)] by (simp add: Request_Serialize_def Let_def)
  then show ?thesis
    using header_count [of "req_blockhash r" ?n "DiffBytes 0 (indexes r) @ rest"] u16_count(1,2) [OF assms(2)] assms
    by (simp add: Request_Deserialize_def wf256_def Let_def length_DiffBytes ReadDiffs_enc)
qed

lemma BlockTransactions_roundtrip:
  assumes "wf256 (resp_blockhash r)" "length (resp_txn r) \<le> 10000" "\<forall>tx \<in> set (resp_txn r). fresh_tx tx"
  shows "BlockTransactions_Deserialize (BlockTransactions_Serialize r @ rest) = Inr r"
proof -
  let ?n = "length (resp_txn r)" and ?t = "concat (map Serialize (resp_txn r))"
  have "BlockTransactions_Serialize r = resp_blockhash r @ le_bytes 2 ?n @ ?t"
    using two_bytes [of "of_nat ?n"] u16_count(1) [OF assms(2)]
    by (simp add: BlockTransactions_Serialize_def Let_def foldl_append)
  then show ?thesis
    using header_count [of "resp_blockhash r" ?n "?t @ rest"] u16_count(1,2) [OF assms(2)] assms
      vtx.decode_n_concat [OF assms(3), of rest]
    by (simp add: BlockTransactions_Deserialize_def wf256_def Let_def)
qed

section \<open>Properties\<close>

definition ex_relay_block :: CBlock where
  "ex_relay_block = CBlock_SetNull\<lparr>hdr_nVersion := 1, hashMerkleRoot := BuildMerkleRoot ex_sha3 [ex_spend 1 5, ex_spend 2 5],
     vtx := SerializeTransactionsToVtx (map Some [ex_spend 1 5, ex_spend 2 5])\<rparr>"

lemma fresh_ex_spend: "fresh_tx (ex_spend b v)"
  by (simp add: fresh_tx_def wf_tx_def ex_spend_def CTransaction_default_def wf_txin_def wf_txout_def wf256_def ex_out_def)

text \<open>
  The transactions of a block as bytes. For 1 to 100000 transactions without cached hashes inside the wire limits,
  the decoder of the relay code and the decoder of the block validation both return the transactions that were encoded.
\<close>

theorem vtx_roundtrip:
  assumes "txs \<noteq> []" "length txs \<le> 100000" "\<forall>tx \<in> set txs. fresh_tx tx"
  shows "DeserializeBlockTransactions (SerializeTransactionsToVtx (map Some txs)) = Inr txs \<and>
    DeserializeTransactionsFromVtx (SerializeTransactionsToVtx (map Some txs) @ rest) = Inr txs"
  using vtx_decode [OF assms(2,3)] assms(1) by blast

theorem vtx_roundtrip_witness:
  "DeserializeBlockTransactions (SerializeTransactionsToVtx (map Some [ex_spend 1 5, ex_spend 2 6])) = Inr [ex_spend 1 5, ex_spend 2 6]"
  using vtx_roundtrip [of "[ex_spend 1 5, ex_spend 2 6]" "[]"] by (simp add: fresh_ex_spend)

text \<open>
  C14: relay of a block in compact form. A block of up to 65536 transactions with the right merkle root is turned into a
  compact block that survives the wire. The receiver, with any memory pool that has no transaction with the short
  identifier of a different transaction of the block, accepts it; once it gets the transactions at the indices it
  reports as missing, it rebuilds a block with the same header bytes whose transactions are those of the original, and
  the merkle root check of the block validation accepts them.
\<close>

theorem compact_relay:
  assumes "DeserializeTransactionsFromVtx (vtx block) = Inr txs" "txs \<noteq> []" "length txs \<le> 2 ^ 16" "wf_header block"
    "hashMerkleRoot block = BuildMerkleRoot sha3 txs" "c = CompactBlock_of_block sha3 nonce block"
    "\<forall>tx \<in> set pool. \<forall>t \<in> set txs. shortid sha3 c tx = shortid sha3 c t \<longrightarrow> CTransaction_copy tx = t"
  shows "CompactBlock_Deserialize sha3 (CompactBlock_Serialize c) = Inr c \<and>
    (\<exists>status p p' b. InitData sha3 c pool PartiallyDownloadedBlock_default = (status, p) \<and> status \<in> {OK, EXTRA_TXN} \<and>
      FillMissingTxs p (map (\<lambda>i. txs ! unat i) (GetMissingTxIndices p)) = (OK, p') \<and>
      GetBlock sha3 p' = Some b \<and> SerializeHeader b = SerializeHeader block \<and>
      DeserializeBlockTransactions (vtx b) = Inr txs \<and> VerifyMerkleRoot sha3 b txs = Inr ())"
proof -
  obtain cb rest where t: "txs = cb # rest" using assms(2) by (cases txs) auto
  note e = CompactBlock_of_block_eq [OF assms(1) [unfolded t] assms(6)]
  have f: "length txs \<le> 100000" "\<forall>tx \<in> set txs. fresh_tx tx" using DeserializeTransactionsFromVtx_fresh [OF assms(1)] by simp_all
  have w: "CompactBlock_Deserialize sha3 (CompactBlock_Serialize c) = Inr c"
    using CompactBlock_roundtrip [of sha3 c "[]"] wf_compact_of_block [OF assms(1) [unfolded t] assms(4)] assms(6) by simp
  obtain p where p: "InitData sha3 c pool PartiallyDownloadedBlock_default = (if None \<in> set (txn_available p) then EXTRA_TXN else OK, p)"
      "is_initialized p" "pd_header p = cb_header c" "partial_of txs (txn_available p)"
    using InitData_partial [OF assms(1-3,6,7)] by blast
  let ?q = "p\<lparr>txn_available := map Some txs\<rparr>"
  have q: "FillMissingTxs p (map (\<lambda>i. txs ! unat i) (GetMissingTxIndices p)) = (OK, ?q)"
    using FillMissingTxs_full [OF p(4) assms(3) f(2)] .
  have g: "GetBlock sha3 ?q \<noteq> None" using GetBlock_full [of ?q txs sha3] p(2,3) assms(2,5) f e(5) by simp
  then obtain b where b: "GetBlock sha3 ?q = Some b" by blast
  then have "hashMerkleRoot b = hashMerkleRoot block" "SerializeHeader b = SerializeHeader (cb_header c)"
      "vtx b = SerializeTransactionsToVtx (map Some txs)"
    using GetBlock_full [of ?q txs sha3] p(2,3) assms(2) f e(5)
    by (auto simp: SerializeHeader_def IsVDFBlock_def Let_def split: if_splits)
  then show ?thesis using w p(1) q b e(4) assms(5) vtx_decode(2) [OF f assms(2)]
    by (auto simp: VerifyMerkleRoot_def)
qed

theorem compact_relay_witness:
  "\<exists>status p p' b. InitData ex_sha3 (CompactBlock_of_block ex_sha3 9 ex_relay_block) [] PartiallyDownloadedBlock_default = (status, p) \<and>
     FillMissingTxs p (map (\<lambda>i. [ex_spend 1 5, ex_spend 2 5] ! unat i) (GetMissingTxIndices p)) = (OK, p') \<and>
     GetBlock ex_sha3 p' = Some b \<and> DeserializeBlockTransactions (vtx b) = Inr [ex_spend 1 5, ex_spend 2 5]"
proof -
  let ?txs = "[ex_spend 1 5, ex_spend 2 5]"
  have d: "DeserializeTransactionsFromVtx (vtx ex_relay_block) = Inr ?txs"
    using vtx_decode(1) [of ?txs "[]"] by (simp add: ex_relay_block_def fresh_ex_spend)
  have w: "wf_header ex_relay_block"
  proof -
    have "wf256 (BuildMerkleRoot ex_sha3 ?txs)"
    proof -
      have "wf256 (ex_sha3 x)" for x by (auto simp: ex_sha3_def wf256_def min_def)
      then show ?thesis
        by (simp add: BuildMerkleRoot_eq merkle_root.simps [of ex_sha3 "[x, y]" for x y] merkle_root.simps [of ex_sha3 "[x]" for x])
    qed
    then show ?thesis by (simp add: wf_header_def ex_relay_block_def CBlock_SetNull_def CBlockHeader_SetNull_def CBlockHeader.defs CBlock.defs)
  qed
  have "hashMerkleRoot ex_relay_block = BuildMerkleRoot ex_sha3 ?txs" by (simp add: ex_relay_block_def)
  from compact_relay [OF d _ _ w this refl, of "[]" 9] show ?thesis by auto
qed

text \<open>
  From version 4 on the length test of the decoder leaves out the nonce: a message of 144 to 151 bytes passes the tests
  in front of it, and the eight bytes of the nonce are read behind the end of the message.
\<close>

lemma compact_read_past_end:
  assumes "144 \<le> length data" "length data < 152" "sint (of_nat (le_val (take 4 data)) :: i32) \<ge> 4"
  shows "CompactBlock_Deserialize sha3 data = Inl ReadPastEnd"
  using assms by (simp add: CompactBlock_Deserialize_def ReadHeaderFields_def Let_def) linarith

end
