(* ===== verification/TxValidation.thy ===== *)
theory TxValidation
  imports Script BlockValidation
begin

text \<open>
  \<open>src/src/consensus/fees.cpp\<close> and \<open>tx_validation.cpp\<close>: the fee rules, the structural check of a transaction, the
  check of its inputs against the UTXO set, the verification of its scripts one by one or as a batch of signatures,
  and the standardness rules. The lookup \<open>GetUTXO\<close> of the UTXO set is the argument \<open>utxo\<close>, the clock \<open>GetTime\<close> the
  argument \<open>now\<close>, the chain parameters the option \<open>g\<close>, and \<open>running\<close> says whether the batch verifier exists and
  runs. The answer of the batch verifier is what \<open>VerifySingle\<close> says of every task; its threads are modelled in
  \<open>BatchVerifier\<close>.
\<close>

section \<open>Fees\<close>

definition MIN_TX_FEE :: CAmount where "MIN_TX_FEE = 0"
definition FEE_PER_BYTE :: CAmount where "FEE_PER_BYTE = 5"
definition MIN_RELAY_TX_FEE :: CAmount where "MIN_RELAY_TX_FEE = 10000"
definition MAX_REASONABLE_FEE :: CAmount where "MAX_REASONABLE_FEE = 10000000"

definition CalculateMinFee :: "nat \<Rightarrow> CAmount" where
  "CalculateMinFee tx_size = MIN_TX_FEE + of_nat tx_size * FEE_PER_BYTE"

datatype tx_check_error =
    FeeTooLow
  | BelowRelayMin
  | FeeTooHigh
  | TransactionIsNull
  | VersionZero
  | VersionExceedsMaximum
  | CoinbaseNotOneInput
  | CoinbasePrevoutNotNull
  | CoinbaseScriptSize
  | NoInputs
  | NullPrevout
  | NoOutputs
  | TooManyOutputs
  | OutputNotPositive
  | OutputBelowDust
  | OutputOutOfRange
  | OutputTotalOutOfRange
  | SizeExceedsMaximum
  | DuplicateInputs
  | LocktimeHeightNotSatisfied
  | LocktimeTimeNotSatisfied
  | NonExistentUTXO
  | RelativeLocktimeNotSatisfied
  | MaturityUTXOMissing
  | CoinbaseNotMature
  | InputEntryMissing
  | UTXOValueOutOfRange
  | TotalInputOverflow
  | InputsLessThanOutputs
  | FeeOutOfRange
  | FeeNegative
  | TooManyInputs
  | ScriptNotActivated
  | ScriptUTXOMissing
  | ScriptPubKeyTooLarge
  | ScriptSigTooLarge
  | ScriptFailed script_error
  | BatchUTXOMissing
  | NotP2PKHSize
  | NotP2PKHFormat
  | ScriptSigSizeInvalid
  | SignatureSizeInvalid
  | PublicKeySizeInvalid
  | PublicKeyHashMismatch
  | ChainParamsMissing
  | BatchVerifierMissing
  | SignatureVerificationFailed

definition CheckFee :: "CTransaction \<Rightarrow> CAmount \<Rightarrow> bool \<Rightarrow> tx_check_error + unit" where
  "CheckFee tx fee_paid check_relay =
     (let tx_size = GetSerializedSize tx;
          min_fee = CalculateMinFee tx_size
      in if sint fee_paid < sint min_fee then Inl FeeTooLow
         else if check_relay \<and> sint fee_paid < sint MIN_RELAY_TX_FEE then Inl BelowRelayMin
         else if sint fee_paid > sint MAX_REASONABLE_FEE then Inl FeeTooHigh
         else Inr ())"

definition VarIntSize :: "nat \<Rightarrow> nat" where
  "VarIntSize v = (if v < 253 then 1 else if v \<le> 0xFFFF then 3 else if v \<le> 0xFFFFFFFF then 5 else 9)"

definition EstimateDilithiumTxSize :: "nat \<Rightarrow> nat \<Rightarrow> nat \<Rightarrow> nat" where
  "EstimateDilithiumTxSize num_inputs num_outputs extra_data_size =
     4 + VarIntSize num_inputs + num_inputs * 5308 + VarIntSize num_outputs + num_outputs * 34 + 4 + extra_data_size"

section \<open>Structure\<close>

definition MAX_TRANSACTION_SIZE :: nat where "MAX_TRANSACTION_SIZE = 1000000"
definition COINBASE_MATURITY :: u32 where "COINBASE_MATURITY = 100"
definition MAX_INPUT_COUNT_PER_TX :: nat where "MAX_INPUT_COUNT_PER_TX = 10000"
definition MAX_OUTPUT_COUNT :: nat where "MAX_OUTPUT_COUNT = 10000"
definition CONSENSUS_DUST_THRESHOLD :: u64 where "CONSENSUS_DUST_THRESHOLD = 50000"

definition CheckDuplicateInputs :: "CTransaction \<Rightarrow> bool" where
  "CheckDuplicateInputs tx = no_duplicates [] (map prevout (vin tx))"

definition IsOpReturn :: "CTxOut \<Rightarrow> bool" where
  "IsOpReturn txout \<longleftrightarrow> scriptPubKey txout \<noteq> [] \<and> scriptPubKey txout ! 0 = 0x6a"

fun CheckOutputValues :: "CAmount \<Rightarrow> CTxOut list \<Rightarrow> tx_check_error + unit" where
  "CheckOutputValues totalOut [] = Inr ()"
| "CheckOutputValues totalOut (txout # outs) =
     (if IsOpReturn txout then CheckOutputValues totalOut outs
      else if nValue txout \<le> 0 then Inl OutputNotPositive
      else if nValue txout < CONSENSUS_DUST_THRESHOLD then Inl OutputBelowDust
      else if \<not> MoneyRange (nValue txout) then Inl OutputOutOfRange
      else if \<not> MoneyRange (totalOut + nValue txout) then Inl OutputTotalOutOfRange
      else CheckOutputValues (totalOut + nValue txout) outs)"

definition CheckTransactionBasic :: "CTransaction \<Rightarrow> tx_check_error + unit" where
  "CheckTransactionBasic tx =
     (if CTransaction_IsNull tx then Inl TransactionIsNull
      else if nVersion tx = 0 then Inl VersionZero
      else if sint (nVersion tx) > 255 then Inl VersionExceedsMaximum
      else if IsCoinBase tx \<and> length (vin tx) \<noteq> 1 then Inl CoinbaseNotOneInput
      else if IsCoinBase tx \<and> \<not> COutPoint_IsNull (prevout (vin tx ! 0)) then Inl CoinbasePrevoutNotNull
      else if IsCoinBase tx \<and> (length (scriptSig (vin tx ! 0)) < 2 \<or> length (scriptSig (vin tx ! 0)) > 20000)
      then Inl CoinbaseScriptSize
      else if \<not> IsCoinBase tx \<and> vin tx = [] then Inl NoInputs
      else if \<not> IsCoinBase tx \<and> list_ex (\<lambda>txin. COutPoint_IsNull (prevout txin)) (vin tx) then Inl NullPrevout
      else if vout tx = [] then Inl NoOutputs
      else if length (vout tx) > MAX_OUTPUT_COUNT then Inl TooManyOutputs
      else
        bindE (CheckOutputValues 0 (vout tx)) (\<lambda>_.
          if GetSerializedSize tx > MAX_TRANSACTION_SIZE then Inl SizeExceedsMaximum
          else if \<not> CheckDuplicateInputs tx then Inl DuplicateInputs
          else Inr ()))"

section \<open>Inputs\<close>

definition CheckLocktime :: "CTransaction \<Rightarrow> u32 \<Rightarrow> int \<Rightarrow> tx_check_error + unit" where
  "CheckLocktime tx currentHeight now =
     (if list_ex (\<lambda>txin. nSequence txin \<noteq> 0xFFFFFFFF) (vin tx) \<and> nLockTime tx \<noteq> 0 then
        (if nLockTime tx < LOCKTIME_THRESHOLD then
           (if nLockTime tx > currentHeight then Inl LocktimeHeightNotSatisfied else Inr ())
         else if uint (nLockTime tx) > now then Inl LocktimeTimeNotSatisfied else Inr ())
      else Inr ())"

fun CheckRelativeLocks :: "(COutPoint \<Rightarrow> CUTXOEntry option) \<Rightarrow> u32 \<Rightarrow> CTxIn list \<Rightarrow> tx_check_error + unit" where
  "CheckRelativeLocks utxo currentHeight [] = Inr ()"
| "CheckRelativeLocks utxo currentHeight (txin # ins) =
     (if nSequence txin AND push_bit 31 1 \<noteq> 0 then CheckRelativeLocks utxo currentHeight ins
      else
        (case utxo (prevout txin) of
           None \<Rightarrow> CheckRelativeLocks utxo currentHeight ins
         | Some entry \<Rightarrow>
             (let requiredValue = nSequence txin AND 0x0000ffff;
                  heightDiff = currentHeight - utxo_nHeight entry
              in if nSequence txin AND push_bit 22 1 = 0 \<and> heightDiff < requiredValue
                 then Inl RelativeLocktimeNotSatisfied
                 else CheckRelativeLocks utxo currentHeight ins)))"

definition CoinbaseMaturity :: "ChainParams option \<Rightarrow> u32" where
  "CoinbaseMaturity g = (case g of Some p \<Rightarrow> of_int (coinbaseMaturity p) | None \<Rightarrow> COINBASE_MATURITY)"

fun CheckCoinbaseMaturity ::
    "ChainParams option \<Rightarrow> (COutPoint \<Rightarrow> CUTXOEntry option) \<Rightarrow> u32 \<Rightarrow> CTxIn list \<Rightarrow> tx_check_error + unit" where
  "CheckCoinbaseMaturity g utxo currentHeight [] = Inr ()"
| "CheckCoinbaseMaturity g utxo currentHeight (txin # ins) =
     (case utxo (prevout txin) of
        None \<Rightarrow> Inl MaturityUTXOMissing
      | Some entry \<Rightarrow>
          (let confirmations = currentHeight - utxo_nHeight entry
           in if fCoinBase entry \<and> confirmations < CoinbaseMaturity g then Inl CoinbaseNotMature
              else CheckCoinbaseMaturity g utxo currentHeight ins))"

fun CalculateTotalInputValue ::
    "(COutPoint \<Rightarrow> CUTXOEntry option) \<Rightarrow> CAmount \<Rightarrow> CTxIn list \<Rightarrow> tx_check_error + CAmount" where
  "CalculateTotalInputValue utxo totalIn [] = Inr totalIn"
| "CalculateTotalInputValue utxo totalIn (txin # ins) =
     (case utxo (prevout txin) of
        None \<Rightarrow> Inl InputEntryMissing
      | Some entry \<Rightarrow>
          if \<not> MoneyRange (nValue (utxo_out entry)) then Inl UTXOValueOutOfRange
          else
            (let newTotal = totalIn + nValue (utxo_out entry)
             in if \<not> MoneyRange newTotal then Inl TotalInputOverflow
                else CalculateTotalInputValue utxo newTotal ins))"

text \<open>The sum of the outputs wraps around like the signed 64-bit number of the code.\<close>

definition CheckTransactionInputs ::
    "ChainParams option \<Rightarrow> (COutPoint \<Rightarrow> CUTXOEntry option) \<Rightarrow> u32 \<Rightarrow> int \<Rightarrow> CTransaction \<Rightarrow> tx_check_error + CAmount" where
  "CheckTransactionInputs g utxo currentHeight now tx =
     (if IsCoinBase tx then Inr 0
      else
        bindE (CheckLocktime tx currentHeight now) (\<lambda>_.
        if list_ex (\<lambda>txin. utxo (prevout txin) = None) (vin tx) then Inl NonExistentUTXO
        else
          bindE (if sint (nVersion tx) \<ge> 2 then CheckRelativeLocks utxo currentHeight (vin tx) else Inr ()) (\<lambda>_.
          bindE (CheckCoinbaseMaturity g utxo currentHeight (vin tx)) (\<lambda>_.
          bindE (CalculateTotalInputValue utxo 0 (vin tx)) (\<lambda>totalIn.
            let totalOut = foldl (\<lambda>totalOut txout. totalOut + nValue txout) 0 (vout tx) :: CAmount
            in if sint totalIn < sint totalOut then Inl InputsLessThanOutputs
               else
                 (let txFee = totalIn - totalOut
                  in if \<not> MoneyRange txFee then Inl FeeOutOfRange
                     else if sint txFee < 0 then Inl FeeNegative
                     else bindE (CheckFee tx txFee True) (\<lambda>_. Inr txFee)))))))"

section \<open>Scripts\<close>

definition ConvertScriptSig :: "bytes \<Rightarrow> bytes" where
  "ConvertScriptSig ss =
     (if IsLegacyScriptSig ss then
        [OP_PUSHDATA2, of_nat (DILITHIUM3_SIG_SIZE mod 256), of_nat (DILITHIUM3_SIG_SIZE div 256 mod 256)] @
        take DILITHIUM3_SIG_SIZE (drop 2 ss) @
        [OP_PUSHDATA2, of_nat (DILITHIUM3_PK_SIZE mod 256), of_nat (DILITHIUM3_PK_SIZE div 256 mod 256)] @
        drop (2 + DILITHIUM3_SIG_SIZE + 2) ss
      else ss)"

definition Validator_VerifyScript ::
    "(bytes \<Rightarrow> uint256) \<Rightarrow> (bytes \<Rightarrow> bytes \<Rightarrow> bytes \<Rightarrow> int) \<Rightarrow> ChainParams option \<Rightarrow> CTransaction \<Rightarrow> nat \<Rightarrow>
     bytes \<Rightarrow> bytes \<Rightarrow> tx_check_error + unit" where
  "Validator_VerifyScript sha3 verify g tx inputIdx ss spk =
     (if length spk > MAX_SCRIPT_SIZE then Inl ScriptPubKeyTooLarge
      else if length ss > MAX_SCRIPT_SIZE then Inl ScriptSigTooLarge
      else
        (let chain_id = (case g of Some p \<Rightarrow> chainID p | None \<Rightarrow> 1);
             checker = TransactionSignatureChecker sha3 verify tx (of_nat inputIdx) chain_id;
             flags = SCRIPT_VERIFY_CHECKLOCKTIMEVERIFY OR SCRIPT_VERIFY_CHECKSEQUENCEVERIFY
         in case VerifyScript sha3 flags checker (ConvertScriptSig ss) spk of
              Inl e \<Rightarrow> Inl (ScriptFailed e)
            | Inr u \<Rightarrow> Inr ()))"

fun VerifyScripts ::
    "(bytes \<Rightarrow> uint256) \<Rightarrow> (bytes \<Rightarrow> bytes \<Rightarrow> bytes \<Rightarrow> int) \<Rightarrow> ChainParams option \<Rightarrow> (COutPoint \<Rightarrow> CUTXOEntry option) \<Rightarrow>
     CTransaction \<Rightarrow> nat \<Rightarrow> CTxIn list \<Rightarrow> tx_check_error + unit" where
  "VerifyScripts sha3 verify g utxo tx i [] = Inr ()"
| "VerifyScripts sha3 verify g utxo tx i (txin # ins) =
     (case utxo (prevout txin) of
        None \<Rightarrow> Inl ScriptUTXOMissing
      | Some entry \<Rightarrow>
          bindE (Validator_VerifyScript sha3 verify g tx i (scriptSig txin) (scriptPubKey (utxo_out entry))) (\<lambda>_.
            VerifyScripts sha3 verify g utxo tx (i + 1) ins))"

text \<open>One task of the batch verifier, and its check.\<close>

record CSignatureTask =
  task_signature :: bytes
  task_message :: bytes
  task_pubkey :: bytes
  task_input_index :: nat

definition VerifySingle :: "(bytes \<Rightarrow> bytes \<Rightarrow> bytes \<Rightarrow> int) \<Rightarrow> CSignatureTask \<Rightarrow> bool" where
  "VerifySingle verify task =
     (if length (task_signature task) \<noteq> DILITHIUM3_SIG_SIZE then False
      else if length (task_pubkey task) \<noteq> DILITHIUM3_PK_SIZE then False
      else if length (task_message task) \<noteq> 32 then False
      else verify (task_signature task) (task_message task) (task_pubkey task) = 0)"

definition PrepareSignatureData ::
    "(bytes \<Rightarrow> uint256) \<Rightarrow> ChainParams option \<Rightarrow> CTransaction \<Rightarrow> nat \<Rightarrow> bytes \<Rightarrow> bytes \<Rightarrow> tx_check_error + CSignatureTask" where
  "PrepareSignatureData sha3 g tx inputIdx ss spk =
     (if length spk \<noteq> 25 then Inl NotP2PKHSize
      else if spk ! 0 \<noteq> 0x76 \<or> spk ! 1 \<noteq> 0xa9 \<or> spk ! 2 \<noteq> 0x14 \<or> spk ! 23 \<noteq> 0x88 \<or> spk ! 24 \<noteq> 0xac
      then Inl NotP2PKHFormat
      else if length ss \<noteq> 2 + DILITHIUM3_SIG_SIZE + 2 + DILITHIUM3_PK_SIZE then Inl ScriptSigSizeInvalid
      else
        (let sig_size = ucast (ss ! 0) OR push_bit 8 (ucast (ss ! 1)) :: u16
         in if unat sig_size \<noteq> DILITHIUM3_SIG_SIZE then Inl SignatureSizeInvalid
            else
              (let sig = take (unat sig_size) (drop 2 ss);
                   pos = 2 + unat sig_size;
                   pk_size = ucast (ss ! pos) OR push_bit 8 (ucast (ss ! (pos + 1))) :: u16
               in if unat pk_size \<noteq> DILITHIUM3_PK_SIZE then Inl PublicKeySizeInvalid
                  else
                    (let pubkey = take (unat pk_size) (drop (pos + 2) ss);
                         computed_hash = sha3 (sha3 pubkey)
                     in if take 20 computed_hash \<noteq> take 20 (drop 3 spk) then Inl PublicKeyHashMismatch
                        else
                          (case g of None \<Rightarrow> Inl ChainParamsMissing
                           | Some p \<Rightarrow>
                               (let sig_message = SerializeUint32 (SerializeUint32 (SerializeUint32
                                      (GetSigningHash sha3 tx) (of_nat inputIdx)) (nVersion tx)) (chainID p)
                                in Inr \<lparr>task_signature = sig, task_message = sha3 sig_message, task_pubkey = pubkey,
                                        task_input_index = inputIdx\<rparr>))))))"

fun PrepareBatch ::
    "(bytes \<Rightarrow> uint256) \<Rightarrow> ChainParams option \<Rightarrow> (COutPoint \<Rightarrow> CUTXOEntry option) \<Rightarrow> CTransaction \<Rightarrow> nat \<Rightarrow> CTxIn list \<Rightarrow>
     tx_check_error + CSignatureTask list" where
  "PrepareBatch sha3 g utxo tx i [] = Inr []"
| "PrepareBatch sha3 g utxo tx i (txin # ins) =
     (case utxo (prevout txin) of
        None \<Rightarrow> Inl BatchUTXOMissing
      | Some entry \<Rightarrow>
          bindE (PrepareSignatureData sha3 g tx i (scriptSig txin) (scriptPubKey (utxo_out entry))) (\<lambda>task.
          bindE (PrepareBatch sha3 g utxo tx (i + 1) ins) (\<lambda>tasks. Inr (task # tasks))))"

definition BatchVerifyScripts ::
    "(bytes \<Rightarrow> uint256) \<Rightarrow> (bytes \<Rightarrow> bytes \<Rightarrow> bytes \<Rightarrow> int) \<Rightarrow> ChainParams option \<Rightarrow> (COutPoint \<Rightarrow> CUTXOEntry option) \<Rightarrow>
     bool \<Rightarrow> CTransaction \<Rightarrow> tx_check_error + unit" where
  "BatchVerifyScripts sha3 verify g utxo running tx =
     (if \<not> running then Inl BatchVerifierMissing
      else
        bindE (PrepareBatch sha3 g utxo tx 0 (vin tx)) (\<lambda>tasks.
          if list_all (VerifySingle verify) tasks then Inr () else Inl SignatureVerificationFailed))"

section \<open>Complete validation\<close>

definition ScriptsActivated :: "ChainParams option \<Rightarrow> u32 \<Rightarrow> CTransaction \<Rightarrow> bool" where
  "ScriptsActivated g currentHeight tx =
     (case g of None \<Rightarrow> True
      | Some p \<Rightarrow>
          if sint currentHeight < scriptV2ActivationHeight p
          then list_all (\<lambda>txout. IsPayToPublicKeyHash (scriptPubKey txout) \<or> IsUnspendable (scriptPubKey txout)) (vout tx)
          else True)"

definition AllP2PKH :: "(COutPoint \<Rightarrow> CUTXOEntry option) \<Rightarrow> CTransaction \<Rightarrow> bool" where
  "AllP2PKH utxo tx =
     list_all (\<lambda>txin. case utxo (prevout txin) of None \<Rightarrow> True
       | Some entry \<Rightarrow> IsPayToPublicKeyHash (scriptPubKey (utxo_out entry)) \<and> IsLegacyScriptSig (scriptSig txin)) (vin tx)"

definition CheckTransaction ::
    "(bytes \<Rightarrow> uint256) \<Rightarrow> (bytes \<Rightarrow> bytes \<Rightarrow> bytes \<Rightarrow> int) \<Rightarrow> ChainParams option \<Rightarrow> (COutPoint \<Rightarrow> CUTXOEntry option) \<Rightarrow>
     bool \<Rightarrow> u32 \<Rightarrow> int \<Rightarrow> CTransaction \<Rightarrow> tx_check_error + CAmount" where
  "CheckTransaction sha3 verify g utxo running currentHeight now tx =
     bindE (CheckTransactionBasic tx) (\<lambda>_.
     bindE (CheckTransactionInputs g utxo currentHeight now tx) (\<lambda>txFee.
       if IsCoinBase tx then Inr txFee
       else if length (vin tx) > MAX_INPUT_COUNT_PER_TX then Inl TooManyInputs
       else if \<not> ScriptsActivated g currentHeight tx then Inl ScriptNotActivated
       else
         bindE (if AllP2PKH utxo tx \<and> running \<and> length (vin tx) \<ge> 2
                then BatchVerifyScripts sha3 verify g utxo running tx
                else VerifyScripts sha3 verify g utxo tx 0 (vin tx)) (\<lambda>_. Inr txFee)))"

section \<open>Helpers\<close>

definition IsStandardTransaction :: "ChainParams option \<Rightarrow> CTransaction \<Rightarrow> u32 \<Rightarrow> bool" where
  "IsStandardTransaction g tx currentHeight =
     (let scriptV2Active = (case g of None \<Rightarrow> False | Some p \<Rightarrow> currentHeight \<ge> of_int (scriptV2ActivationHeight p))
      in nVersion tx = 1 \<and>
         \<not> GetSerializedSize tx > MAX_TRANSACTION_SIZE div 10 \<and>
         list_all (\<lambda>txout. IsOpReturn txout \<or> \<not> nValue txout < 1000) (vout tx) \<and>
         list_all (\<lambda>txout. let s = scriptPubKey txout
            in IsPayToPublicKeyHash s \<or> IsUnspendable s \<or> (scriptV2Active \<and> IsHTLC s) \<or>
               (length s = 37 \<and> s ! 0 = 0x76 \<and> s ! 1 = 0xa9 \<and> s ! 2 = 0x20 \<and> s ! 35 = 0x88 \<and> s ! 36 = 0xac)) (vout tx))"

definition GetTransactionWeight :: "CTransaction \<Rightarrow> nat" where
  "GetTransactionWeight tx = GetSerializedSize tx"

definition GetMinimumFee :: "CTransaction \<Rightarrow> CAmount" where
  "GetMinimumFee tx = CalculateMinFee (GetSerializedSize tx)"

definition CheckDoubleSpend :: "(COutPoint \<Rightarrow> CUTXOEntry option) \<Rightarrow> CTransaction \<Rightarrow> bool" where
  "CheckDoubleSpend utxo tx =
     (if \<not> CheckDuplicateInputs tx then False else list_all (\<lambda>txin. utxo (prevout txin) \<noteq> None) (vin tx))"

section \<open>Amounts\<close>

lemma sint_i64:
  "sint (v :: i64) = (if unat v < 9223372036854775808 then int (unat v) else int (unat v) - 18446744073709551616)"
proof (cases "0 \<le> sint v")
  case True
  then have u: "int (unat v) = sint v" using sint_lt [of v] by (simp add: uint_sint take_bit_int_eq_self)
  have "sint v < 9223372036854775808" using sint_lt [of v] by simp
  then have "unat v < 9223372036854775808" using u by linarith
  then show ?thesis using u by simp
next
  case False
  have ge: "sint v \<ge> - 9223372036854775808" using sint_ge [of v] by simp
  have "int (unat v) = sint v mod 18446744073709551616" by (simp add: uint_sint take_bit_eq_mod)
  also have "\<dots> = (sint v + 18446744073709551616) mod 18446744073709551616" by simp
  also have "\<dots> = sint v + 18446744073709551616" using False ge by (intro mod_pos_pos_trivial) simp_all
  finally have u: "int (unat v) = sint v + 18446744073709551616" .
  then have "\<not> unat v < 9223372036854775808" using ge by linarith
  then show ?thesis using u by simp
qed

lemma MoneyRange_iff: "MoneyRange v \<longleftrightarrow> unat v \<le> 2100000000000000"
proof -
  have "unat v < 18446744073709551616" using u64_range [of v] by simp
  then show ?thesis unfolding MoneyRange_def sint_i64 MAX_MONEY_def COIN_def
    by (cases "unat v < 9223372036854775808") (simp_all only: if_True if_False, linarith+)
qed

lemma sint_small: "unat (v :: i64) < 2 ^ 63 \<Longrightarrow> sint v = int (unat v)"
  by (simp add: sint_i64)

lemma money_add:
  assumes "MoneyRange a" "MoneyRange b"
  shows "unat (a + b) = unat a + unat b"
  using assms by (intro unat_add_fits) (simp add: MoneyRange_iff)

lemma CalculateTotalInputValue_sound:
  "CalculateTotalInputValue utxo acc ins = Inr t \<Longrightarrow> MoneyRange acc \<Longrightarrow>
     unat t = unat acc + sum_list (map (coin_value utxo \<circ> prevout) ins) \<and> MoneyRange t \<and>
     (\<forall>i \<in> set ins. utxo (prevout i) \<noteq> None)"
proof (induction ins arbitrary: acc)
  case (Cons i ins)
  then obtain e where e: "utxo (prevout i) = Some e" "MoneyRange (nValue (utxo_out e))"
      "MoneyRange (acc + nValue (utxo_out e))" "CalculateTotalInputValue utxo (acc + nValue (utxo_out e)) ins = Inr t"
    by (auto simp: Let_def split: option.splits if_splits)
  then show ?case using Cons.IH [OF e(4,3)] money_add [OF Cons.prems(2) e(2)] by (simp add: coin_value_def)
qed simp

lemma CheckOutputValues_iff:
  "MoneyRange acc \<Longrightarrow> CheckOutputValues acc outs = Inr () \<longleftrightarrow>
     (\<forall>txout \<in> set outs. IsOpReturn txout \<or> 50000 \<le> unat (nValue txout)) \<and>
     unat acc + sum_list (map (unat \<circ> nValue) (filter (\<lambda>t. \<not> IsOpReturn t) outs)) \<le> 2100000000000000"
proof (induction outs arbitrary: acc)
  case Nil
  then show ?case by (simp add: MoneyRange_iff)
next
  case (Cons out outs)
  show ?case
  proof (cases "IsOpReturn out")
    case False
    show ?thesis
    proof (cases "50000 \<le> unat (nValue out) \<and> MoneyRange (nValue out)")
      case True
      then have m: "unat (acc + nValue out) = unat acc + unat (nValue out)" using money_add Cons.prems by blast
      have "CheckOutputValues acc (out # outs) = Inr () \<longleftrightarrow> MoneyRange (acc + nValue out) \<and> CheckOutputValues (acc + nValue out) outs = Inr ()"
        using True False by (auto simp: CONSENSUS_DUST_THRESHOLD_def word_less_nat_alt word_le_nat_alt)
      then show ?thesis using Cons.IH [of "acc + nValue out"] True False m
        by (cases "MoneyRange (acc + nValue out)") (auto simp: MoneyRange_iff)
    next
      case bad: False
      then have "CheckOutputValues acc (out # outs) \<noteq> Inr ()"
        using False by (auto simp: CONSENSUS_DUST_THRESHOLD_def word_less_nat_alt word_le_nat_alt)
      then show ?thesis using bad False by (auto simp: MoneyRange_iff)
    qed
  qed (use Cons in simp)
qed

lemma foldl_out_sum: "foldl (\<lambda>t txout. t + nValue txout) (acc :: u64) outs = acc + of_nat (sum_list (map (unat \<circ> nValue) outs))"
  by (induction outs arbitrary: acc) simp_all

section \<open>Sizes\<close>

lemma CompactSizeLen_VarInt: "CompactSizeLen n = VarIntSize n"
  by (simp add: CompactSizeLen_def VarIntSize_def)

lemma GetSerializedSize_sum:
  "GetSerializedSize tx = 4 + CompactSizeLen (length (vin tx)) +
     sum_list (map (\<lambda>i. 40 + CompactSizeLen (length (scriptSig i)) + length (scriptSig i)) (vin tx)) +
     CompactSizeLen (length (vout tx)) +
     sum_list (map (\<lambda>o'. 8 + CompactSizeLen (length (scriptPubKey o')) + length (scriptPubKey o')) (vout tx)) + 4"
proof -
  have i: "foldl (\<lambda>s txin. s + 32 + 4 + CompactSizeLen (length (scriptSig txin)) + length (scriptSig txin) + 4) a xs =
      a + sum_list (map (\<lambda>i. 40 + CompactSizeLen (length (scriptSig i)) + length (scriptSig i)) xs)" for a xs
    by (induction xs arbitrary: a) simp_all
  have o: "foldl (\<lambda>s txout. s + 8 + CompactSizeLen (length (scriptPubKey txout)) + length (scriptPubKey txout)) a xs =
      a + sum_list (map (\<lambda>o'. 8 + CompactSizeLen (length (scriptPubKey o')) + length (scriptPubKey o')) xs)" for a xs
    by (induction xs arbitrary: a) simp_all
  show ?thesis unfolding GetSerializedSize_def Let_def i o by simp
qed

lemma min_fee_unat: "n \<le> 1000000 \<Longrightarrow> sint (CalculateMinFee n) = 5 * int n"
proof -
  assume n: "n \<le> 1000000"
  then have "unat (of_nat n * FEE_PER_BYTE) = 5 * n"
    by (simp add: FEE_PER_BYTE_def unat_word_ariths unat_of_nat_len)
  then show ?thesis using n by (simp add: CalculateMinFee_def MIN_TX_FEE_def sint_small)
qed

section \<open>Scripts of the inputs\<close>

definition chain_id :: "ChainParams option \<Rightarrow> u32" where
  "chain_id g = (case g of Some p \<Rightarrow> chainID p | None \<Rightarrow> 1)"

abbreviation legacy_sig :: "bytes \<Rightarrow> bytes" where
  "legacy_sig ss \<equiv> take 3309 (drop 2 ss)"

abbreviation legacy_pk :: "bytes \<Rightarrow> bytes" where
  "legacy_pk ss \<equiv> drop 3313 ss"

lemma ConvertScriptSig_legacy:
  assumes "IsLegacyScriptSig ss"
  shows "ConvertScriptSig ss = PushData (legacy_sig ss) @ PushData (legacy_pk ss)"
    "length (legacy_sig ss) = 3309" "length (legacy_pk ss) = 1952"
proof -
  have l: "length ss = 5265" using assms by (simp add: IsLegacyScriptSig_def script_limits)
  then show s: "length (legacy_sig ss) = 3309" "length (legacy_pk ss) = 1952" by simp_all
  show "ConvertScriptSig ss = PushData (legacy_sig ss) @ PushData (legacy_pk ss)"
    using assms s unfolding ConvertScriptSig_def PushData_def by (simp add: script_limits)
qed

lemma VerifyScripts_iff:
  "VerifyScripts sha3 verify g utxo tx i ins = Inr () \<longleftrightarrow>
     (\<forall>k < length ins. \<exists>e. utxo (prevout (ins ! k)) = Some e \<and>
        Validator_VerifyScript sha3 verify g tx (i + k) (scriptSig (ins ! k)) (scriptPubKey (utxo_out e)) = Inr ())"
proof (induction ins arbitrary: i)
  case (Cons txin ins)
  then show ?case by (auto simp: bindE_Inr_iff All_less_Suc2 split: option.splits)
qed simp

lemma PrepareBatch_Inr_iff:
  "PrepareBatch sha3 g utxo tx i ins = Inr tasks \<longleftrightarrow> length tasks = length ins \<and>
     (\<forall>k < length ins. \<exists>e. utxo (prevout (ins ! k)) = Some e \<and>
        PrepareSignatureData sha3 g tx (i + k) (scriptSig (ins ! k)) (scriptPubKey (utxo_out e)) = Inr (tasks ! k))"
proof (induction ins arbitrary: i tasks)
  case (Cons txin ins)
  then show ?case by (cases tasks) (auto simp: bindE_Inr_iff All_less_Suc2 split: option.splits)
qed auto

lemma BatchVerifyScripts_iff:
  "BatchVerifyScripts sha3 verify g utxo True tx = Inr () \<longleftrightarrow>
     (\<forall>k < length (vin tx). \<exists>e task. utxo (prevout (vin tx ! k)) = Some e \<and>
        PrepareSignatureData sha3 g tx k (scriptSig (vin tx ! k)) (scriptPubKey (utxo_out e)) = Inr task \<and> VerifySingle verify task)"
    (is "?l \<longleftrightarrow> ?r")
proof
  assume ?l
  then obtain tasks where t: "PrepareBatch sha3 g utxo tx 0 (vin tx) = Inr tasks" "list_all (VerifySingle verify) tasks"
    by (auto simp: BatchVerifyScripts_def bindE_Inr_iff split: if_splits)
  from t(1) [unfolded PrepareBatch_Inr_iff] t(2) show ?r by (fastforce simp: list_all_length)
next
  assume ?r
  then obtain f where f: "\<forall>k < length (vin tx). \<exists>e. utxo (prevout (vin tx ! k)) = Some e \<and>
      PrepareSignatureData sha3 g tx k (scriptSig (vin tx ! k)) (scriptPubKey (utxo_out e)) = Inr (f k) \<and> VerifySingle verify (f k)"
    by metis
  have "PrepareBatch sha3 g utxo tx 0 (vin tx) = Inr (map f [0..<length (vin tx)])"
    unfolding PrepareBatch_Inr_iff using f by auto
  moreover have "list_all (VerifySingle verify) (map f [0..<length (vin tx)])" using f by (auto simp: list_all_length)
  ultimately show ?l by (simp add: BatchVerifyScripts_def)
qed

lemma PrepareSignatureData_Inr:
  "PrepareSignatureData sha3 g tx i ss spk = Inr task \<longleftrightarrow>
     IsPayToPublicKeyHash spk \<and> IsLegacyScriptSig ss \<and>
     unat (ucast (ss ! 3311) OR push_bit 8 (ucast (ss ! 3312)) :: u16) = 1952 \<and>
     Hash160 sha3 (legacy_pk ss) = take 20 (drop 3 spk) \<and>
     (\<exists>p. g = Some p \<and> task = \<lparr>task_signature = legacy_sig ss, task_message = sha3 (SigMessage sha3 tx (of_nat i) (chainID p)),
        task_pubkey = legacy_pk ss, task_input_index = i\<rparr>)"
  by (cases g) (auto simp: PrepareSignatureData_def IsPayToPublicKeyHash_def IsLegacyScriptSig_def Hash160_def SigMessage_def
      script_limits opcode_defs Let_def split: if_splits)

text \<open>A spent public key hash output has a signature behind it, on both ways to check scripts.\<close>

lemma batch_authorized:
  assumes "PrepareSignatureData sha3 g tx i ss spk = Inr task" "VerifySingle verify task"
  shows "\<exists>sig pk. verify sig (sha3 (SigMessage sha3 tx (of_nat i) (chain_id g))) pk = 0 \<and> Hash160 sha3 pk = take 20 (drop 3 spk)"
  using assms unfolding PrepareSignatureData_Inr by (auto simp: VerifySingle_def chain_id_def split: if_splits)

lemma script_authorized:
  assumes "Validator_VerifyScript sha3 verify g tx i ss spk = Inr ()" "IsPayToPublicKeyHash spk"
  shows "\<exists>sig pk. verify sig (sha3 (SigMessage sha3 tx (of_nat i) (chain_id g))) pk = 0 \<and> Hash160 sha3 pk = take 20 (drop 3 spk)"
proof -
  from assms(1) have "VerifyScript sha3 (SCRIPT_VERIFY_CHECKLOCKTIMEVERIFY OR SCRIPT_VERIFY_CHECKSEQUENCEVERIFY)
      (TransactionSignatureChecker sha3 verify tx (of_nat i) (chain_id g)) (ConvertScriptSig ss) spk = Inr ()"
    by (auto simp: Validator_VerifyScript_def chain_id_def Let_def split: if_splits sum.splits)
  from txc.p2pkh_authorized [OF assms(2) this] show ?thesis by blast
qed

lemma legacy_script_iff:
  assumes "IsPayToPublicKeyHash spk" "IsLegacyScriptSig ss"
  shows "Validator_VerifyScript sha3 verify g tx i ss spk = Inr () \<longleftrightarrow>
    Hash160 sha3 (legacy_pk ss) = take 20 (drop 3 spk) \<and>
    TxCheckSig sha3 verify tx (of_nat i) (chain_id g) (legacy_sig ss) (legacy_pk ss)"
proof -
  note c = ConvertScriptSig_legacy [OF assms(2)]
  let ?checker = "TransactionSignatureChecker sha3 verify tx (of_nat i) (chain_id g)"
  let ?flags = "SCRIPT_VERIFY_CHECKLOCKTIMEVERIFY OR SCRIPT_VERIFY_CHECKSEQUENCEVERIFY"
  have "EvalScript sha3 ?flags ?checker [] (PushData (legacy_sig ss) @ PushData (legacy_pk ss)) = Inr [legacy_pk ss, legacy_sig ss]"
    using c(2,3) by (intro EvalScript_pushes) (auto simp: script_limits)
  then have "VerifyScript sha3 ?flags ?checker (ConvertScriptSig ss) spk = Inr () \<longleftrightarrow>
      Hash160 sha3 (legacy_pk ss) = take 20 (drop 3 spk) \<and> CheckSig ?checker (legacy_sig ss) (legacy_pk ss)"
    unfolding VerifyScript_p2pkh [OF assms(1)] c(1) by (simp add: script_limits)
  moreover have "\<not> length spk > MAX_SCRIPT_SIZE" "\<not> length ss > MAX_SCRIPT_SIZE"
    using assms by (simp_all add: IsPayToPublicKeyHash_def IsLegacyScriptSig_def script_limits)
  ultimately show ?thesis
    by (auto simp: Validator_VerifyScript_def chain_id_def TransactionSignatureChecker_def Let_def split: sum.splits)
qed

lemma CheckTransactionBasic_Inr:
  assumes "CheckTransactionBasic tx = Inr ()"
  shows "distinct (map prevout (vin tx)) \<and> GetSerializedSize tx \<le> 1000000 \<and> CheckOutputValues 0 (vout tx) = Inr ()"
  using assms by (auto simp: CheckTransactionBasic_def bindE_Inr_iff MAX_TRANSACTION_SIZE_def CheckDuplicateInputs_def split: if_splits)

lemma CheckTransactionInputs_Inr:
  assumes "CheckTransactionInputs g utxo h now tx = Inr fee" "\<not> IsCoinBase tx"
  shows "\<exists>totalIn. CalculateTotalInputValue utxo 0 (vin tx) = Inr totalIn \<and>
    fee = totalIn - of_nat (output_sum tx) \<and> sint (of_nat (output_sum tx) :: i64) \<le> sint totalIn \<and> CheckFee tx fee True = Inr () \<and>
    CheckCoinbaseMaturity g utxo h (vin tx) = Inr ()"
proof -
  have "foldl (\<lambda>t txout. t + nValue txout) 0 (vout tx) = (of_nat (output_sum tx) :: i64)"
    by (simp add: foldl_out_sum output_sum_def comp_def)
  with assms show ?thesis
    by (auto simp: CheckTransactionInputs_def bindE_Inr_iff Let_def not_less split: if_splits)
qed

lemma CheckFee_bounds:
  assumes "CheckFee tx fee True = Inr ()" "GetSerializedSize tx \<le> 1000000"
  shows "10000 \<le> unat fee \<and> unat fee \<le> 10000000 \<and> 5 * GetSerializedSize tx \<le> unat fee"
proof -
  have "sint fee \<ge> 10000" "sint fee \<le> 10000000" "sint fee \<ge> 5 * int (GetSerializedSize tx)"
    using assms by (auto simp: CheckFee_def Let_def min_fee_unat MIN_RELAY_TX_FEE_def MAX_REASONABLE_FEE_def split: if_splits)
  then show ?thesis using u64_range [of fee] unfolding sint_i64 by (auto simp del: of_nat_unat split: if_splits)
qed

lemma op_return_free_sum:
  "\<forall>o' \<in> set outs. IsOpReturn o' \<longrightarrow> nValue o' = 0 \<Longrightarrow>
     sum_list (map (unat \<circ> nValue) (filter (\<lambda>t. \<not> IsOpReturn t) outs)) = sum_list (map (\<lambda>o'. unat (nValue o')) outs)"
  by (induction outs) auto

lemma tx_value_conserved:
  assumes "CheckTransactionBasic tx = Inr ()" "CheckTransactionInputs g utxo h now tx = Inr fee" "\<not> IsCoinBase tx"
    "\<forall>o' \<in> set (vout tx). IsOpReturn o' \<longrightarrow> nValue o' = 0"
  shows "(\<forall>i \<in> set (vin tx). utxo (prevout i) \<noteq> None) \<and>
    sum_list (map (coin_value utxo \<circ> prevout) (vin tx)) = output_sum tx + unat fee"
proof -
  obtain t where t: "CalculateTotalInputValue utxo 0 (vin tx) = Inr t" "fee = t - of_nat (output_sum tx)"
      "sint (of_nat (output_sum tx) :: i64) \<le> sint t"
    using CheckTransactionInputs_Inr [OF assms(2,3)] by blast
  have m: "MoneyRange 0" by (simp add: MoneyRange_iff)
  have "output_sum tx \<le> 2100000000000000"
    using CheckTransactionBasic_Inr [OF assms(1)] op_return_free_sum [OF assms(4)] CheckOutputValues_iff [OF m, of "vout tx"]
    by (simp add: output_sum_def)
  then have o: "unat (of_nat (output_sum tx) :: i64) = output_sum tx" by (intro unat_of_nat_len) simp
  note s = CalculateTotalInputValue_sound [OF t(1) m]
  have "output_sum tx \<le> unat t" using t(3) s \<open>output_sum tx \<le> 2100000000000000\<close> o
    by (simp add: sint_small MoneyRange_iff del: of_nat_unat)
  then have "unat fee = unat t - output_sum tx" unfolding t(2) using o by (simp add: unat_sub word_le_nat_alt)
  then show ?thesis using s \<open>output_sum tx \<le> unat t\<close> by simp
qed

section \<open>Properties\<close>


text \<open>
  C32: an \<open>OP_RETURN\<close> output makes money. The value of such an output is not checked, and the sum of the outputs wraps
  around: the owner of one coin can pay any amount up to \<open>MAX_MONEY\<close> to a new output, with the difference to 2^64 in an
  \<open>OP_RETURN\<close> output, and both the structural check and the check of the inputs accept.
\<close>

theorem op_return_inflation:
  assumes "utxo p = Some e" "nValue (utxo_out e) = 100000000" "\<not> fCoinBase e" "\<not> COutPoint_IsNull p"
    "50000 \<le> unat a" "unat a \<le> 2100000000000000" "length ss = 5265" "IsPayToPublicKeyHash spk"
  shows "let tx = \<lparr>nVersion = 1, vin = [\<lparr>prevout = p, scriptSig = ss, nSequence = 0xFFFFFFFF\<rparr>],
      vout = [\<lparr>nValue = a, scriptPubKey = spk\<rparr>, \<lparr>nValue = 99900000 - a, scriptPubKey = [0x6a]\<rparr>],
      nLockTime = 0, hash_cached = zero256, hash_valid = False\<rparr>
    in CheckTransactionBasic tx = Inr () \<and> CheckTransactionInputs g utxo h now tx = Inr 100000"
proof -
  define tx where "tx = \<lparr>nVersion = 1, vin = [\<lparr>prevout = p, scriptSig = ss, nSequence = 0xFFFFFFFF\<rparr>],
      vout = [\<lparr>nValue = a, scriptPubKey = spk\<rparr>, \<lparr>nValue = 99900000 - a, scriptPubKey = [0x6a]\<rparr>],
      nLockTime = 0, hash_cached = zero256, hash_valid = False\<rparr>"
  have m: "MoneyRange 0" "MoneyRange 100000" "MoneyRange 100000000" by (simp_all add: MoneyRange_iff)
  have spk: "length spk = 25" "spk \<noteq> []" "spk ! 0 \<noteq> 0x6a"
    using assms(8) by (auto simp: IsPayToPublicKeyHash_def OP_DUP_def)
  have size: "GetSerializedSize tx = 5362"
    using assms(7) spk(1) by (simp add: GetSerializedSize_sum tx_def CompactSizeLen_def)
  have "CheckOutputValues 0 (vout tx) = Inr ()"
    unfolding CheckOutputValues_iff [OF m(1)] using assms(5,6) spk by (simp add: tx_def IsOpReturn_def)
  then have "CheckTransactionBasic tx = Inr ()"
    using assms(4) size by (simp add: CheckTransactionBasic_def tx_def CTransaction_IsNull_def IsCoinBase_def MAX_OUTPUT_COUNT_def
        MAX_TRANSACTION_SIZE_def CheckDuplicateInputs_def)
  moreover have "CheckFee tx 100000 True = Inr ()"
    using size by (simp add: CheckFee_def min_fee_unat MIN_RELAY_TX_FEE_def MAX_REASONABLE_FEE_def)
  then have "CheckTransactionInputs g utxo h now tx = Inr 100000"
    using assms(1-4) m by (simp add: CheckTransactionInputs_def tx_def IsCoinBase_def CheckLocktime_def Let_def)
  ultimately show ?thesis unfolding tx_def [symmetric] Let_def by blast
qed


text \<open>
  The size estimate of the wallet is exact for the transactions it makes: with scripts of 5265 bytes in all inputs and
  of 25 bytes in all outputs, the estimate is the serialized size.
\<close>

theorem estimate_exact:
  assumes "\<forall>i \<in> set (vin tx). length (scriptSig i) = 5265" "\<forall>o' \<in> set (vout tx). length (scriptPubKey o') = 25"
  shows "EstimateDilithiumTxSize (length (vin tx)) (length (vout tx)) 0 = GetSerializedSize tx"
proof -
  have "sum_list (map (\<lambda>i. 40 + CompactSizeLen (length (scriptSig i)) + length (scriptSig i)) (vin tx)) = length (vin tx) * 5308"
    using assms(1) by (induction "vin tx") (simp_all add: CompactSizeLen_def sum_list_triv cong: map_cong)
  moreover have "sum_list (map (\<lambda>o'. 8 + CompactSizeLen (length (scriptPubKey o')) + length (scriptPubKey o')) (vout tx)) = length (vout tx) * 34"
    using assms(2) by (induction "vout tx") (simp_all add: CompactSizeLen_def sum_list_triv cong: map_cong)
  ultimately show ?thesis by (simp add: EstimateDilithiumTxSize_def GetSerializedSize_sum CompactSizeLen_VarInt)
qed

section \<open>Examples\<close>

definition ex_legacy :: bytes where
  "ex_legacy = 0xED # 0x0C # replicate 3309 1 @ 0xA0 # 0x07 # replicate 1952 2"

definition ex_pay :: "u32 list \<Rightarrow> u64 \<Rightarrow> CTransaction" where
  "ex_pay ns v = CTransaction_default\<lparr>
     vin := map (\<lambda>n. \<lparr>prevout = \<lparr>op_hash = replicate 32 7, op_n = n\<rparr>, scriptSig = ex_legacy, nSequence = SEQUENCE_FINAL\<rparr>) ns,
     vout := [ex_out v (replicate 20 3)]\<rparr>"

definition ex_coins :: "COutPoint \<Rightarrow> CUTXOEntry option" where
  "ex_coins p = Some \<lparr>utxo_out = ex_out 100000000 (replicate 20 3), utxo_nHeight = 5, fCoinBase = False\<rparr>"

definition ex_hash :: "bytes \<Rightarrow> uint256" where
  "ex_hash x = replicate 32 3"

lemma ex_legacy_simps [simp]:
  "length ex_legacy = 5265" "IsLegacyScriptSig ex_legacy"
  "unat (ucast (ex_legacy ! 3311) OR push_bit 8 (ucast (ex_legacy ! 3312)) :: u16) = 1952"
  "legacy_sig ex_legacy = replicate 3309 1" "legacy_pk ex_legacy = replicate 1952 2"
proof -
  have n: "ex_legacy ! 3311 = 0xA0" "ex_legacy ! 3312 = 0x07" "ex_legacy ! 0 = 0xED" "ex_legacy ! 1 = 0x0C"
    by (simp_all add: ex_legacy_def nth_append)
  show l: "length ex_legacy = 5265" by (simp add: ex_legacy_def)
  show "unat (ucast (ex_legacy ! 3311) OR push_bit 8 (ucast (ex_legacy ! 3312)) :: u16) = 1952"
    unfolding n by (simp add: push_bit_eq_mult)
  show "IsLegacyScriptSig ex_legacy" unfolding IsLegacyScriptSig_def n l by (simp add: push_bit_eq_mult script_limits)
  show "legacy_sig ex_legacy = replicate 3309 1" "legacy_pk ex_legacy = replicate 1952 2"
    by (simp_all add: ex_legacy_def drop_Cons' take_append)
qed

lemma ex_not_trivial [simp]:
  "\<not> AllZerosOrOnes (replicate 3309 1)" "\<not> AllZerosOrOnes (replicate 1952 2)"
  by (simp_all add: AllZerosOrOnes_def list_all_iff)

lemma ex_p2pkh_script [simp]: "IsPayToPublicKeyHash (scriptPubKey (ex_out v (replicate 20 b)))"
  by (simp add: ex_out_def IsPayToPublicKeyHash_def opcode_defs nth_append)


theorem op_return_inflation_witness:
  "let tx = \<lparr>nVersion = 1, vin = [\<lparr>prevout = \<lparr>op_hash = replicate 32 7, op_n = 0\<rparr>, scriptSig = ex_legacy, nSequence = 0xFFFFFFFF\<rparr>],
      vout = [\<lparr>nValue = 2100000000000000, scriptPubKey = scriptPubKey (ex_out 0 (replicate 20 3))\<rparr>,
        \<lparr>nValue = 99900000 - 2100000000000000, scriptPubKey = [0x6a]\<rparr>],
      nLockTime = 0, hash_cached = zero256, hash_valid = False\<rparr>
    in CheckTransactionBasic tx = Inr () \<and> CheckTransactionInputs (Some Mainnet) ex_coins 9 0 tx = Inr 100000"
  by (rule op_return_inflation [where e = "\<lparr>utxo_out = ex_out 100000000 (replicate 20 3), utxo_nHeight = 5, fCoinBase = False\<rparr>"])
    (simp_all add: ex_coins_def ex_p2pkh_script, simp_all add: ex_out_def COutPoint_IsNull_def IsNull256_def zero256_def)


theorem estimate_exact_witness:
  "EstimateDilithiumTxSize 2 1 0 = GetSerializedSize (ex_pay [0, 1] 5)"
  using estimate_exact [of "ex_pay [0, 1] 5"] by (simp add: ex_pay_def ex_out_def numeral_2_eq_2)

end
