(* ===== verification/BatchVerifier.thy ===== *)
theory BatchVerifier
  imports TxValidation "HOL-Library.Multiset"
begin

text \<open>
  \<open>src/src/consensus/signature_batch_verifier.cpp\<close>: the pool of threads that verifies the signatures of a transaction.
  A state holds what the threads share (the queue, the atomic counter and flag, the error text, which is given by the
  input it names) and where every thread is: the workers in \<open>WorkerThread\<close>, the caller between \<open>BeginBatch\<close> and the
  return of \<open>Wait\<close>. One step of a thread is one access to the shared state; a thread that cannot move has no step.
  A worker that waits for \<open>m_queue_cv\<close> is idle until the queue has a task: the queue is changed and tested under one
  mutex. \<open>m_complete_cv\<close> is different, because the workers notify without the mutex of the caller: the caller can be
  between its test and its sleep. The model covers the time between \<open>Start\<close> and \<open>Stop\<close>.
\<close>

section \<open>Threads\<close>

datatype worker =
    Idle                        \<comment> \<open>waits for a task\<close>
  | Verifying CSignatureTask    \<comment> \<open>took a task from the queue\<close>
  | Storing CSignatureTask      \<comment> \<open>was the first to fail, before the error is stored\<close>
  | Finishing                   \<comment> \<open>before the counter is decremented\<close>
  | Notifying                   \<comment> \<open>saw the counter at zero\<close>

datatype caller =
    Adding "CSignatureTask list"                  \<comment> \<open>tasks still to add\<close>
  | Pushing CSignatureTask "CSignatureTask list"  \<comment> \<open>counted a task, before it is in the queue\<close>
  | Testing                                       \<comment> \<open>in \<open>Wait\<close>, before the counter is read\<close>
  | Blocking                                      \<comment> \<open>read a counter above zero, before the sleep\<close>
  | Sleeping
  | Deciding                                      \<comment> \<open>read zero, before the flag is read\<close>
  | Reporting                                     \<comment> \<open>read a set flag, before the error is copied\<close>
  | Returned bool "nat option"

record CSignatureBatchVerifier =
  m_queue :: "CSignatureTask list"
  m_pending_count :: u64
  m_batch_failed :: bool
  m_first_error :: "nat option"
  m_workers :: "worker list"
  m_caller :: caller

definition MAX_WORKERS :: nat where "MAX_WORKERS = 16"

definition CSignatureBatchVerifier_new :: "nat \<Rightarrow> nat" where
  "CSignatureBatchVerifier_new num_workers =
     (let n = min num_workers MAX_WORKERS in if n = 0 then 1 else n)"

definition Start :: "nat \<Rightarrow> CSignatureBatchVerifier" where
  "Start num_workers = \<lparr>m_queue = [], m_pending_count = 0, m_batch_failed = False, m_first_error = None,
     m_workers = replicate (CSignatureBatchVerifier_new num_workers) Idle, m_caller = Returned True None\<rparr>"

definition BeginBatch :: "CSignatureTask list \<Rightarrow> CSignatureBatchVerifier \<Rightarrow> CSignatureBatchVerifier" where
  "BeginBatch tasks s = s\<lparr>m_pending_count := 0, m_batch_failed := False, m_first_error := None, m_caller := Adding tasks\<rparr>"

definition Add_Wait :: "CSignatureBatchVerifier \<Rightarrow> CSignatureBatchVerifier option" where
  "Add_Wait s =
     (case m_caller s of
        Adding (task # tasks) \<Rightarrow> Some (s\<lparr>m_pending_count := m_pending_count s + 1, m_caller := Pushing task tasks\<rparr>)
      | Pushing task tasks \<Rightarrow> Some (s\<lparr>m_queue := m_queue s @ [task], m_caller := Adding tasks\<rparr>)
      | Adding [] \<Rightarrow> Some (s\<lparr>m_caller := Testing\<rparr>)
      | Testing \<Rightarrow> Some (s\<lparr>m_caller := (if m_pending_count s = 0 then Deciding else Blocking)\<rparr>)
      | Blocking \<Rightarrow> Some (s\<lparr>m_caller := Sleeping\<rparr>)
      | Sleeping \<Rightarrow> None
      | Deciding \<Rightarrow> Some (s\<lparr>m_caller := (if m_batch_failed s then Reporting else Returned True None)\<rparr>)
      | Reporting \<Rightarrow> Some (s\<lparr>m_caller := Returned False (m_first_error s)\<rparr>)
      | Returned _ _ \<Rightarrow> None)"

definition WorkerThread ::
    "(bytes \<Rightarrow> bytes \<Rightarrow> bytes \<Rightarrow> int) \<Rightarrow> nat \<Rightarrow> CSignatureBatchVerifier \<Rightarrow> CSignatureBatchVerifier option" where
  "WorkerThread verify i s =
     (let goto = (\<lambda>w s. s\<lparr>m_workers := (m_workers s)[i := w]\<rparr>)
      in case m_workers s ! i of
           Idle \<Rightarrow> (case m_queue s of [] \<Rightarrow> None | task # q \<Rightarrow> Some (goto (Verifying task) (s\<lparr>m_queue := q\<rparr>)))
         | Verifying task \<Rightarrow>
             Some (if VerifySingle verify task then goto Finishing s
                   else if \<not> m_batch_failed s then goto (Storing task) (s\<lparr>m_batch_failed := True\<rparr>)
                   else goto Finishing s)
         | Storing task \<Rightarrow> Some (goto Finishing (s\<lparr>m_first_error := Some (task_input_index task)\<rparr>))
         | Finishing \<Rightarrow>
             (let remaining = m_pending_count s - 1
              in Some (goto (if remaining = 0 then Notifying else Idle) (s\<lparr>m_pending_count := remaining\<rparr>)))
         | Notifying \<Rightarrow> Some (goto Idle (if m_caller s = Sleeping then s\<lparr>m_caller := Testing\<rparr> else s)))"

text \<open>A step of one of the threads, and the spurious wake-up that condition variables allow.\<close>

inductive step ::
    "(bytes \<Rightarrow> bytes \<Rightarrow> bytes \<Rightarrow> int) \<Rightarrow> CSignatureBatchVerifier \<Rightarrow> CSignatureBatchVerifier \<Rightarrow> bool"
  for verify where
  caller: "Add_Wait s = Some s' \<Longrightarrow> step verify s s'"
| worker: "i < length (m_workers s) \<Longrightarrow> WorkerThread verify i s = Some s' \<Longrightarrow> step verify s s'"

inductive spurious :: "CSignatureBatchVerifier \<Rightarrow> CSignatureBatchVerifier \<Rightarrow> bool" where
  wake: "m_caller s = Sleeping \<Longrightarrow> spurious s (s\<lparr>m_caller := Testing\<rparr>)"

inductive reach ::
    "(bytes \<Rightarrow> bytes \<Rightarrow> bytes \<Rightarrow> int) \<Rightarrow> CSignatureBatchVerifier \<Rightarrow> CSignatureBatchVerifier \<Rightarrow> bool"
  for verify s where
  start: "reach verify s s"
| move: "reach verify s t \<Longrightarrow> step verify t u \<Longrightarrow> reach verify s u"
| stray: "reach verify s t \<Longrightarrow> spurious t u \<Longrightarrow> reach verify s u"

section \<open>Moves of the threads\<close>

text \<open>The moves of a worker as rules on the list of workers split at it.\<close>

lemma WorkerThread_cases:
  assumes "i < length (m_workers s)" "WorkerThread verify i s = Some s'"
  obtains
    (pop) us vs task q where "m_workers s = us @ Idle # vs" "m_queue s = task # q"
      "s' = s\<lparr>m_queue := q, m_workers := us @ Verifying task # vs\<rparr>"
  | (valid) us vs task where "m_workers s = us @ Verifying task # vs" "VerifySingle verify task"
      "s' = s\<lparr>m_workers := us @ Finishing # vs\<rparr>"
  | (fail) us vs task where "m_workers s = us @ Verifying task # vs" "\<not> VerifySingle verify task" "\<not> m_batch_failed s"
      "s' = s\<lparr>m_batch_failed := True, m_workers := us @ Storing task # vs\<rparr>"
  | (fail_again) us vs task where "m_workers s = us @ Verifying task # vs" "\<not> VerifySingle verify task" "m_batch_failed s"
      "s' = s\<lparr>m_workers := us @ Finishing # vs\<rparr>"
  | (store) us vs task where "m_workers s = us @ Storing task # vs"
      "s' = s\<lparr>m_first_error := Some (task_input_index task), m_workers := us @ Finishing # vs\<rparr>"
  | (finish) us vs where "m_workers s = us @ Finishing # vs"
      "s' = s\<lparr>m_pending_count := m_pending_count s - 1,
         m_workers := us @ (if m_pending_count s - 1 = 0 then Notifying else Idle) # vs\<rparr>"
  | (notify) us vs where "m_workers s = us @ Notifying # vs"
      "s' = s\<lparr>m_caller := (if m_caller s = Sleeping then Testing else m_caller s), m_workers := us @ Idle # vs\<rparr>"
proof -
  let ?us = "take i (m_workers s)" and ?vs = "drop (Suc i) (m_workers s)"
  have w: "m_workers s = ?us @ (m_workers s ! i) # ?vs" using assms(1) by (rule id_take_nth_drop)
  have u: "(m_workers s)[i := x] = ?us @ x # ?vs" for x using assms(1) by (rule upd_conv_take_nth_drop)
  show thesis
  proof (cases "m_workers s ! i")
    case Idle
    with assms(2) w u show ?thesis by (cases "m_queue s") (auto simp: WorkerThread_def intro: pop)
  next
    case (Verifying task)
    with assms(2) w u show ?thesis
      by (cases "VerifySingle verify task"; cases "m_batch_failed s")
        (auto simp: WorkerThread_def intro: valid fail fail_again)
  next
    case (Storing task)
    with assms(2) w u show ?thesis by (auto simp: WorkerThread_def intro: store)
  next
    case Finishing
    with assms(2) w u show ?thesis by (auto simp: WorkerThread_def Let_def intro: finish)
  next
    case Notifying
    with assms(2) w u show ?thesis by (auto simp: WorkerThread_def intro: notify)
  qed
qed

section \<open>The invariant of a batch\<close>

fun holding :: "worker \<Rightarrow> CSignatureTask list" where
  "holding (Verifying t) = [t]"
| "holding _ = []"

fun storing :: "worker \<Rightarrow> CSignatureTask list" where
  "storing (Storing t) = [t]"
| "storing _ = []"

fun counted :: "worker \<Rightarrow> nat" where
  "counted (Verifying _) = 1"
| "counted (Storing _) = 1"
| "counted Finishing = 1"
| "counted _ = 0"

fun to_add :: "caller \<Rightarrow> CSignatureTask list" where
  "to_add (Adding ts) = ts"
| "to_add (Pushing t ts) = t # ts"
| "to_add _ = []"

fun reserved :: "caller \<Rightarrow> nat" where
  "reserved (Pushing _ _) = 1"
| "reserved _ = 0"

fun past_wait :: "caller \<Rightarrow> bool" where
  "past_wait Deciding = True"
| "past_wait Reporting = True"
| "past_wait (Returned _ _) = True"
| "past_wait _ = False"

abbreviation outstanding :: "CSignatureBatchVerifier \<Rightarrow> nat" where
  "outstanding s \<equiv> length (m_queue s) + sum_list (map counted (m_workers s))"

abbreviation stored :: "CSignatureBatchVerifier \<Rightarrow> CSignatureTask list" where
  "stored s \<equiv> concat (map storing (m_workers s))"

text \<open>
  \<open>d\<close> are the tasks whose verification is over: with the tasks held by workers, in the queue and still to add they are
  the tasks of the batch. The counter is the number of outstanding tasks, the flag says whether one of \<open>d\<close> is invalid,
  and the error names one of those, unless the thread that set the flag is still about to store it.
\<close>

definition batch_inv ::
    "(bytes \<Rightarrow> bytes \<Rightarrow> bytes \<Rightarrow> int) \<Rightarrow> CSignatureTask list \<Rightarrow> CSignatureTask multiset \<Rightarrow> CSignatureBatchVerifier \<Rightarrow> bool" where
  "batch_inv verify tasks d s \<longleftrightarrow>
     mset tasks = d + mset (concat (map holding (m_workers s))) + mset (m_queue s) + mset (to_add (m_caller s)) \<and>
     unat (m_pending_count s) = outstanding s + reserved (m_caller s) \<and>
     outstanding s + length (to_add (m_caller s)) \<le> length tasks \<and>
     (m_batch_failed s \<longleftrightarrow> (\<exists>t \<in># d. \<not> VerifySingle verify t)) \<and>
     (if m_batch_failed s
      then (\<exists>t \<in># d. \<not> VerifySingle verify t \<and> (stored s = [t] \<or> stored s = [] \<and> m_first_error s = Some (task_input_index t)))
      else stored s = [] \<and> m_first_error s = None) \<and>
     (past_wait (m_caller s) \<longrightarrow> m_pending_count s = 0) \<and>
     (m_caller s = Reporting \<longrightarrow> m_batch_failed s) \<and>
     (\<forall>ok err. m_caller s = Returned ok err \<longrightarrow> ok = (\<not> m_batch_failed s) \<and> err = m_first_error s)"

lemmas batch_invD = batch_inv_def [THEN iffD1]

lemma unat_pred: "v \<noteq> 0 \<Longrightarrow> unat (v - 1 :: u64) = unat v - 1"
  by (simp add: unat_sub word_le_nat_alt unat_gt_0 Suc_leI)

lemma unat_incr: "unat (v :: u64) + 1 < 2 ^ 64 \<Longrightarrow> unat (v + 1) = unat v + 1"
  by (simp add: unat_word_ariths)

lemma batch_inv_caller:
  assumes "batch_inv verify tasks d s" "Add_Wait s = Some s'" "length tasks < 2 ^ 64"
  shows "batch_inv verify tasks d s'"
proof (cases "m_caller s")
  case (Adding ts)
  show ?thesis
  proof (cases ts)
    case (Cons t ts')
    then have "unat (m_pending_count s) + 1 < 2 ^ 64" using assms Adding by (simp add: batch_inv_def)
    then have "unat (m_pending_count s + 1) = unat (m_pending_count s) + 1" by (rule unat_incr)
    then show ?thesis using assms Adding Cons by (auto simp: batch_inv_def Add_Wait_def)
  qed (use assms Adding in \<open>auto simp: batch_inv_def Add_Wait_def\<close>)
next
  case (Pushing t ts)
  then show ?thesis using assms by (auto simp: batch_inv_def Add_Wait_def)
next
  case Reporting
  then show ?thesis using assms by (auto simp: batch_inv_def Add_Wait_def unat_eq_0)
qed (use assms in \<open>auto simp: batch_inv_def Add_Wait_def split: if_splits\<close>)

lemma busy_outstanding:
  assumes "batch_inv verify tasks d s" "m_workers s = us @ w # vs" "counted w = 1"
  shows "m_pending_count s \<noteq> 0 \<and> \<not> past_wait (m_caller s)"
  using assms by (auto simp: batch_inv_def)

lemma stored_Nil: "\<forall>w \<in> set ws. storing w = [] \<Longrightarrow> concat (map storing ws) = []"
  by simp

lemma batch_inv_worker:
  assumes "batch_inv verify tasks d s" "i < length (m_workers s)" "WorkerThread verify i s = Some s'"
  shows "\<exists>d. batch_inv verify tasks d s'"
  using assms(2,3)
proof (cases rule: WorkerThread_cases)
  case (pop us vs task q)
  then have "batch_inv verify tasks d s'" using assms(1) by (auto simp: batch_inv_def)
  then show ?thesis ..
next
  case (valid us vs task)
  then have "\<not> past_wait (m_caller s)" using busy_outstanding [OF assms(1) valid(1)] by simp
  then have "batch_inv verify tasks (add_mset task d) s'" using assms(1) valid by (auto simp: batch_inv_def)
  then show ?thesis ..
next
  case (fail us vs task)
  then have "\<not> past_wait (m_caller s)" using busy_outstanding [OF assms(1) fail(1)] by simp
  then have "batch_inv verify tasks (add_mset task d) s'" using assms(1) fail by (auto simp: batch_inv_def stored_Nil)
  then show ?thesis ..
next
  case (fail_again us vs task)
  then have "\<not> past_wait (m_caller s)" using busy_outstanding [OF assms(1) fail_again(1)] by simp
  then have "batch_inv verify tasks (add_mset task d) s'" using assms(1) fail_again by (auto simp: batch_inv_def)
  then show ?thesis ..
next
  case (store us vs task)
  then have "\<not> past_wait (m_caller s)" using busy_outstanding [OF assms(1) store(1)] by simp
  then have "batch_inv verify tasks d s'" using assms(1) store by (auto simp: batch_inv_def append_eq_Cons_conv split: if_splits)
  then show ?thesis ..
next
  case (finish us vs)
  then have p: "m_pending_count s \<noteq> 0" "\<not> past_wait (m_caller s)" using busy_outstanding [OF assms(1) finish(1)] by simp_all
  then have "batch_inv verify tasks d s'" using assms(1) finish unat_pred [OF p(1)] by (auto simp: batch_inv_def)
  then show ?thesis ..
next
  case (notify us vs)
  then have "batch_inv verify tasks d s'" using assms(1) by (auto simp: batch_inv_def)
  then show ?thesis ..
qed

lemma batch_inv_reach:
  assumes "reach verify s t" "batch_inv verify tasks d s" "length tasks < 2 ^ 64"
  shows "\<exists>d. batch_inv verify tasks d t"
  using assms(1)
proof induction
  case (move t u)
  then obtain d where d: "batch_inv verify tasks d t" by blast
  from move(2) show ?case
  proof cases
    case caller
    then show ?thesis using batch_inv_caller [OF d _ assms(3)] by blast
  next
    case (worker i)
    then show ?thesis using batch_inv_worker [OF d] by blast
  qed
next
  case (stray t u)
  then obtain d where "batch_inv verify tasks d t" by blast
  with stray(2) have "batch_inv verify tasks d u" by (auto elim!: spurious.cases simp: batch_inv_def)
  then show ?case ..
qed (use assms(2) in blast)

text \<open>A batch that begins while nothing of an earlier one is left.\<close>

definition quiet :: "CSignatureBatchVerifier \<Rightarrow> bool" where
  "quiet s \<longleftrightarrow> m_queue s = [] \<and> set (m_workers s) \<subseteq> {Idle} \<and> m_workers s \<noteq> []"

lemma quiet_workers:
  assumes "set ws \<subseteq> {Idle}"
  shows "concat (map holding ws) = []" "concat (map storing ws) = []" "sum_list (map counted ws) = 0"
  using assms by (induction ws) auto

lemma quiet_Start: "quiet (Start n)"
  by (auto simp: quiet_def Start_def CSignatureBatchVerifier_new_def Let_def)

lemma batch_inv_BeginBatch: "quiet s \<Longrightarrow> batch_inv verify tasks {#} (BeginBatch tasks s)"
  by (simp add: batch_inv_def BeginBatch_def quiet_def quiet_workers del: concat_eq_Nil_conv)

lemma batch_returned:
  assumes "batch_inv verify tasks d s" "m_caller s = Returned ok err"
  shows "ok = list_all (VerifySingle verify) tasks \<and>
    (if ok then err = None else \<exists>t \<in> set tasks. \<not> VerifySingle verify t \<and> err = Some (task_input_index t))"
proof -
  note inv = assms(1) [unfolded batch_inv_def]
  have "unat (m_pending_count s) = outstanding s + reserved (m_caller s)" using inv by blast
  moreover have "m_pending_count s = 0" using inv assms(2) by simp
  ultimately have z: "m_queue s = []" "\<forall>w \<in> set (m_workers s). counted w = 0" by simp_all
  have "holding w = [] \<and> storing w = []" if "counted w = 0" for w
    using that by (cases w) simp_all
  then have n: "concat (map holding (m_workers s)) = []" "stored s = []" using z(2) by simp_all
  have "mset tasks = d" using inv unfolding n(1) z(1) assms(2) by simp
  then have d: "\<And>t. t \<in># d \<longleftrightarrow> t \<in> set tasks" by auto
  have f: "m_batch_failed s \<longleftrightarrow> (\<exists>t \<in># d. \<not> VerifySingle verify t)" "ok = (\<not> m_batch_failed s)" "err = m_first_error s"
    using inv assms(2) by blast+
  have e: "if m_batch_failed s then \<exists>t \<in># d. \<not> VerifySingle verify t \<and> m_first_error s = Some (task_input_index t)
      else m_first_error s = None"
    using inv unfolding n(2) by (auto split: if_splits)
  show ?thesis using e f d unfolding list_all_iff by (auto split: if_splits)
qed

section \<open>Progress\<close>

fun worker_steps :: "worker \<Rightarrow> nat" where
  "worker_steps Idle = 0"
| "worker_steps Notifying = 5"
| "worker_steps Finishing = 6"
| "worker_steps (Storing _) = 7"
| "worker_steps (Verifying _) = 8"

fun caller_steps :: "caller \<Rightarrow> nat" where
  "caller_steps (Adding ts) = 6 + 11 * length ts"
| "caller_steps (Pushing t ts) = 16 + 11 * length ts"
| "caller_steps Testing = 5"
| "caller_steps Blocking = 2"
| "caller_steps Sleeping = 1"
| "caller_steps Deciding = 3"
| "caller_steps Reporting = 2"
| "caller_steps (Returned _ _) = 0"

definition steps_left :: "CSignatureBatchVerifier \<Rightarrow> nat" where
  "steps_left s = 9 * length (m_queue s) + sum_list (map worker_steps (m_workers s)) + caller_steps (m_caller s)"

lemma step_decreases:
  assumes "step verify s s'"
  shows "steps_left s' < steps_left s"
  using assms
proof (cases rule: step.cases)
  case caller
  then show ?thesis
    by (cases "m_caller s") (auto simp: Add_Wait_def steps_left_def split: list.splits)
next
  case (worker i)
  then show ?thesis by (cases rule: WorkerThread_cases) (auto simp: steps_left_def)
qed

lemma steps_bound: "(step verify ^^ n) s t \<Longrightarrow> n + steps_left t \<le> steps_left s"
proof (induction n arbitrary: t)
  case (Suc n)
  then obtain u where "(step verify ^^ n) s u" "step verify u t" by auto
  with Suc.IH [of u] step_decreases [of verify u t] show ?case by simp
qed simp

lemma worker_stuck:
  assumes "\<And>s'. \<not> step verify s s'" "w \<in> set (m_workers s)"
  shows "w = Idle \<and> m_queue s = []"
proof -
  obtain i where i: "i < length (m_workers s)" "m_workers s ! i = w" using assms(2) by (auto simp: in_set_conv_nth)
  have "WorkerThread verify i s = None" using assms(1) i(1) step.worker by (metis option.exhaust)
  then show ?thesis using i(2) by (cases w) (auto simp: WorkerThread_def Let_def split: list.splits if_splits)
qed

lemma stuck_states:
  assumes "\<And>s'. \<not> step verify s s'" "batch_inv verify tasks d s" "m_workers s \<noteq> []"
  shows "(\<exists>ok err. m_caller s = Returned ok err) \<or> m_caller s = Sleeping \<and> m_pending_count s = 0"
proof -
  have "Add_Wait s = None" using assms(1) step.caller by (metis option.exhaust)
  then consider "\<exists>ok err. m_caller s = Returned ok err" | "m_caller s = Sleeping"
    by (auto simp: Add_Wait_def split: caller.splits list.splits)
  then show ?thesis
  proof cases
    case 2
    have w: "\<forall>w \<in> set (m_workers s). w = Idle \<and> m_queue s = []" using worker_stuck [OF assms(1)] by blast
    then have "m_queue s = []" using assms(3) by (metis list.set_intros(1) neq_Nil_conv)
    moreover have "sum_list (map counted (m_workers s)) = 0" using w by (intro quiet_workers) blast
    moreover have "unat (m_pending_count s) = outstanding s" using 2 assms(2) by (simp add: batch_inv_def)
    ultimately have "unat (m_pending_count s) = 0" by (simp del: sum_list_eq_0_iff)
    then show ?thesis using 2 by (simp add: unat_eq_0)
  qed blast
qed

lemma step_workers:
  assumes "step verify s s'"
  shows "length (m_workers s') = length (m_workers s)"
  using assms
proof (cases rule: step.cases)
  case caller
  then show ?thesis by (auto simp: Add_Wait_def split: caller.splits list.splits)
next
  case (worker i)
  then show ?thesis by (cases rule: WorkerThread_cases) auto
qed

lemma reach_workers: "reach verify s t \<Longrightarrow> length (m_workers t) = length (m_workers s)"
  by (induction rule: reach.induct) (auto simp: step_workers elim!: spurious.cases)

lemma steps_reach: "(step verify ^^ n) s t \<Longrightarrow> reach verify s t"
  by (induction n arbitrary: t) (auto intro: reach.intros)

section \<open>Properties\<close>


text \<open>
  C39: the threads come to rest. From any state at most \<open>steps_left\<close> steps are possible, that is 11 per task to add and
  a constant; and when a batch is at rest, its caller has returned, or it sleeps although the counter is zero: nothing
  but a spurious wake-up can then end \<open>Wait\<close>. The second case does occur, already with one task and one worker (\<open>lost_wakeup\<close>).
\<close>

theorem batch_ends:
  assumes "quiet s" "length tasks < 2 ^ 64" "(step verify ^^ n) (BeginBatch tasks s) t"
  shows "n \<le> 6 + 11 * length tasks \<and>
    ((\<nexists>u. step verify t u) \<longrightarrow>
      (\<exists>ok err. m_caller t = Returned ok err) \<or> m_caller t = Sleeping \<and> m_pending_count t = 0)"
proof -
  have "steps_left (BeginBatch tasks s) = 6 + 11 * length tasks"
    using assms(1) by (auto simp: steps_left_def BeginBatch_def quiet_def intro!: sum_list_0 [THEN sym, THEN trans])
  moreover note r = steps_reach [OF assms(3)]
  obtain d where "batch_inv verify tasks d t"
    using batch_inv_reach [OF r batch_inv_BeginBatch [OF assms(1)] assms(2)] by blast
  moreover have "m_workers t \<noteq> []" using reach_workers [OF r] assms(1) by (auto simp: BeginBatch_def quiet_def)
  ultimately show ?thesis using steps_bound [OF assms(3)] stuck_states [of verify t tasks d] by auto
qed

section \<open>Runs of a schedule\<close>

datatype thread = Caller | Worker nat

fun run ::
    "(bytes \<Rightarrow> bytes \<Rightarrow> bytes \<Rightarrow> int) \<Rightarrow> thread list \<Rightarrow> CSignatureBatchVerifier \<Rightarrow> CSignatureBatchVerifier option" where
  "run verify [] s = Some s"
| "run verify (Caller # ts) s = Option.bind (Add_Wait s) (run verify ts)"
| "run verify (Worker i # ts) s =
     (if i < length (m_workers s) then Option.bind (WorkerThread verify i s) (run verify ts) else None)"

lemma run_steps: "run verify ts s = Some t \<Longrightarrow> (step verify ^^ length ts) s t"
proof (induction ts arbitrary: s)
  case (Cons a ts)
  then obtain u where "step verify s u" "run verify ts u = Some t"
    by (cases a) (auto simp: bind_eq_Some_conv intro: step.intros split: if_splits)
  then show ?case using Cons.IH relpowp_Suc_I2 [of "step verify"] by fastforce
qed simp

lemmas run_reach = steps_reach [OF run_steps]

lemmas run_simps = Add_Wait_def WorkerThread_def BeginBatch_def Start_def CSignatureBatchVerifier_new_def MAX_WORKERS_def Let_def

lemma lost_wakeup:
  assumes "VerifySingle verify task"
  shows "\<exists>t. reach verify (BeginBatch [task] (Start 1)) t \<and> m_caller t = Sleeping \<and> m_pending_count t = 0 \<and> (\<nexists>u. step verify t u)"
proof -
  let ?t = "(BeginBatch [task] (Start 1))\<lparr>m_caller := Sleeping\<rparr>"
  have "run verify [Caller, Caller, Caller, Caller, Worker 0, Worker 0, Worker 0, Worker 0, Caller] (BeginBatch [task] (Start 1)) = Some ?t"
    using assms by (simp add: run_simps)
  note r = run_reach [OF this]
  have "\<not> step verify ?t u" for u by (auto elim!: step.cases simp: run_simps)
  with r show ?thesis by (intro exI [of _ ?t]) (simp add: BeginBatch_def)
qed

text \<open>
  C40: an abandoned batch spoils the next one. \<open>BatchVerifyScripts\<close> returns early when the data of an input cannot be
  prepared, after it has added the tasks of the inputs before; these stay in the queue and later decrement the counter
  of the next batch. The next batch then returns true before its own signature, which is invalid, has been looked at.
\<close>

theorem abandoned_batch_accepts:
  assumes "VerifySingle verify old" "\<not> VerifySingle verify bad"
  shows "\<exists>s t. reach verify (BeginBatch [old] (Start 1)) s \<and> m_caller s = Adding [] \<and>
    reach verify (BeginBatch [bad] s) t \<and> m_caller t = Returned True None \<and> bad \<in> set (m_queue t)"
proof -
  obtain s where s: "run verify [Caller, Caller] (BeginBatch [old] (Start 1)) = Some s"
      "m_caller s = Adding []" "m_queue s = [old]" "m_workers s = [Idle]"
    by (simp add: run_simps)
  obtain t where t: "run verify [Caller, Caller, Caller, Worker 0, Worker 0, Worker 0, Caller, Caller] (BeginBatch [bad] s) = Some t"
      "m_caller t = Returned True None" "m_queue t = [bad]"
    using s(3,4) assms(1) by (simp add: run_simps)
  show ?thesis using s(2) t(2,3) run_reach [OF s(1)] run_reach [OF t(1)] by (intro exI [of _ s] exI [of _ t]) simp
qed

definition ex_verify :: "bytes \<Rightarrow> bytes \<Rightarrow> bytes \<Rightarrow> int" where
  "ex_verify sig msg pk = (if hd sig = 1 then 0 else - 1)"

definition ex_task :: "byte \<Rightarrow> CSignatureTask" where
  "ex_task b = \<lparr>task_signature = replicate 3309 b, task_message = replicate 32 0, task_pubkey = replicate 1952 2, task_input_index = 0\<rparr>"

lemma ex_task_verify: "VerifySingle ex_verify (ex_task b) \<longleftrightarrow> b = 1"
  by (simp add: VerifySingle_def ex_task_def ex_verify_def script_limits numeral_eq_Suc hd_replicate del: replicate_Suc)

theorem abandoned_batch_accepts_witness:
  "\<exists>s t. reach ex_verify (BeginBatch [ex_task 1] (Start 1)) s \<and> m_caller s = Adding [] \<and>
    reach ex_verify (BeginBatch [ex_task 2] s) t \<and> m_caller t = Returned True None \<and> ex_task 2 \<in> set (m_queue t)"
  by (rule abandoned_batch_accepts) (simp_all add: ex_task_verify)

theorem batch_ends_witness:
  "9 \<le> (6 + 11 * length [ex_task 1] :: nat) \<and>
   (\<exists>t. (step ex_verify ^^ 9) (BeginBatch [ex_task 1] (Start 1)) t \<and> m_caller t = Sleeping \<and> m_pending_count t = 0)"
proof -
  let ?t = "(BeginBatch [ex_task 1] (Start 1))\<lparr>m_caller := Sleeping\<rparr>"
  have "run ex_verify [Caller, Caller, Caller, Caller, Worker 0, Worker 0, Worker 0, Worker 0, Caller] (BeginBatch [ex_task 1] (Start 1)) = Some ?t"
    by (simp add: run_simps ex_task_verify)
  from run_steps [OF this] have s: "(step ex_verify ^^ 9) (BeginBatch [ex_task 1] (Start 1)) ?t" by (simp add: numeral_eq_Suc del: relpowp.simps)
  from batch_ends [OF quiet_Start _ s] s show ?thesis by (intro conjI exI [of _ ?t]) (auto simp: BeginBatch_def Start_def)
qed


end
