(* ===== verification/UtxoSet.thy ===== *)
theory UtxoSet
  imports TxValidation CompactBlock "HOL-Library.AList"
begin

text \<open>
  \<open>src/src/node/utxo_set.cpp\<close>: the set of unspent outputs over a LevelDB database, with its cache of recently used
  entries, the pending additions and deletions, the statistics, and the undo data of applied blocks. LevelDB is a
  parameter \<open>L\<close> with its reads, its atomic batch writes and its iteration; \<open>leveldb_ok\<close> states what its documentation
  promises for a write that reports success. The iterator that the cache keeps into the list of recently used
  outpoints stands for the one place of the outpoint in it. The lock is held for a whole operation and has no part in
  the model; log lines are left out.
\<close>

section \<open>The database\<close>

datatype batch_op = Put bytes bytes | Delete bytes

record 'db leveldb =
  db_Get :: "'db \<Rightarrow> bytes \<Rightarrow> bytes option"
  db_Write :: "'db \<Rightarrow> batch_op list \<Rightarrow> bool \<times> 'db"
  db_Iterate :: "'db \<Rightarrow> (bytes \<times> bytes) list \<times> bool"

fun apply_op :: "batch_op \<Rightarrow> (bytes \<Rightarrow> bytes option) \<Rightarrow> bytes \<Rightarrow> bytes option" where
  "apply_op (Put k v) m = m(k \<mapsto> v)"
| "apply_op (Delete k) m = m(k := None)"

abbreviation apply_ops :: "batch_op list \<Rightarrow> (bytes \<Rightarrow> bytes option) \<Rightarrow> bytes \<Rightarrow> bytes option" where
  "apply_ops ops m \<equiv> fold apply_op ops m"

definition leveldb_ok :: "'db leveldb \<Rightarrow> bool" where
  "leveldb_ok L \<longleftrightarrow> (\<forall>db ops db'. db_Write L db ops = (True, db') \<longrightarrow> db_Get L db' = apply_ops ops (db_Get L db))"

section \<open>State\<close>

record CUTXOStats =
  nUTXOs :: u64
  nTotalAmount :: u64
  st_nHeight :: u32

record 'db CUTXOSet =
  us_db :: "'db option"
  lru_list :: "COutPoint list"
  utxo_cache :: "(COutPoint \<times> CUTXOEntry) list"
  cache_additions :: "(COutPoint \<times> CUTXOEntry) list"
  cache_deletions :: "COutPoint list"
  stats :: CUTXOStats

definition MAX_CACHE_SIZE :: nat where "MAX_CACHE_SIZE = 1000000"

definition CUTXOSet_new :: "'db CUTXOSet" where
  "CUTXOSet_new = \<lparr>us_db = None, lru_list = [], utxo_cache = [], cache_additions = [], cache_deletions = [],
     stats = \<lparr>nUTXOs = 0, nTotalAmount = 0, st_nHeight = 0\<rparr>\<rparr>"

section \<open>Serialization\<close>

definition SerializeOutPoint :: "COutPoint \<Rightarrow> bytes" where
  "SerializeOutPoint outpoint = 0x75 # op_hash outpoint @ le_bytes 4 (unat (op_n outpoint))"

definition SerializeUTXOEntry :: "CUTXOEntry \<Rightarrow> bytes" where
  "SerializeUTXOEntry entry =
     (let script = scriptPubKey (utxo_out entry);
          script_size = of_nat (length script) :: u32
      in le_bytes 4 (unat (utxo_nHeight entry)) @ [if fCoinBase entry then 1 else 0] @
         le_bytes 8 (unat (nValue (utxo_out entry))) @ le_bytes 4 (unat script_size) @
         (if script_size > 0 then take (unat script_size) script else []))"

definition DeserializeUTXOEntry :: "bytes \<Rightarrow> CUTXOEntry option" where
  "DeserializeUTXOEntry data =
     (if length data < 17 then None
      else
        (let height = of_nat (le_val (take 4 data));
             coinbase_flag = data ! 4;
             value = of_nat (le_val (take 8 (drop 5 data)));
             script_size = of_nat (le_val (take 4 (drop 13 data))) :: u32
         in if 17 + unat script_size \<noteq> length data then None
            else Some \<lparr>utxo_out = \<lparr>nValue = value, scriptPubKey = take (unat script_size) (drop 17 data)\<rparr>,
                   utxo_nHeight = height, fCoinBase = coinbase_flag \<noteq> 0\<rparr>))"

definition utxo_stats_key :: bytes where
  "utxo_stats_key = [0x75, 0x74, 0x78, 0x6f, 0x5f, 0x73, 0x74, 0x61, 0x74, 0x73]"

definition UndoKey :: "uint256 \<Rightarrow> bytes" where
  "UndoKey blockHash = [0x75, 0x6e, 0x64, 0x6f, 0x5f] @ blockHash"

definition StatsBytes :: "CUTXOStats \<Rightarrow> bytes" where
  "StatsBytes st = le_bytes 8 (unat (nUTXOs st)) @ le_bytes 8 (unat (nTotalAmount st)) @ le_bytes 4 (unat (st_nHeight st))"

section \<open>Cache\<close>

definition UpdateCache :: "COutPoint \<Rightarrow> CUTXOEntry \<Rightarrow> 'db CUTXOSet \<Rightarrow> 'db CUTXOSet" where
  "UpdateCache outpoint entry s =
     (if map_of (utxo_cache s) outpoint \<noteq> None then
        s\<lparr>lru_list := outpoint # remove1 outpoint (lru_list s), utxo_cache := AList.update outpoint entry (utxo_cache s)\<rparr>
      else
        (let s = (if length (utxo_cache s) \<ge> MAX_CACHE_SIZE
                  then s\<lparr>lru_list := butlast (lru_list s), utxo_cache := AList.delete (last (lru_list s)) (utxo_cache s)\<rparr>
                  else s)
         in s\<lparr>lru_list := outpoint # lru_list s, utxo_cache := AList.update outpoint entry (utxo_cache s)\<rparr>))"

definition RemoveFromCache :: "COutPoint \<Rightarrow> 'db CUTXOSet \<Rightarrow> 'db CUTXOSet" where
  "RemoveFromCache outpoint s =
     (if map_of (utxo_cache s) outpoint \<noteq> None
      then s\<lparr>lru_list := remove1 outpoint (lru_list s), utxo_cache := AList.delete outpoint (utxo_cache s)\<rparr>
      else s)"

definition GetFromCache :: "COutPoint \<Rightarrow> 'db CUTXOSet \<Rightarrow> CUTXOEntry option" where
  "GetFromCache outpoint s = map_of (utxo_cache s) outpoint"

section \<open>Operations on single outputs\<close>

definition StatsAdd :: "CTxOut \<Rightarrow> 'db CUTXOSet \<Rightarrow> 'db CUTXOSet" where
  "StatsAdd out s = s\<lparr>stats := (stats s)\<lparr>nUTXOs := nUTXOs (stats s) + 1, nTotalAmount := nTotalAmount (stats s) + nValue out\<rparr>\<rparr>"

definition StatsSpend :: "CTxOut \<Rightarrow> 'db CUTXOSet \<Rightarrow> 'db CUTXOSet" where
  "StatsSpend out s =
     s\<lparr>stats := (stats s)\<lparr>
        nUTXOs := (if nUTXOs (stats s) > 0 then nUTXOs (stats s) - 1 else nUTXOs (stats s)),
        nTotalAmount := (if nTotalAmount (stats s) \<ge> nValue out then nTotalAmount (stats s) - nValue out else nTotalAmount (stats s))\<rparr>\<rparr>"

definition GetUTXO :: "'db leveldb \<Rightarrow> COutPoint \<Rightarrow> 'db CUTXOSet \<Rightarrow> CUTXOEntry option \<times> 'db CUTXOSet" where
  "GetUTXO L outpoint s =
     (case us_db s of
        None \<Rightarrow> (None, s)
      | Some db \<Rightarrow>
          if outpoint \<in> set (cache_deletions s) then (None, s)
          else
            (case map_of (cache_additions s) outpoint of
               Some entry \<Rightarrow> (Some entry, s)
             | None \<Rightarrow>
                 (case GetFromCache outpoint s of
                    Some entry \<Rightarrow> (Some entry, s)
                  | None \<Rightarrow>
                      (case db_Get L db (SerializeOutPoint outpoint) of
                         None \<Rightarrow> (None, s)
                       | Some value \<Rightarrow>
                           (case DeserializeUTXOEntry value of
                              None \<Rightarrow> (None, s)
                            | Some entry \<Rightarrow> (Some entry, UpdateCache outpoint entry s))))))"

definition HaveUTXO :: "'db leveldb \<Rightarrow> COutPoint \<Rightarrow> 'db CUTXOSet \<Rightarrow> bool \<times> 'db CUTXOSet" where
  "HaveUTXO L outpoint s = (case GetUTXO L outpoint s of (entry, s) \<Rightarrow> (entry \<noteq> None, s))"

definition AddUTXO :: "COutPoint \<Rightarrow> CTxOut \<Rightarrow> u32 \<Rightarrow> bool \<Rightarrow> 'db CUTXOSet \<Rightarrow> bool \<times> 'db CUTXOSet" where
  "AddUTXO outpoint out height coinbase s =
     (if us_db s = None then (False, s)
      else
        (let entry = \<lparr>utxo_out = out, utxo_nHeight = height, fCoinBase = coinbase\<rparr>;
             s = s\<lparr>cache_additions := AList.update outpoint entry (cache_additions s),
                   cache_deletions := removeAll outpoint (cache_deletions s)\<rparr>
         in (True, StatsAdd out (UpdateCache outpoint entry s))))"

definition SpendUTXO :: "'db leveldb \<Rightarrow> COutPoint \<Rightarrow> 'db CUTXOSet \<Rightarrow> bool \<times> 'db CUTXOSet" where
  "SpendUTXO L outpoint s =
     (case us_db s of
        None \<Rightarrow> (False, s)
      | Some db \<Rightarrow>
          (case (case map_of (cache_additions s) outpoint of
                   Some entry \<Rightarrow> Some (entry, s\<lparr>cache_additions := AList.delete outpoint (cache_additions s)\<rparr>)
                 | None \<Rightarrow>
                     (case GetFromCache outpoint s of
                        Some entry \<Rightarrow> Some (entry, s)
                      | None \<Rightarrow>
                          (case db_Get L db (SerializeOutPoint outpoint) of
                             None \<Rightarrow> None
                           | Some value \<Rightarrow> map_option (\<lambda>entry. (entry, s)) (DeserializeUTXOEntry value)))) of
             None \<Rightarrow> (False, s)
           | Some (entry, s) \<Rightarrow>
               (True, StatsSpend (utxo_out entry) (RemoveFromCache outpoint
                  (s\<lparr>cache_deletions := List.insert outpoint (cache_deletions s)\<rparr>)))))"

definition PendingOps :: "'db CUTXOSet \<Rightarrow> batch_op list" where
  "PendingOps s =
     map (\<lambda>(outpoint, entry). Put (SerializeOutPoint outpoint) (SerializeUTXOEntry entry)) (cache_additions s) @
     map (\<lambda>outpoint. Delete (SerializeOutPoint outpoint)) (cache_deletions s)"

definition Flush :: "'db leveldb \<Rightarrow> 'db CUTXOSet \<Rightarrow> bool \<times> 'db CUTXOSet" where
  "Flush L s =
     (case us_db s of
        None \<Rightarrow> (False, s)
      | Some db \<Rightarrow>
          (let batch = PendingOps s @ [Put utxo_stats_key (StatsBytes (stats s))]
           in case db_Write L db batch of
                (ok, db) \<Rightarrow>
                  if \<not> ok then (False, s\<lparr>us_db := Some db\<rparr>)
                  else (True, s\<lparr>us_db := Some db, cache_additions := [], cache_deletions := []\<rparr>)))"

text \<open>\<open>opened\<close> is the answer of \<open>leveldb::DB::Open\<close> for the path.\<close>

definition Open :: "'db leveldb \<Rightarrow> 'db option \<Rightarrow> 'db CUTXOSet \<Rightarrow> bool \<times> 'db CUTXOSet" where
  "Open L opened s =
     (if us_db s \<noteq> None then (True, s)
      else
        (case opened of
           None \<Rightarrow> (False, s)
         | Some db \<Rightarrow>
             (True,
              case db_Get L db utxo_stats_key of
                None \<Rightarrow> s\<lparr>us_db := Some db\<rparr>
              | Some value \<Rightarrow>
                  if length value \<ge> 20
                  then s\<lparr>us_db := Some db,
                         stats := \<lparr>nUTXOs = of_nat (le_val (take 8 value)), nTotalAmount = of_nat (le_val (take 8 (drop 8 value))),
                                   st_nHeight = of_nat (le_val (take 4 (drop 16 value)))\<rparr>\<rparr>
                  else s\<lparr>us_db := Some db\<rparr>)))"

text \<open>The database that \<open>Close\<close> leaves on disk, and the closed set.\<close>

definition Close :: "'db leveldb \<Rightarrow> 'db CUTXOSet \<Rightarrow> 'db option \<times> 'db CUTXOSet" where
  "Close L s =
     (case us_db s of
        None \<Rightarrow> (None, s\<lparr>utxo_cache := [], lru_list := [], cache_additions := [], cache_deletions := [], us_db := None\<rparr>)
      | Some db \<Rightarrow>
          (let db = (if cache_additions s \<noteq> [] \<or> cache_deletions s \<noteq> [] then snd (db_Write L db (PendingOps s)) else db);
               db = snd (db_Write L db [Put utxo_stats_key (StatsBytes (stats s))])
           in (Some db, s\<lparr>utxo_cache := [], lru_list := [], cache_additions := [], cache_deletions := [], us_db := None\<rparr>)))"

section \<open>Applying a block\<close>

definition UndoRecord :: "COutPoint \<Rightarrow> CUTXOEntry \<Rightarrow> bytes" where
  "UndoRecord outpoint entry =
     (let script_len = of_nat (length (scriptPubKey (utxo_out entry))) :: u32
      in op_hash outpoint @ le_bytes 4 (unat (op_n outpoint)) @ le_bytes 8 (unat (nValue (utxo_out entry))) @
         le_bytes 4 (unat script_len) @ scriptPubKey (utxo_out entry) @
         le_bytes 4 (unat (utxo_nHeight entry)) @ [if fCoinBase entry then 1 else 0])"

text \<open>What a block collects on its way: the undo data, the count of spent outputs and the batch.\<close>

record block_work =
  undoData :: bytes
  spentCount :: u32
  bw_batch :: "batch_op list"

fun SpendBlockInputs ::
    "'db leveldb \<Rightarrow> CTxIn list \<Rightarrow> block_work \<Rightarrow> 'db CUTXOSet \<Rightarrow> bool \<times> block_work \<times> 'db CUTXOSet" where
  "SpendBlockInputs L [] w s = (True, w, s)"
| "SpendBlockInputs L (txin # ins) w s =
     (case GetUTXO L (prevout txin) s of
        (None, s) \<Rightarrow> (False, w, s)
      | (Some entry, s) \<Rightarrow>
          SpendBlockInputs L ins
            (w\<lparr>undoData := undoData w @ UndoRecord (prevout txin) entry, spentCount := spentCount w + 1,
               bw_batch := bw_batch w @ [Delete (SerializeOutPoint (prevout txin))]\<rparr>)
            (StatsSpend (utxo_out entry) (RemoveFromCache (prevout txin) s)))"

definition OutputValue :: "u32 \<Rightarrow> bool \<Rightarrow> CTxOut \<Rightarrow> bytes" where
  "OutputValue height is_coinbase txout =
     (let script_len = of_nat (length (scriptPubKey txout)) :: u32
      in le_bytes 4 (unat height) @ [if is_coinbase then 1 else 0] @ le_bytes 8 (unat (nValue txout)) @
         le_bytes 4 (unat script_len) @ take (unat script_len) (scriptPubKey txout) @
         replicate (length (scriptPubKey txout) - unat script_len) 0)"

fun AddBlockOutputs ::
    "uint256 \<Rightarrow> u32 \<Rightarrow> bool \<Rightarrow> nat \<Rightarrow> CTxOut list \<Rightarrow> block_work \<Rightarrow> 'db CUTXOSet \<Rightarrow> block_work \<times> 'db CUTXOSet" where
  "AddBlockOutputs txid height is_coinbase n [] w s = (w, s)"
| "AddBlockOutputs txid height is_coinbase n (txout # outs) w s =
     (let outpoint = \<lparr>op_hash = txid, op_n = of_nat n\<rparr>;
          entry = \<lparr>utxo_out = txout, utxo_nHeight = height, fCoinBase = is_coinbase\<rparr>
      in AddBlockOutputs txid height is_coinbase (Suc n) outs
           (w\<lparr>bw_batch := bw_batch w @ [Put (SerializeOutPoint outpoint) (OutputValue height is_coinbase txout)]\<rparr>)
           (StatsAdd txout (UpdateCache outpoint entry s)))"

fun ApplyTransactions ::
    "'db leveldb \<Rightarrow> (bytes \<Rightarrow> uint256) \<Rightarrow> u32 \<Rightarrow> bool \<Rightarrow> CTransaction list \<Rightarrow> block_work \<Rightarrow> 'db CUTXOSet \<Rightarrow>
     bool \<times> block_work \<times> 'db CUTXOSet" where
  "ApplyTransactions L sha3 height is_coinbase [] w s = (True, w, s)"
| "ApplyTransactions L sha3 height is_coinbase (tx # txs) w s =
     (case (if is_coinbase then (True, w, s) else SpendBlockInputs L (vin tx) w s) of
        (ok, w, s) \<Rightarrow>
          if \<not> ok then (False, w, s)
          else
            (case AddBlockOutputs (TxId sha3 tx) height is_coinbase 0 (vout tx) w s of
               (w, s) \<Rightarrow> ApplyTransactions L sha3 height False txs w s))"

definition ApplyBlock ::
    "'db leveldb \<Rightarrow> (bytes \<Rightarrow> uint256) \<Rightarrow> bytes \<Rightarrow> u32 \<Rightarrow> uint256 \<Rightarrow> 'db CUTXOSet \<Rightarrow> bool \<times> 'db CUTXOSet" where
  "ApplyBlock L sha3 body height blockHash s =
     (if us_db s = None then (False, s)
      else
        (case DeserializeBlockTransactions body of
           Inl _ \<Rightarrow> (False, s)
         | Inr txs \<Rightarrow>
             if txs = [] then (False, s)
             else
               (case ApplyTransactions L sha3 height True txs \<lparr>undoData = [0, 0, 0, 0], spentCount = 0, bw_batch = []\<rparr> s of
                  (ok, w, s) \<Rightarrow>
                    if \<not> ok then (False, s)
                    else
                      (let undo = le_bytes 4 (unat (spentCount w)) @ drop 4 (undoData w);
                           undo = undo @ sha3 undo;
                           batch = bw_batch w @ [Put (UndoKey blockHash) undo];
                           s = s\<lparr>stats := (stats s)\<lparr>st_nHeight := height\<rparr>\<rparr>
                       in case db_Write L (the (us_db s)) batch of
                            (ok, db) \<Rightarrow>
                              if \<not> ok then (False, s\<lparr>us_db := Some db\<rparr>)
                              else Flush L (s\<lparr>us_db := Some db\<rparr>)))))"

section \<open>Undoing a block\<close>

datatype UndoChecksumResult = Valid | SizeInvalid | ChecksumMismatch

definition VerifyUndoChecksum :: "(bytes \<Rightarrow> uint256) \<Rightarrow> bytes \<Rightarrow> UndoChecksumResult" where
  "VerifyUndoChecksum sha3 undoValue =
     (if length undoValue < 36 then SizeInvalid
      else
        (let payloadSize = length undoValue - 32
         in if sha3 (take payloadSize undoValue) \<noteq> drop payloadSize undoValue then ChecksumMismatch else Valid))"

fun RemoveBlockOutputs :: "uint256 \<Rightarrow> nat \<Rightarrow> CTxOut list \<Rightarrow> batch_op list \<Rightarrow> 'db CUTXOSet \<Rightarrow> batch_op list \<times> 'db CUTXOSet" where
  "RemoveBlockOutputs txid n [] ops s = (ops, s)"
| "RemoveBlockOutputs txid n (txout # outs) ops s =
     (let outpoint = \<lparr>op_hash = txid, op_n = of_nat n\<rparr>
      in RemoveBlockOutputs txid (Suc n) outs (ops @ [Delete (SerializeOutPoint outpoint)])
           (StatsSpend txout (RemoveFromCache outpoint s)))"

fun RemoveTransactions :: "(bytes \<Rightarrow> uint256) \<Rightarrow> CTransaction list \<Rightarrow> batch_op list \<Rightarrow> 'db CUTXOSet \<Rightarrow> batch_op list \<times> 'db CUTXOSet" where
  "RemoveTransactions sha3 [] ops s = (ops, s)"
| "RemoveTransactions sha3 (tx # txs) ops s =
     (case RemoveBlockOutputs (TxId sha3 tx) 0 (vout tx) ops s of (ops, s) \<Rightarrow> RemoveTransactions sha3 txs ops s)"

definition ReadUndoRecord :: "bytes \<Rightarrow> unit + (COutPoint \<times> CUTXOEntry) \<times> bytes" where
  "ReadUndoRecord p =
     (if length p < 32 + 4 then Inl ()
      else
        (let outpoint = \<lparr>op_hash = take 32 p, op_n = of_nat (le_val (take 4 (drop 32 p)))\<rparr>; p = drop 36 p
         in if length p < 8 then Inl ()
            else
              (let value = of_nat (le_val (take 8 p)); p = drop 8 p
               in if length p < 4 then Inl ()
                  else
                    (let script_len = of_nat (le_val (take 4 p)) :: u32; p = drop 4 p
                     in if length p < unat script_len then Inl ()
                        else
                          (let script = take (unat script_len) p; p = drop (unat script_len) p
                           in if length p < 4 + 1 then Inl ()
                              else Inr ((outpoint, \<lparr>utxo_out = \<lparr>nValue = value, scriptPubKey = script\<rparr>,
                                          utxo_nHeight = of_nat (le_val (take 4 p)), fCoinBase = p ! 4 \<noteq> 0\<rparr>), drop 5 p))))))"

fun RestoreInputs :: "nat \<Rightarrow> bytes \<Rightarrow> batch_op list \<Rightarrow> 'db CUTXOSet \<Rightarrow> bool \<times> batch_op list \<times> 'db CUTXOSet" where
  "RestoreInputs 0 p ops s = (True, ops, s)"
| "RestoreInputs (Suc n) p ops s =
     (case ReadUndoRecord p of
        Inl _ \<Rightarrow> (False, ops, s)
      | Inr ((outpoint, entry), p) \<Rightarrow>
          RestoreInputs n p
            (ops @ [Put (SerializeOutPoint outpoint) (OutputValue (utxo_nHeight entry) (fCoinBase entry) (utxo_out entry))])
            (StatsAdd (utxo_out entry) (UpdateCache outpoint entry s)))"

definition LowerHeight :: "'db CUTXOSet \<Rightarrow> 'db CUTXOSet" where
  "LowerHeight s = (if st_nHeight (stats s) > 0 then s\<lparr>stats := (stats s)\<lparr>st_nHeight := st_nHeight (stats s) - 1\<rparr>\<rparr> else s)"

definition WriteAndFlush :: "'db leveldb \<Rightarrow> batch_op list \<Rightarrow> 'db CUTXOSet \<Rightarrow> bool \<times> 'db CUTXOSet" where
  "WriteAndFlush L batch s =
     (case db_Write L (the (us_db s)) batch of
        (ok, db) \<Rightarrow> if \<not> ok then (False, s\<lparr>us_db := Some db\<rparr>) else Flush L (s\<lparr>us_db := Some db\<rparr>))"

text \<open>Without undo data only a block whose transactions but the first have no inputs can be undone.\<close>

definition ReconstructUndo :: "'db leveldb \<Rightarrow> (bytes \<Rightarrow> uint256) \<Rightarrow> bytes \<Rightarrow> 'db CUTXOSet \<Rightarrow> bool \<times> 'db CUTXOSet" where
  "ReconstructUndo L sha3 body s =
     (case DeserializeBlockTransactions body of
        Inl _ \<Rightarrow> (False, s)
      | Inr txs \<Rightarrow>
          if txs = [] then (False, s)
          else if list_ex (\<lambda>tx. vin tx \<noteq> []) (tl txs) then (False, s)
          else (case RemoveTransactions sha3 (rev txs) [] s of (ops, s) \<Rightarrow> WriteAndFlush L ops (LowerHeight s)))"

text \<open>\<open>computedHash\<close> is the answer of \<open>block.GetHash()\<close>, under whose name the undo data is looked for in second place.\<close>

definition UndoBlock ::
    "'db leveldb \<Rightarrow> (bytes \<Rightarrow> uint256) \<Rightarrow> bytes \<Rightarrow> uint256 \<Rightarrow> uint256 \<Rightarrow> 'db CUTXOSet \<Rightarrow> bool \<times> 'db CUTXOSet" where
  "UndoBlock L sha3 body computedHash blockHash s =
     (case us_db s of
        None \<Rightarrow> (False, s)
      | Some db \<Rightarrow>
          (let (undoKey, found) =
             (case db_Get L db (UndoKey blockHash) of
                Some value \<Rightarrow> (UndoKey blockHash, Some value)
              | None \<Rightarrow>
                  if computedHash \<noteq> blockHash
                  then (UndoKey computedHash, db_Get L db (UndoKey computedHash)) else (UndoKey blockHash, None))
           in case found of
                None \<Rightarrow> ReconstructUndo L sha3 body s
              | Some undoValue \<Rightarrow>
                  if VerifyUndoChecksum sha3 undoValue \<noteq> Valid then (False, s)
                  else
                    (let data = take (length undoValue - 32) undoValue;
                         spent = of_nat (le_val (take 4 data)) :: u32
                     in case DeserializeBlockTransactions body of
                          Inl _ \<Rightarrow> (False, s)
                        | Inr txs \<Rightarrow>
                            if txs = [] then (False, s)
                            else
                              (case RemoveTransactions sha3 (rev txs) [] s of
                                 (ops, s) \<Rightarrow>
                                   (case RestoreInputs (unat spent) (drop 4 data) ops s of
                                      (ok, ops, s) \<Rightarrow>
                                        if \<not> ok then (False, s)
                                        else WriteAndFlush L (ops @ [Delete undoKey]) (LowerHeight s))))))"

section \<open>Queries\<close>

definition HasUndoData :: "'db leveldb \<Rightarrow> uint256 \<Rightarrow> 'db CUTXOSet \<Rightarrow> bool" where
  "HasUndoData L blockHash s = (case us_db s of None \<Rightarrow> False | Some db \<Rightarrow> db_Get L db (UndoKey blockHash) \<noteq> None)"

definition ReadUndoBlock ::
    "'db leveldb \<Rightarrow> (bytes \<Rightarrow> uint256) \<Rightarrow> uint256 \<Rightarrow> 'db CUTXOSet \<Rightarrow> (COutPoint \<times> CUTXOEntry) list option" where
  "ReadUndoBlock L sha3 blockHash s =
     (case us_db s of
        None \<Rightarrow> None
      | Some db \<Rightarrow>
          (case db_Get L db (UndoKey blockHash) of
             None \<Rightarrow> None
           | Some undoValue \<Rightarrow>
               if length undoValue < 4 + 32 then None
               else
                 (let data = take (length undoValue - 32) undoValue
                  in if drop (length undoValue - 32) undoValue \<noteq> sha3 data then None
                     else
                       (let spent = of_nat (le_val (take 4 data)) :: u32; p = drop 4 data
                        in if unat spent * 53 > length p then None
                           else
                             (case decode_n (unat spent) ReadUndoRecord p of
                                Inl _ \<Rightarrow> None
                              | Inr (records, rest) \<Rightarrow> if rest \<noteq> [] then None else Some records)))))"

datatype undo_cause = Missing | CauseSizeInvalid | CauseChecksumMismatch | DbNotOpen | AbortedForShutdown

definition FetchAndVerifyUndo :: "'db leveldb \<Rightarrow> (bytes \<Rightarrow> uint256) \<Rightarrow> 'db \<Rightarrow> uint256 \<Rightarrow> undo_cause + unit" where
  "FetchAndVerifyUndo L sha3 db blockHash =
     (case db_Get L db (UndoKey blockHash) of
        None \<Rightarrow> Inl Missing
      | Some undoValue \<Rightarrow>
          (case VerifyUndoChecksum sha3 undoValue of
             Valid \<Rightarrow> Inr ()
           | SizeInvalid \<Rightarrow> Inl CauseSizeInvalid
           | ChecksumMismatch \<Rightarrow> Inl CauseChecksumMismatch))"

text \<open>\<open>abort i\<close> is what the stop flag reads when the entry \<open>i\<close> is about to be checked.\<close>

fun VerifySnapshot_loop ::
    "'db leveldb \<Rightarrow> (bytes \<Rightarrow> uint256) \<Rightarrow> 'db \<Rightarrow> (nat \<Rightarrow> bool) \<Rightarrow> nat \<Rightarrow> nat \<Rightarrow> (int \<times> uint256) list \<Rightarrow> undo_cause + unit" where
  "VerifySnapshot_loop L sha3 db abort i reads [] = Inr ()"
| "VerifySnapshot_loop L sha3 db abort i reads ((height, blockHash) # snapshot) =
     (let check = reads + 1 \<ge> 10
      in if check \<and> abort i then Inl AbortedForShutdown
         else bindE (FetchAndVerifyUndo L sha3 db blockHash) (\<lambda>_.
           VerifySnapshot_loop L sha3 db abort (i + 1) (if check then 0 else reads + 1) snapshot))"

definition VerifyUndoDataFromSnapshot ::
    "'db leveldb \<Rightarrow> (bytes \<Rightarrow> uint256) \<Rightarrow> (nat \<Rightarrow> bool) \<Rightarrow> (int \<times> uint256) list \<Rightarrow> 'db CUTXOSet \<Rightarrow> undo_cause + unit" where
  "VerifyUndoDataFromSnapshot L sha3 abort snapshot s =
     (case us_db s of None \<Rightarrow> Inl DbNotOpen | Some db \<Rightarrow> VerifySnapshot_loop L sha3 db abort 0 0 snapshot)"

definition IsUtxoKey :: "bytes \<Rightarrow> bool" where
  "IsUtxoKey key \<longleftrightarrow> key \<noteq> [] \<and> key ! 0 = 0x75 \<and> key \<noteq> utxo_stats_key"

definition UpdateStats :: "'db leveldb \<Rightarrow> 'db CUTXOSet \<Rightarrow> bool \<times> 'db CUTXOSet" where
  "UpdateStats L s =
     (case us_db s of
        None \<Rightarrow> (False, s)
      | Some db \<Rightarrow>
          (let (entries, ok) = db_Iterate L db;
               utxos = List.map_filter (\<lambda>(key, value). if IsUtxoKey key then DeserializeUTXOEntry value else None) entries
           in if \<not> ok then (False, s)
              else (True, s\<lparr>stats := (stats s)\<lparr>nUTXOs := of_nat (length utxos),
                       nTotalAmount := sum_list (map (\<lambda>e. nValue (utxo_out e)) utxos)\<rparr>\<rparr>)))"

definition UTXO_COINBASE_MATURITY :: u32 where "UTXO_COINBASE_MATURITY = 100"

definition IsCoinBaseMature :: "'db leveldb \<Rightarrow> ChainParams option \<Rightarrow> COutPoint \<Rightarrow> u32 \<Rightarrow> 'db CUTXOSet \<Rightarrow> bool \<times> 'db CUTXOSet" where
  "IsCoinBaseMature L g outpoint currentHeight s =
     (case GetUTXO L outpoint s of
        (None, s) \<Rightarrow> (False, s)
      | (Some entry, s) \<Rightarrow>
          (if \<not> fCoinBase entry then True
           else
             (let maturity = (case g of Some p \<Rightarrow> of_int (coinbaseMaturity p) | None \<Rightarrow> UTXO_COINBASE_MATURITY)
              in \<not> currentHeight < utxo_nHeight entry + maturity), s))"

definition CTxOut_IsNull :: "CTxOut \<Rightarrow> bool" where
  "CTxOut_IsNull txout \<longleftrightarrow> nValue txout = 0 \<and> scriptPubKey txout = []"

fun VerifyEntries :: "(bytes \<times> bytes) list \<Rightarrow> bool" where
  "VerifyEntries [] = True"
| "VerifyEntries ((key, value) # entries) =
     (if \<not> IsUtxoKey key then VerifyEntries entries
      else if length key \<noteq> 37 then False
      else
        (case DeserializeUTXOEntry value of
           None \<Rightarrow> False
         | Some entry \<Rightarrow> if CTxOut_IsNull (utxo_out entry) then False else VerifyEntries entries))"

definition VerifyConsistency :: "'db leveldb \<Rightarrow> 'db CUTXOSet \<Rightarrow> bool" where
  "VerifyConsistency L s =
     (case us_db s of
        None \<Rightarrow> False
      | Some db \<Rightarrow> (let (entries, ok) = db_Iterate L db in VerifyEntries entries \<and> ok))"

definition Clear :: "'db leveldb \<Rightarrow> 'db CUTXOSet \<Rightarrow> bool \<times> 'db CUTXOSet" where
  "Clear L s =
     (case us_db s of
        None \<Rightarrow> (False, s)
      | Some db \<Rightarrow>
          (let batch = map (\<lambda>(key, value). Delete key) (filter (\<lambda>(key, value). key \<noteq> [] \<and> key ! 0 = 0x75) (fst (db_Iterate L db)))
           in case db_Write L db batch of
                (ok, db) \<Rightarrow>
                  if \<not> ok then (False, s\<lparr>us_db := Some db\<rparr>)
                  else (True, s\<lparr>us_db := Some db, stats := \<lparr>nUTXOs = 0, nTotalAmount = 0, st_nHeight = 0\<rparr>,
                          utxo_cache := [], lru_list := [], cache_additions := [], cache_deletions := []\<rparr>)))"

section \<open>Records\<close>

lemmas script_size = unat_of_nat_u32 [of "length script" for script]

definition small_entry :: "CUTXOEntry \<Rightarrow> bool" where
  "small_entry e \<longleftrightarrow> length (scriptPubKey (utxo_out e)) < 2 ^ 32"

lemma OutputValue_entry:
  assumes "small_entry e"
  shows "OutputValue (utxo_nHeight e) (fCoinBase e) (utxo_out e) = SerializeUTXOEntry e"
proof -
  have l: "length (scriptPubKey (utxo_out e)) < 2 ^ 32" using assms by (simp add: small_entry_def)
  have "(of_nat (length (scriptPubKey (utxo_out e))) :: u32) > 0 \<longleftrightarrow> scriptPubKey (utxo_out e) \<noteq> []"
    unfolding word_less_nat_alt script_size [OF l] by simp
  then show ?thesis unfolding OutputValue_def SerializeUTXOEntry_def Let_def script_size [OF l] by auto
qed

lemma DeserializeUTXOEntry_Serialize:
  assumes "small_entry e"
  shows "DeserializeUTXOEntry (SerializeUTXOEntry e) = Some e"
proof -
  have l: "length (scriptPubKey (utxo_out e)) < 2 ^ 32" using assms by (simp add: small_entry_def)
  have "SerializeUTXOEntry e = le_bytes 4 (unat (utxo_nHeight e)) @ [if fCoinBase e then 1 else 0] @
      le_bytes 8 (unat (nValue (utxo_out e))) @ le_bytes 4 (length (scriptPubKey (utxo_out e))) @ scriptPubKey (utxo_out e)"
    unfolding OutputValue_entry [OF assms, symmetric] OutputValue_def Let_def script_size [OF l] by simp
  moreover have "le_val (le_bytes 4 (length (scriptPubKey (utxo_out e)))) = length (scriptPubKey (utxo_out e))"
    using l by (simp add: le_val_le_bytes)
  ultimately show ?thesis
    using script_size [OF l] by (simp add: DeserializeUTXOEntry_def Let_def nth_append)
qed

lemma ReadUndoRecord_enc:
  assumes "wf256 (op_hash p)" "small_entry e"
  shows "ReadUndoRecord (UndoRecord p e @ rest) = Inr ((p, e), rest)"
proof -
  have l: "length (scriptPubKey (utxo_out e)) < 2 ^ 32" using assms by (simp add: small_entry_def)
  have "le_val (le_bytes 4 (length (scriptPubKey (utxo_out e)))) = length (scriptPubKey (utxo_out e))"
    using l by (simp add: le_val_le_bytes)
  then show ?thesis
    using assms(1) unfolding UndoRecord_def Let_def script_size [OF l] wf256_def
    by (simp add: ReadUndoRecord_def Let_def nth_append unat_of_nat_u32 [OF l])
qed

interpretation undo_record: codec "\<lambda>(p, e). UndoRecord p e" ReadUndoRecord "\<lambda>(p, e). wf256 (op_hash p) \<and> small_entry e"
  by unfold_locales (auto simp: ReadUndoRecord_enc)

lemma SerializeOutPoint_inject:
  assumes "wf256 (op_hash p)" "wf256 (op_hash q)"
  shows "SerializeOutPoint p = SerializeOutPoint q \<longleftrightarrow> p = q"
proof
  assume e: "SerializeOutPoint p = SerializeOutPoint q"
  then have h: "op_hash p = op_hash q" using assms by (simp add: SerializeOutPoint_def wf256_def)
  with e have "le_bytes 4 (unat (op_n p)) = le_bytes 4 (unat (op_n q))" by (simp add: SerializeOutPoint_def)
  then have "op_n p = op_n q" by (metis le_read(1))
  with h show "p = q" by simp
qed simp

definition undo_point :: "uint256 \<Rightarrow> COutPoint" where
  "undo_point blockHash = \<lparr>op_hash = [0x6e, 0x64, 0x6f, 0x5f] @ take 28 blockHash, op_n = of_nat (le_val (drop 28 blockHash))\<rparr>"

lemma SerializeOutPoint_undo_point:
  assumes "wf256 bh"
  shows "wf256 (op_hash (undo_point bh))" "SerializeOutPoint (undo_point bh) = UndoKey bh"
proof -
  have l: "length (drop 28 bh) = 4" using assms by (simp add: wf256_def)
  then have "le_val (drop 28 bh) < 2 ^ 32" using le_val_bound [of "drop 28 bh"] by simp
  then have "le_bytes 4 (unat (of_nat (le_val (drop 28 bh)) :: u32)) = drop 28 bh"
    using l le_bytes_le_val [of "drop 28 bh"] by (simp add: unat_of_nat_u32)
  then show "wf256 (op_hash (undo_point bh))" "SerializeOutPoint (undo_point bh) = UndoKey bh"
    using assms by (simp_all add: undo_point_def SerializeOutPoint_def UndoKey_def wf256_def)
qed

lemma key_facts:
  "wf256 (op_hash p) \<Longrightarrow> SerializeOutPoint p \<noteq> utxo_stats_key"
  "wf256 (op_hash p) \<Longrightarrow> wf256 bh \<Longrightarrow> SerializeOutPoint p = UndoKey bh \<longleftrightarrow> p = undo_point bh"
proof -
  show "SerializeOutPoint p \<noteq> utxo_stats_key" if "wf256 (op_hash p)"
    using that by (auto simp: SerializeOutPoint_def utxo_stats_key_def wf256_def dest: arg_cong [of _ _ length])
  show "SerializeOutPoint p = UndoKey bh \<longleftrightarrow> p = undo_point bh" if "wf256 (op_hash p)" "wf256 bh"
    using SerializeOutPoint_inject [OF that(1) SerializeOutPoint_undo_point(1) [OF that(2)]]
    by (simp add: SerializeOutPoint_undo_point(2) [OF that(2)])
qed

section \<open>The cache\<close>

definition cache_wf :: "'db CUTXOSet \<Rightarrow> bool" where
  "cache_wf s \<longleftrightarrow> distinct (lru_list s) \<and> distinct (map fst (utxo_cache s)) \<and>
     set (lru_list s) = fst ` set (utxo_cache s) \<and> length (utxo_cache s) \<le> MAX_CACHE_SIZE"

lemma keys_delete: "fst ` set (AList.delete k al) = fst ` set al - {k}"
  by (induction al) auto

lemma length_delete_mem:
  assumes "distinct (map fst al)" "k \<in> fst ` set al"
  shows "Suc (length (AList.delete k al)) = length al"
  using assms
proof (induction al)
  case (Cons x al)
  then show ?case
  proof (cases "fst x = k")
    case True
    then have "k \<notin> fst ` set al" using Cons.prems(1) by auto
    then have "AList.delete k al = al" by (induction al) auto
    then show ?thesis using True by (cases x) simp
  qed (cases x; auto)
qed simp

lemma length_update: "k \<notin> fst ` set al \<Longrightarrow> length (AList.update k v al) = Suc (length al)"
  "k \<in> fst ` set al \<Longrightarrow> length (AList.update k v al) = length al"
  by (induction al) auto

lemma update_keys_set: "fst ` set (AList.update k v al) = insert k (fst ` set al)"
  using dom_update [of k v al] unfolding dom_map_of_conv_image_fst by simp

lemma set_update_elim: "x \<in> set (AList.update k v al) \<Longrightarrow> x = (k, v) \<or> x \<in> set al"
  by (induction al) (auto split: if_splits)

lemma set_delete_elim: "x \<in> set (AList.delete k al) \<Longrightarrow> x \<in> set al"
  by (induction al) (auto split: if_splits)

lemma map_of_None_iff: "map_of al k = None \<longleftrightarrow> k \<notin> fst ` set al"
  by (simp add: map_of_eq_None_iff)

lemma UpdateCache_other [simp]:
  "us_db (UpdateCache p e s) = us_db s" "cache_additions (UpdateCache p e s) = cache_additions s"
  "cache_deletions (UpdateCache p e s) = cache_deletions s" "stats (UpdateCache p e s) = stats s"
  by (simp_all add: UpdateCache_def Let_def)

lemma RemoveFromCache_other [simp]:
  "us_db (RemoveFromCache p s) = us_db s" "cache_additions (RemoveFromCache p s) = cache_additions s"
  "cache_deletions (RemoveFromCache p s) = cache_deletions s" "stats (RemoveFromCache p s) = stats s"
  by (simp_all add: RemoveFromCache_def)

lemma Stats_other [simp]:
  "us_db (StatsAdd t s) = us_db s" "cache_additions (StatsAdd t s) = cache_additions s" "cache_deletions (StatsAdd t s) = cache_deletions s"
  "utxo_cache (StatsAdd t s) = utxo_cache s" "lru_list (StatsAdd t s) = lru_list s"
  "us_db (StatsSpend t s) = us_db s" "cache_additions (StatsSpend t s) = cache_additions s" "cache_deletions (StatsSpend t s) = cache_deletions s"
  "utxo_cache (StatsSpend t s) = utxo_cache s" "lru_list (StatsSpend t s) = lru_list s"
  by (simp_all add: StatsAdd_def StatsSpend_def)

lemma cache_wf_stats [simp]: "cache_wf (StatsAdd t s) = cache_wf s" "cache_wf (StatsSpend t s) = cache_wf s"
  by (simp_all add: cache_wf_def)

lemma RemoveFromCache_map: "map_of (utxo_cache (RemoveFromCache p s)) = (map_of (utxo_cache s))(p := None)"
  by (auto simp: RemoveFromCache_def delete_conv' fun_eq_iff)

lemma cache_wf_Remove: "cache_wf s \<Longrightarrow> cache_wf (RemoveFromCache p s)"
  using length_delete_le [of p "utxo_cache s"]
  by (auto simp: RemoveFromCache_def cache_wf_def keys_delete distinct_delete map_of_None_iff)

lemma UpdateCache_at: "map_of (utxo_cache (UpdateCache p e s)) p = Some e"
  by (simp add: UpdateCache_def Let_def update_conv')

lemma UpdateCache_sub: "map_of (utxo_cache (UpdateCache p e s)) q = Some e' \<Longrightarrow> q \<noteq> p \<Longrightarrow> map_of (utxo_cache s) q = Some e'"
  by (auto simp: UpdateCache_def Let_def update_conv' delete_conv' split: if_splits)

lemma cache_wf_Update:
  assumes "cache_wf s"
  shows "cache_wf (UpdateCache p e s)"
proof (cases "map_of (utxo_cache s) p = None")
  case False
  then have "p \<in> fst ` set (utxo_cache s)" by (simp add: map_of_None_iff)
  then show ?thesis using False assms
    by (auto simp: UpdateCache_def cache_wf_def distinct_update update_keys_set length_update)
next
  case True
  then have p: "p \<notin> fst ` set (utxo_cache s)" by (simp add: map_of_None_iff)
  show ?thesis
  proof (cases "length (utxo_cache s) \<ge> MAX_CACHE_SIZE")
    case False
    then show ?thesis using True p assms
      by (auto simp: UpdateCache_def cache_wf_def Let_def distinct_update update_keys_set length_update)
  next
    case full: True
    let ?l = "last (lru_list s)"
    have ne: "lru_list s \<noteq> []" using full assms by (auto simp: cache_wf_def MAX_CACHE_SIZE_def)
    then obtain xs x where x: "lru_list s = xs @ [x]" by (metis append_butlast_last_id)
    then have k: "?l \<in> fst ` set (utxo_cache s)" using assms by (auto simp: cache_wf_def)
    have "length (AList.delete ?l (utxo_cache s)) < MAX_CACHE_SIZE"
      using length_delete_mem [OF _ k] assms by (simp add: cache_wf_def)
    moreover have "p \<notin> fst ` set (AList.delete ?l (utxo_cache s))" using p by (simp add: keys_delete)
    ultimately show ?thesis using True full p assms x
      by (auto simp: UpdateCache_def cache_wf_def Let_def distinct_update update_keys_set length_update keys_delete distinct_delete)
  qed
qed

section \<open>The set of unspent outputs that a state stands for\<close>

definition entry_at :: "(bytes \<Rightarrow> bytes option) \<Rightarrow> COutPoint \<Rightarrow> CUTXOEntry option" where
  "entry_at m p = Option.bind (m (SerializeOutPoint p)) DeserializeUTXOEntry"

definition utxos :: "'db leveldb \<Rightarrow> 'db CUTXOSet \<Rightarrow> COutPoint \<Rightarrow> CUTXOEntry option" where
  "utxos L s p =
     (if \<not> wf256 (op_hash p) \<or> p \<in> set (cache_deletions s) then None
      else
        (case map_of (cache_additions s) p of
           Some e \<Rightarrow> Some e
         | None \<Rightarrow> (case us_db s of None \<Rightarrow> None | Some db \<Rightarrow> entry_at (db_Get L db) p)))"

text \<open>
  The cache agrees with the set, nothing is both added and deleted, and pending entries can be written and read back.
\<close>

definition utxo_inv :: "'db leveldb \<Rightarrow> 'db CUTXOSet \<Rightarrow> bool" where
  "utxo_inv L s \<longleftrightarrow> us_db s \<noteq> None \<and> cache_wf s \<and>
     (\<forall>p e. map_of (utxo_cache s) p = Some e \<longrightarrow> utxos L s p = Some e) \<and>
     distinct (map fst (cache_additions s)) \<and> set (cache_deletions s) \<inter> fst ` set (cache_additions s) = {} \<and>
     (\<forall>(p, e) \<in> set (cache_additions s). wf256 (op_hash p) \<and> small_entry e) \<and>
     (\<forall>p \<in> set (cache_deletions s). wf256 (op_hash p))"

lemma utxos_cong:
  "us_db s' = us_db s \<Longrightarrow> cache_additions s' = cache_additions s \<Longrightarrow> cache_deletions s' = cache_deletions s \<Longrightarrow> utxos L s' = utxos L s"
  unfolding utxos_def fun_eq_iff by (simp only: simp_thms)

lemma utxos_stats [simp]:
  "utxos L (StatsAdd t s) = utxos L s" "utxos L (StatsSpend t s) = utxos L s"
  "utxos L (UpdateCache p e s) = utxos L s" "utxos L (RemoveFromCache p s) = utxos L s"
  by (rule utxos_cong; simp)+

lemma utxo_inv_stats [simp]: "utxo_inv L (StatsAdd t s) = utxo_inv L s" "utxo_inv L (StatsSpend t s) = utxo_inv L s"
  by (simp_all add: utxo_inv_def)

lemma utxo_inv_Update:
  assumes "utxo_inv L s" "utxos L s p = Some e"
  shows "utxo_inv L (UpdateCache p e s)"
proof -
  have "utxos L s q = Some e'" if "map_of (utxo_cache (UpdateCache p e s)) q = Some e'" for q e'
    using that assms UpdateCache_at [of p e s] UpdateCache_sub [of p e s q e'] by (cases "q = p") (auto simp: utxo_inv_def)
  then show ?thesis using assms cache_wf_Update by (auto simp: utxo_inv_def)
qed

lemma utxo_inv_Remove: "utxo_inv L s \<Longrightarrow> utxo_inv L (RemoveFromCache p s)"
  using cache_wf_Remove [of s p] by (auto simp: utxo_inv_def RemoveFromCache_map)

lemma GetUTXO_correct:
  assumes "utxo_inv L s" "wf256 (op_hash p)"
  shows "fst (GetUTXO L p s) = utxos L s p" "utxo_inv L (snd (GetUTXO L p s))" "utxos L (snd (GetUTXO L p s)) = utxos L s"
    "stats (snd (GetUTXO L p s)) = stats s"
proof -
  obtain db where db: "us_db s = Some db" using assms(1) by (auto simp: utxo_inv_def)
  have c: "utxos L s p = Some e" if "map_of (utxo_cache s) p = Some e" for e using assms(1) that by (simp add: utxo_inv_def)
  have "fst (GetUTXO L p s) = utxos L s p \<and>
      (snd (GetUTXO L p s) = s \<or> (\<exists>e. utxos L s p = Some e \<and> snd (GetUTXO L p s) = UpdateCache p e s))"
    using assms(2) db c by (auto simp: GetUTXO_def GetFromCache_def utxos_def entry_at_def split: option.splits if_splits)
  then show "fst (GetUTXO L p s) = utxos L s p" "utxo_inv L (snd (GetUTXO L p s))" "utxos L (snd (GetUTXO L p s)) = utxos L s"
    "stats (snd (GetUTXO L p s)) = stats s"
    using assms(1) utxo_inv_Update by (metis, metis, metis utxos_stats(3), metis UpdateCache_other(4))
qed

lemma AddUTXO_correct:
  assumes "utxo_inv L s" "wf256 (op_hash p)" "length (scriptPubKey out) < 2 ^ 32"
    and e_def: "e = \<lparr>utxo_out = out, utxo_nHeight = h, fCoinBase = cb\<rparr>"
  shows "fst (AddUTXO p out h cb s)" "utxo_inv L (snd (AddUTXO p out h cb s))"
    "utxos L (snd (AddUTXO p out h cb s)) = (utxos L s)(p \<mapsto> e)"
proof -
  have db: "us_db s \<noteq> None" using assms(1) by (simp add: utxo_inv_def)
  let ?s = "s\<lparr>cache_additions := AList.update p e (cache_additions s), cache_deletions := removeAll p (cache_deletions s)\<rparr>"
  have u: "utxos L ?s = (utxos L s)(p \<mapsto> e)"
    using assms(2) by (auto simp: utxos_def update_conv' fun_eq_iff split: option.splits)
  have snd: "snd (AddUTXO p out h cb s) = StatsAdd out (UpdateCache p e ?s)"
    using db by (auto simp: AddUTXO_def e_def Let_def)
  show "fst (AddUTXO p out h cb s)" using db by (simp add: AddUTXO_def Let_def)
  show "utxos L (snd (AddUTXO p out h cb s)) = (utxos L s)(p \<mapsto> e)" unfolding snd using u by simp
  have "map_of (utxo_cache ?s) q = Some e' \<Longrightarrow> q \<noteq> p \<Longrightarrow> utxos L ?s q = Some e'" for q e'
    using assms(1) unfolding u by (simp add: utxo_inv_def)
  then have c: "utxos L ?s q = Some e'" if "map_of (utxo_cache (UpdateCache p e ?s)) q = Some e'" for q e'
    using that UpdateCache_at [of p e ?s] UpdateCache_sub [of p e ?s q e'] u by (cases "q = p") auto
  have "cache_wf (UpdateCache p e ?s)" using assms(1) by (intro cache_wf_Update) (simp add: utxo_inv_def cache_wf_def)
  moreover have "set (cache_deletions ?s) \<inter> fst ` set (cache_additions ?s) = {}"
    using assms(1) by (auto simp: utxo_inv_def update_keys_set)
  moreover have "\<forall>(q, e') \<in> set (cache_additions ?s). wf256 (op_hash q) \<and> small_entry e'"
    using assms(1,2,3) by (auto simp: utxo_inv_def small_entry_def e_def dest!: set_update_elim)
  ultimately show "utxo_inv L (snd (AddUTXO p out h cb s))"
    unfolding snd utxo_inv_stats using assms(1) c by (auto simp: utxo_inv_def distinct_update)
qed

lemma SpendUTXO_correct:
  assumes "utxo_inv L s" "utxos L s p \<noteq> None"
  shows "fst (SpendUTXO L p s)" "utxo_inv L (snd (SpendUTXO L p s))" "utxos L (snd (SpendUTXO L p s)) = (utxos L s)(p := None)"
proof -
  obtain db where db: "us_db s = Some db" using assms(1) by (auto simp: utxo_inv_def)
  have w: "wf256 (op_hash p)" "p \<notin> set (cache_deletions s)" using assms(2) by (auto simp: utxos_def split: if_splits)
  have c: "map_of (utxo_cache s) p = Some e \<Longrightarrow> utxos L s p = Some e" for e using assms(1) by (simp add: utxo_inv_def)
  obtain e t where t: "SpendUTXO L p s = (True, StatsSpend t (RemoveFromCache p (s\<lparr>cache_additions := AList.delete p (cache_additions s),
      cache_deletions := List.insert p (cache_deletions s)\<rparr>)))"
  proof (cases "map_of (cache_additions s) p")
    case None
    then have "AList.delete p (cache_additions s) = cache_additions s" by (simp add: map_of_None_iff)
    then show ?thesis using that assms(2) db w None
      by (cases "GetFromCache p s") (auto simp: SpendUTXO_def utxos_def entry_at_def GetFromCache_def bind_eq_Some_conv)
  qed (use that db in \<open>auto simp: SpendUTXO_def\<close>)
  let ?s = "s\<lparr>cache_additions := AList.delete p (cache_additions s), cache_deletions := List.insert p (cache_deletions s)\<rparr>"
  show "fst (SpendUTXO L p s)" using t by simp
  have u: "utxos L ?s = (utxos L s)(p := None)"
    by (auto simp: utxos_def delete_conv' fun_eq_iff split: option.splits)
  then show "utxos L (snd (SpendUTXO L p s)) = (utxos L s)(p := None)" using t by simp
  have "utxos L ?s q = Some e" if "map_of (utxo_cache (RemoveFromCache p ?s)) q = Some e" for q e
    using that assms(1) u by (auto simp: utxo_inv_def RemoveFromCache_map split: if_splits)
  moreover have "cache_wf (RemoveFromCache p ?s)" using assms(1) by (intro cache_wf_Remove) (simp add: utxo_inv_def cache_wf_def)
  ultimately show "utxo_inv L (snd (SpendUTXO L p s))"
    using t w(1) assms(1) by (auto simp: utxo_inv_def distinct_delete keys_delete dest!: set_delete_elim)
qed

text \<open>Writing the pending changes: the order of the additions does not matter, since their keys differ.\<close>

lemma apply_Puts:
  assumes "distinct (map fst xs)" "\<forall>(p, e) \<in> set xs. wf256 (op_hash p)" "wf256 (op_hash q)"
  shows "apply_ops (map (\<lambda>(p, e). Put (SerializeOutPoint p) (f e)) xs) m (SerializeOutPoint q) =
    (case map_of xs q of Some e \<Rightarrow> Some (f e) | None \<Rightarrow> m (SerializeOutPoint q))"
  using assms(1,2)
proof (induction xs arbitrary: m)
  case (Cons x xs)
  obtain p e where x: "x = (p, e)" by (cases x)
  have "p \<notin> fst ` set xs" using Cons.prems(1) x by simp
  then have "map_of xs p = None" by (simp add: map_of_None_iff)
  then show ?case using Cons x SerializeOutPoint_inject [OF assms(3)]
    by (auto split: option.splits)
qed simp

lemma apply_Deletes:
  assumes "\<forall>p \<in> set xs. wf256 (op_hash p)" "wf256 (op_hash q)"
  shows "apply_ops (map (\<lambda>p. Delete (SerializeOutPoint p)) xs) m (SerializeOutPoint q) =
    (if q \<in> set xs then None else m (SerializeOutPoint q))"
  using assms(1) SerializeOutPoint_inject [OF assms(2)] by (induction xs arbitrary: m) auto

lemma Flush_correct:
  assumes "leveldb_ok L" "utxo_inv L s" "Flush L s = (True, s')"
  shows "utxo_inv L s' \<and> utxos L s' = utxos L s \<and> cache_additions s' = [] \<and> cache_deletions s' = [] \<and> stats s' = stats s"
proof -
  obtain db db' where db: "us_db s = Some db" "db_Write L db (PendingOps s @ [Put utxo_stats_key (StatsBytes (stats s))]) = (True, db')"
      and s': "s' = s\<lparr>us_db := Some db', cache_additions := [], cache_deletions := []\<rparr>"
    using assms(3) by (auto simp: Flush_def split: option.splits prod.splits if_splits)
  have g: "db_Get L db' = apply_ops (PendingOps s @ [Put utxo_stats_key (StatsBytes (stats s))]) (db_Get L db)"
    using assms(1) db(2) by (simp add: leveldb_ok_def)
  have i: "distinct (map fst (cache_additions s))" "\<forall>(p, e) \<in> set (cache_additions s). wf256 (op_hash p) \<and> small_entry e"
      "\<forall>p \<in> set (cache_deletions s). wf256 (op_hash p)"
    using assms(2) by (simp_all add: utxo_inv_def)
  have u: "utxos L s' p = utxos L s p" for p
  proof (cases "wf256 (op_hash p)")
    case True
    have "db_Get L db' (SerializeOutPoint p) = (if p \<in> set (cache_deletions s) then None
        else case map_of (cache_additions s) p of Some e \<Rightarrow> Some (SerializeUTXOEntry e) | None \<Rightarrow> db_Get L db (SerializeOutPoint p))"
    proof -
      have w: "\<forall>(p, e) \<in> set (cache_additions s). wf256 (op_hash p)" using i(2) by blast
      show ?thesis unfolding g PendingOps_def using key_facts(1) [OF True]
        by (simp add: apply_Deletes [OF i(3) True] apply_Puts [OF i(1) w True])
    qed
    moreover have "small_entry e" if "map_of (cache_additions s) p = Some e" for e
      using i(2) map_of_SomeD [OF that] by blast
    ultimately show ?thesis using True db(1) s'
      by (auto simp: utxos_def entry_at_def DeserializeUTXOEntry_Serialize split: option.splits)
  qed (simp add: utxos_def)
  then have "utxo_inv L s'" using assms(2) s' by (simp add: utxo_inv_def cache_wf_def)
  then show ?thesis using u s' by auto
qed

section \<open>The interface of the set\<close>

datatype coin_call = CallGet COutPoint | CallAdd COutPoint CUTXOEntry | CallSpend COutPoint | CallFlush

datatype coin_answer = Found "CUTXOEntry option" | Done bool

text \<open>The answers of a map of unspent outputs, and the calls a client may make: it spends only what is there.\<close>

fun spec_call :: "coin_call \<Rightarrow> (COutPoint \<Rightarrow> CUTXOEntry option) \<Rightarrow> coin_answer \<times> (COutPoint \<Rightarrow> CUTXOEntry option)" where
  "spec_call (CallGet p) m = (Found (m p), m)"
| "spec_call (CallAdd p e) m = (Done True, m(p \<mapsto> e))"
| "spec_call (CallSpend p) m = (Done True, m(p := None))"
| "spec_call CallFlush m = (Done True, m)"

fun allowed :: "coin_call \<Rightarrow> (COutPoint \<Rightarrow> CUTXOEntry option) \<Rightarrow> bool" where
  "allowed (CallGet p) m \<longleftrightarrow> wf256 (op_hash p)"
| "allowed (CallAdd p e) m \<longleftrightarrow> wf256 (op_hash p) \<and> small_entry e"
| "allowed (CallSpend p) m \<longleftrightarrow> m p \<noteq> None"
| "allowed CallFlush m \<longleftrightarrow> True"

text \<open>The answers of a sequence of calls, with the state after it.\<close>

fun answers :: "('c \<Rightarrow> 's \<Rightarrow> 'a \<times> 's) \<Rightarrow> 'c list \<Rightarrow> 's \<Rightarrow> 'a list \<times> 's" where
  "answers f [] s = ([], s)"
| "answers f (c # cs) s = (case f c s of (a, s) \<Rightarrow> (case answers f cs s of (as, s) \<Rightarrow> (a # as, s)))"

fun allowed_all :: "coin_call list \<Rightarrow> (COutPoint \<Rightarrow> CUTXOEntry option) \<Rightarrow> bool" where
  "allowed_all [] m = True"
| "allowed_all (c # cs) m \<longleftrightarrow> allowed c m \<and> allowed_all cs (snd (spec_call c m))"

locale coin_view =
  fixes inv :: "'s \<Rightarrow> bool"
    and view :: "'s \<Rightarrow> COutPoint \<Rightarrow> CUTXOEntry option"
    and call :: "coin_call \<Rightarrow> 's \<Rightarrow> coin_answer \<times> 's"
  assumes call_spec: "inv s \<Longrightarrow> allowed c (view s) \<Longrightarrow> call c s = (a, s') \<Longrightarrow> a \<noteq> Done False \<Longrightarrow>
      inv s' \<and> spec_call c (view s) = (a, view s')"
begin

text \<open>A client that sees no failure cannot tell the implementation from the map.\<close>

lemma answers_spec:
  "inv s \<Longrightarrow> allowed_all cs (view s) \<Longrightarrow> answers call cs s = (as, s') \<Longrightarrow> Done False \<notin> set as \<Longrightarrow>
     inv s' \<and> answers spec_call cs (view s) = (as, view s')"
proof (induction cs arbitrary: s as)
  case (Cons c cs)
  obtain a t where a: "call c s = (a, t)" by fastforce
  obtain bs where b: "answers call cs t = (bs, s')" "as = a # bs" using Cons.prems(3) a by (auto split: prod.splits)
  have t: "inv t" "spec_call c (view s) = (a, view t)" using call_spec [OF _ _ a] Cons.prems b(2) by auto
  then have "answers spec_call cs (view t) = (bs, view s') \<and> inv s'" using Cons.IH [OF t(1) _ b(1)] Cons.prems b(2) by auto
  then show ?case using t b(2) by simp
qed simp

end

text \<open>The set in \<open>utxo_set.cpp\<close> as an implementation.\<close>

fun utxo_call :: "coin_call \<Rightarrow> 'db leveldb \<times> 'db CUTXOSet \<Rightarrow> coin_answer \<times> 'db leveldb \<times> 'db CUTXOSet" where
  "utxo_call (CallGet p) (L, s) = (case GetUTXO L p s of (e, s) \<Rightarrow> (Found e, L, s))"
| "utxo_call (CallAdd p e) (L, s) =
     (case AddUTXO p (utxo_out e) (utxo_nHeight e) (fCoinBase e) s of (ok, s) \<Rightarrow> (Done ok, L, s))"
| "utxo_call (CallSpend p) (L, s) = (case SpendUTXO L p s of (ok, s) \<Rightarrow> (Done ok, L, s))"
| "utxo_call CallFlush (L, s) = (case Flush L s of (ok, s) \<Rightarrow> (Done ok, L, s))"

lemma utxo_call_spec:
  assumes "leveldb_ok L" "utxo_inv L s" "allowed c (utxos L s)" "utxo_call c (L, s) = (a, L', s')" "a \<noteq> Done False"
  shows "L' = L \<and> utxo_inv L s' \<and> spec_call c (utxos L s) = (a, utxos L s')"
proof (cases c)
  case (CallGet p)
  obtain e t where t: "GetUTXO L p s = (e, t)" by fastforce
  have "wf256 (op_hash p)" using assms(3) CallGet by simp
  from GetUTXO_correct [OF assms(2) this, unfolded t] show ?thesis using assms(4) CallGet t by auto
next
  case (CallAdd p e)
  have "length (scriptPubKey (utxo_out e)) < 2 ^ 32" "wf256 (op_hash p)" using assms(3) CallAdd by (simp_all add: small_entry_def)
  note c = AddUTXO_correct [OF assms(2) this(2,1) refl, of "utxo_nHeight e" "fCoinBase e"]
  obtain ok t where t: "AddUTXO p (utxo_out e) (utxo_nHeight e) (fCoinBase e) s = (ok, t)" by fastforce
  show ?thesis using c [unfolded t] assms(4) CallAdd t by (cases e) simp
next
  case (CallSpend p)
  obtain ok t where t: "SpendUTXO L p s = (ok, t)" by fastforce
  have "utxos L s p \<noteq> None" using assms(3) CallSpend by simp
  from SpendUTXO_correct [OF assms(2) this, unfolded t] show ?thesis using assms(4) CallSpend t by simp
next
  case CallFlush
  obtain ok t where t: "Flush L s = (ok, t)" by fastforce
  then have "ok" using assms(4,5) CallFlush by (cases ok) auto
  then show ?thesis using Flush_correct [OF assms(1,2)] assms(4) CallFlush t by simp
qed

interpretation us: coin_view "\<lambda>(L, s). leveldb_ok L \<and> utxo_inv L s" "\<lambda>(L, s). utxos L s" utxo_call
proof (unfold_locales, goal_cases)
  case (1 st c a st')
  obtain L s L' s' where st: "st = (L, s)" "st' = (L', s')" by (cases st; cases st')
  show ?case using utxo_call_spec [of L s c a L' s'] 1 unfolding st by simp
qed

section \<open>The effect of a block\<close>

fun spend_all :: "CTxIn list \<Rightarrow> (COutPoint \<Rightarrow> CUTXOEntry option) \<Rightarrow> COutPoint \<Rightarrow> CUTXOEntry option" where
  "spend_all [] m = m"
| "spend_all (i # ins) m = spend_all ins (m(prevout i := None))"

fun add_all :: "uint256 \<Rightarrow> u32 \<Rightarrow> bool \<Rightarrow> nat \<Rightarrow> CTxOut list \<Rightarrow> (COutPoint \<Rightarrow> CUTXOEntry option) \<Rightarrow> COutPoint \<Rightarrow> CUTXOEntry option" where
  "add_all txid h cb n [] m = m"
| "add_all txid h cb n (t # outs) m =
     add_all txid h cb (Suc n) outs (m(\<lparr>op_hash = txid, op_n = of_nat n\<rparr> \<mapsto> \<lparr>utxo_out = t, utxo_nHeight = h, fCoinBase = cb\<rparr>))"

text \<open>Every transaction but the first spends its inputs, and all create their outputs, one after the other.\<close>

fun block_effect :: "(bytes \<Rightarrow> uint256) \<Rightarrow> u32 \<Rightarrow> bool \<Rightarrow> CTransaction list \<Rightarrow> (COutPoint \<Rightarrow> CUTXOEntry option) \<Rightarrow> COutPoint \<Rightarrow> CUTXOEntry option" where
  "block_effect sha3 h cb [] m = m"
| "block_effect sha3 h cb (tx # txs) m =
     block_effect sha3 h False txs (add_all (TxId sha3 tx) h cb 0 (vout tx) (if cb then m else spend_all (vin tx) m))"

definition created_by :: "uint256 \<Rightarrow> nat \<Rightarrow> CTxOut list \<Rightarrow> COutPoint set" where
  "created_by txid n outs = (\<lambda>k. \<lparr>op_hash = txid, op_n = of_nat k\<rparr>) ` {n ..< n + length outs}"

definition created :: "(bytes \<Rightarrow> uint256) \<Rightarrow> CTransaction list \<Rightarrow> COutPoint set" where
  "created sha3 txs = (\<Union>tx \<in> set txs. created_by (TxId sha3 tx) 0 (vout tx))"

definition spent_points :: "CTransaction list \<Rightarrow> COutPoint list" where
  "spent_points txs = concat (map (map prevout \<circ> vin) (tl txs))"

definition coins :: "(bytes \<Rightarrow> bytes option) \<Rightarrow> COutPoint \<Rightarrow> CUTXOEntry option" where
  "coins m p = (if wf256 (op_hash p) then entry_at m p else None)"

lemma coins_Put: "wf256 (op_hash p) \<Longrightarrow> small_entry e \<Longrightarrow> coins (m(SerializeOutPoint p \<mapsto> SerializeUTXOEntry e)) = (coins m)(p \<mapsto> e)"
  by (auto simp: coins_def entry_at_def DeserializeUTXOEntry_Serialize SerializeOutPoint_inject fun_eq_iff)

lemma coins_Delete: "wf256 (op_hash p) \<Longrightarrow> coins (m(SerializeOutPoint p := None)) = (coins m)(p := None)"
  by (auto simp: coins_def entry_at_def SerializeOutPoint_inject fun_eq_iff)

lemma entry_small: "DeserializeUTXOEntry data = Some e \<Longrightarrow> small_entry e"
proof -
  assume "DeserializeUTXOEntry data = Some e"
  then have "length (scriptPubKey (utxo_out e)) \<le> unat (of_nat (le_val (take 4 (drop 13 data))) :: u32)"
    by (auto simp: DeserializeUTXOEntry_def Let_def split: if_splits)
  also have "\<dots> < 2 ^ 32" by (rule u32_range)
  finally show ?thesis by (simp add: small_entry_def)
qed

lemma coins_small: "coins m p = Some e \<Longrightarrow> wf256 (op_hash p) \<and> small_entry e"
  by (auto simp: coins_def entry_at_def bind_eq_Some_conv entry_small split: if_splits)

text \<open>Inside a block: nothing is pending, and the cache agrees with the outputs \<open>c\<close> that are unspent so far.\<close>

definition mid_block :: "'db \<Rightarrow> (COutPoint \<Rightarrow> CUTXOEntry option) \<Rightarrow> 'db CUTXOSet \<Rightarrow> bool" where
  "mid_block db c s \<longleftrightarrow> us_db s = Some db \<and> cache_additions s = [] \<and> cache_deletions s = [] \<and> cache_wf s \<and>
     (\<forall>p e. map_of (utxo_cache s) p = Some e \<longrightarrow> c p = Some e)"

lemma mid_stats [simp]: "mid_block db c (StatsAdd t s) = mid_block db c s" "mid_block db c (StatsSpend t s) = mid_block db c s"
  by (simp_all add: mid_block_def)

lemma mid_Update:
  assumes "mid_block db c s"
  shows "mid_block db (c(p \<mapsto> e)) (UpdateCache p e s)"
proof -
  have "(c(p \<mapsto> e)) q = Some e'" if "map_of (utxo_cache (UpdateCache p e s)) q = Some e'" for q e'
    using that UpdateCache_at [of p e s] UpdateCache_sub [of p e s q e'] assms by (cases "q = p") (auto simp: mid_block_def)
  then show ?thesis using assms cache_wf_Update by (auto simp: mid_block_def)
qed

lemma mid_Remove:
  assumes "mid_block db c s"
  shows "mid_block db (c(p := None)) (RemoveFromCache p s)"
  using assms cache_wf_Remove [of s p] by (auto simp: mid_block_def RemoveFromCache_map split: if_splits)

lemma mid_GetUTXO:
  assumes "mid_block db c s" "wf256 (op_hash p)" "GetUTXO L p s = (Some e, t)"
  shows "(c p = Some e \<or> coins (db_Get L db) p = Some e) \<and> (t = s \<or> t = UpdateCache p e s)"
proof (cases "map_of (utxo_cache s) p")
  case None
  then show ?thesis using assms
    by (auto simp: GetUTXO_def GetFromCache_def mid_block_def coins_def entry_at_def split: option.splits)
next
  case (Some e')
  then have "c p = Some e'" using assms(1) by (simp add: mid_block_def)
  then show ?thesis using assms Some by (auto simp: GetUTXO_def GetFromCache_def mid_block_def)
qed

lemma mid_spend:
  assumes "mid_block db c s" "wf256 (op_hash p)" "GetUTXO L p s = (Some e, t)"
  shows "mid_block db (c(p := None)) (RemoveFromCache p t)"
proof -
  have "map_of (utxo_cache (RemoveFromCache p (UpdateCache p e s))) q = Some e' \<Longrightarrow> q \<noteq> p \<and> map_of (utxo_cache s) q = Some e'" for q e'
    by (auto simp: RemoveFromCache_map split: if_splits dest: UpdateCache_sub)
  then have "mid_block db (c(p := None)) (RemoveFromCache p (UpdateCache p e s))"
    using assms(1) cache_wf_Remove [OF cache_wf_Update] by (auto simp: mid_block_def)
  then show ?thesis using mid_GetUTXO [OF assms] mid_Remove [OF assms(1)] by blast
qed

lemma spend_all_eq: "spend_all ins m p = (if p \<in> prevout ` set ins then None else m p)"
  by (induction ins arbitrary: m) auto

lemma add_all_other: "p \<notin> created_by txid n outs \<Longrightarrow> add_all txid h cb n outs m p = m p"
proof (induction outs arbitrary: n m)
  case (Cons t outs)
  then have "p \<notin> created_by txid (Suc n) outs" "p \<noteq> \<lparr>op_hash = txid, op_n = of_nat n\<rparr>" by (auto simp: created_by_def)
  then show ?case using Cons.IH by simp
qed simp

lemma SpendBlockInputs_effect:
  assumes "SpendBlockInputs L ins w s = (True, w', s')" "mid_block db (coins (apply_ops (bw_batch w) (db_Get L db))) s"
    "\<forall>i \<in> set ins. wf256 (op_hash (prevout i))"
  shows "mid_block db (coins (apply_ops (bw_batch w') (db_Get L db))) s' \<and>
    coins (apply_ops (bw_batch w') (db_Get L db)) = spend_all ins (coins (apply_ops (bw_batch w) (db_Get L db))) \<and>
    (\<exists>rs. map fst rs = map prevout ins \<and> undoData w' = undoData w @ concat (map (\<lambda>(p, e). UndoRecord p e) rs) \<and>
       spentCount w' = spentCount w + of_nat (length rs) \<and>
       (\<forall>(p, e) \<in> set rs. coins (apply_ops (bw_batch w) (db_Get L db)) p = Some e \<or> coins (db_Get L db) p = Some e))"
  using assms
proof (induction ins arbitrary: w s)
  case (Cons i ins)
  let ?g = "db_Get L db" and ?p = "prevout i"
  let ?m = "apply_ops (bw_batch w) ?g"
  obtain e t where e: "GetUTXO L ?p s = (Some e, t)" using Cons.prems(1) by (auto split: prod.splits option.splits)
  let ?w = "w\<lparr>undoData := undoData w @ UndoRecord ?p e, spentCount := spentCount w + 1, bw_batch := bw_batch w @ [Delete (SerializeOutPoint ?p)]\<rparr>"
  define m1 where "m1 = apply_ops (bw_batch ?w) ?g"
  have p: "wf256 (op_hash ?p)" "\<forall>i \<in> set ins. wf256 (op_hash (prevout i))" using Cons.prems(3) by simp_all
  have d: "coins m1 = (coins ?m)(?p := None)" using coins_Delete [OF p(1)] by (simp add: m1_def)
  have m: "mid_block db (coins (apply_ops (bw_batch ?w) ?g)) (StatsSpend (utxo_out e) (RemoveFromCache ?p t))"
    using mid_spend [OF Cons.prems(2) p(1) e] unfolding m1_def [symmetric] d by simp
  have run: "SpendBlockInputs L ins ?w (StatsSpend (utxo_out e) (RemoveFromCache ?p t)) = (True, w', s')"
    using Cons.prems(1) e by simp
  note ih = Cons.IH [OF run m p(2), folded m1_def]
  then obtain rs where r: "map fst rs = map prevout ins" "undoData w' = undoData ?w @ concat (map (\<lambda>(p, e). UndoRecord p e) rs)"
      "spentCount w' = spentCount ?w + of_nat (length rs)" "\<forall>(p, e) \<in> set rs. coins m1 p = Some e \<or> coins ?g p = Some e"
    by blast
  have "coins ?m q = Some e' \<or> coins ?g q = Some e'" if "(q, e') \<in> set rs" for q e'
    using r(4) that unfolding d by (fastforce split: if_splits)
  then have "\<forall>(q, e') \<in> set ((?p, e) # rs). coins ?m q = Some e' \<or> coins ?g q = Some e'"
    using mid_GetUTXO [OF Cons.prems(2) p(1) e] by auto
  moreover have "map fst ((?p, e) # rs) = map prevout (i # ins)" "spentCount w' = spentCount w + of_nat (length ((?p, e) # rs))"
      "undoData w' = undoData w @ concat (map (\<lambda>(p, e). UndoRecord p e) ((?p, e) # rs))"
    using r(1-3) by (simp_all add: add.commute)
  moreover have "spend_all (i # ins) (coins ?m) = spend_all ins (coins m1)" unfolding d by simp
  ultimately show ?case
    using ih [THEN conjunct1] ih [THEN conjunct2, THEN conjunct1] by (intro conjI exI [of _ "(?p, e) # rs"]) simp_all
qed simp

lemma AddBlockOutputs_effect:
  assumes "AddBlockOutputs txid h cb n outs w s = (w', s')" "mid_block db (coins (apply_ops (bw_batch w) g)) s" "wf256 txid"
    "\<forall>t \<in> set outs. length (scriptPubKey t) < 2 ^ 32"
  shows "mid_block db (coins (apply_ops (bw_batch w') g)) s' \<and>
    coins (apply_ops (bw_batch w') g) = add_all txid h cb n outs (coins (apply_ops (bw_batch w) g)) \<and>
    undoData w' = undoData w \<and> spentCount w' = spentCount w"
  using assms
proof (induction outs arbitrary: n w s)
  case (Cons t outs)
  let ?p = "\<lparr>op_hash = txid, op_n = of_nat n\<rparr>" and ?e = "\<lparr>utxo_out = t, utxo_nHeight = h, fCoinBase = cb\<rparr>"
  let ?w = "w\<lparr>bw_batch := bw_batch w @ [Put (SerializeOutPoint ?p) (OutputValue h cb t)]\<rparr>"
  have small: "small_entry ?e" using Cons.prems(4) by (simp add: small_entry_def)
  define m1 where "m1 = apply_ops (bw_batch ?w) g"
  have d: "coins m1 = (coins (apply_ops (bw_batch w) g))(?p \<mapsto> ?e)"
    using coins_Put [of ?p ?e] small OutputValue_entry [OF small] Cons.prems(3) by (simp add: m1_def)
  have m: "mid_block db (coins (apply_ops (bw_batch ?w) g)) (StatsAdd t (UpdateCache ?p ?e s))"
    using mid_Update [OF Cons.prems(2)] unfolding m1_def [symmetric] d by simp
  have run: "AddBlockOutputs txid h cb (Suc n) outs ?w (StatsAdd t (UpdateCache ?p ?e s)) = (w', s')"
    using Cons.prems(1) by (simp add: Let_def)
  have "\<forall>t \<in> set outs. length (scriptPubKey t) < 2 ^ 32" using Cons.prems(4) by simp
  from Cons.IH [OF run m Cons.prems(3) this, folded m1_def] show ?case unfolding d by (auto simp: fun_upd_def)
qed simp

lemma ApplyTransactions_effect:
  assumes "ApplyTransactions L sha3 h cb txs w s = (True, w', s')" "mid_block db (coins (apply_ops (bw_batch w) (db_Get L db))) s"
    "\<forall>tx \<in> set txs. wf_tx tx \<and> wf256 (TxId sha3 tx)"
  shows "mid_block db (coins (apply_ops (bw_batch w') (db_Get L db))) s' \<and>
    coins (apply_ops (bw_batch w') (db_Get L db)) = block_effect sha3 h cb txs (coins (apply_ops (bw_batch w) (db_Get L db))) \<and>
    (\<exists>rs. map fst rs = concat (map (map prevout \<circ> vin) (if cb then tl txs else txs)) \<and>
       undoData w' = undoData w @ concat (map (\<lambda>(p, e). UndoRecord p e) rs) \<and> spentCount w' = spentCount w + of_nat (length rs) \<and>
       (\<forall>(p, e) \<in> set rs. wf256 (op_hash p) \<and> small_entry e \<and>
          (coins (apply_ops (bw_batch w) (db_Get L db)) p = Some e \<or> coins (db_Get L db) p = Some e \<or> p \<in> created sha3 txs)))"
  using assms
proof (induction txs arbitrary: cb w s)
  case (Cons tx txs)
  let ?g = "db_Get L db"
  define m where "m = apply_ops (bw_batch w) ?g"
  have tx: "wf_tx tx" "wf256 (TxId sha3 tx)" "\<forall>tx \<in> set txs. wf_tx tx \<and> wf256 (TxId sha3 tx)" using Cons.prems(3) by simp_all
  have wi: "\<forall>i \<in> set (vin tx). wf256 (op_hash (prevout i))" and wo: "\<forall>t \<in> set (vout tx). length (scriptPubKey t) < 2 ^ 32"
    using tx(1) by (auto simp: wf_tx_def list_all_iff wf_txin_def wf_txout_def)
  obtain w1 s1 where s1: "(if cb then (True, w, s) else SpendBlockInputs L (vin tx) w s) = (True, w1, s1)"
    using Cons.prems(1) by (auto split: prod.splits if_splits)
  obtain w2 s2 where s2: "AddBlockOutputs (TxId sha3 tx) h cb 0 (vout tx) w1 s1 = (w2, s2)" by fastforce
  have run: "ApplyTransactions L sha3 h False txs w2 s2 = (True, w', s')" using Cons.prems(1) s1 s2 by simp
  define m1 m2 where "m1 = apply_ops (bw_batch w1) ?g" and "m2 = apply_ops (bw_batch w2) ?g"
  obtain rs where i: "mid_block db (coins m1) s1" "coins m1 = (if cb then coins m else spend_all (vin tx) (coins m))"
      "map fst rs = (if cb then [] else map prevout (vin tx))" "undoData w1 = undoData w @ concat (map (\<lambda>(p, e). UndoRecord p e) rs)"
      "spentCount w1 = spentCount w + of_nat (length rs)" "\<forall>(p, e) \<in> set rs. coins m p = Some e \<or> coins ?g p = Some e"
  proof (cases cb)
    case True
    show ?thesis by (rule that [of "[]"]) (use True s1 Cons.prems(2) in \<open>simp_all add: m_def m1_def\<close>)
  next
    case False
    then have "SpendBlockInputs L (vin tx) w s = (True, w1, s1)" using s1 by simp
    from SpendBlockInputs_effect [OF this Cons.prems(2) wi] show ?thesis
      using that False unfolding m_def [symmetric] m1_def [symmetric] by auto
  qed
  note o = AddBlockOutputs_effect [OF s2 i(1) [unfolded m1_def] tx(2) wo, folded m1_def m2_def]
  then have m2: "mid_block db (coins (apply_ops (bw_batch w2) ?g)) s2" unfolding m2_def [symmetric] by blast
  note ih = Cons.IH [OF run m2 tx(3), folded m2_def, unfolded if_False]
  then obtain rs2 where r: "map fst rs2 = concat (map (map prevout \<circ> vin) txs)"
      "undoData w' = undoData w2 @ concat (map (\<lambda>(p, e). UndoRecord p e) rs2)" "spentCount w' = spentCount w2 + of_nat (length rs2)"
      "\<forall>(p, e) \<in> set rs2. wf256 (op_hash p) \<and> small_entry e \<and> (coins m2 p = Some e \<or> coins ?g p = Some e \<or> p \<in> created sha3 txs)"
    by blast
  have cr: "created sha3 (tx # txs) = created_by (TxId sha3 tx) 0 (vout tx) \<union> created sha3 txs" by (simp add: created_def)
  have origin: "coins m p = Some e \<or> p \<in> created_by (TxId sha3 tx) 0 (vout tx)" if "coins m2 p = Some e" for p e
    using that o i(2) add_all_other [of p "TxId sha3 tx" 0 "vout tx" h cb "coins m1"] by (auto simp: spend_all_eq split: if_splits)
  have c1: "wf256 (op_hash p) \<and> small_entry e \<and> (coins m p = Some e \<or> coins ?g p = Some e \<or> p \<in> created sha3 (tx # txs))"
    if "(p, e) \<in> set rs" for p e using i(6) that coins_small by blast
  have c2: "wf256 (op_hash p) \<and> small_entry e \<and> (coins m p = Some e \<or> coins ?g p = Some e \<or> p \<in> created sha3 (tx # txs))"
    if "(p, e) \<in> set rs2" for p e using r(4) that origin unfolding cr by blast
  have "coins (apply_ops (bw_batch w') ?g) = block_effect sha3 h cb (tx # txs) (coins m)" using ih o i(2) by simp
  moreover have "map fst (rs @ rs2) = concat (map (map prevout \<circ> vin) (if cb then tl (tx # txs) else tx # txs))" using i(3) r(1) by simp
  moreover have "undoData w' = undoData w @ concat (map (\<lambda>(p, e). UndoRecord p e) (rs @ rs2))" using r(2) o i(4) by simp
  moreover have "spentCount w' = spentCount w + of_nat (length (rs @ rs2))" using r(3) o i(5) by simp
  moreover have "\<forall>(p, e) \<in> set (rs @ rs2). wf256 (op_hash p) \<and> small_entry e \<and>
      (coins m p = Some e \<or> coins ?g p = Some e \<or> p \<in> created sha3 (tx # txs))"
    using c1 c2 by auto
  ultimately show ?case using ih [THEN conjunct1] unfolding m_def [symmetric] by (intro conjI exI [of _ "rs @ rs2"])
qed simp

lemma utxos_clean: "us_db s = Some db \<Longrightarrow> cache_additions s = [] \<Longrightarrow> cache_deletions s = [] \<Longrightarrow> utxos L s = coins (db_Get L db)"
  by (rule ext) (simp add: utxos_def coins_def)

definition settled :: "'db leveldb \<Rightarrow> 'db CUTXOSet \<Rightarrow> bool" where
  "settled L s \<longleftrightarrow> utxo_inv L s \<and> cache_additions s = [] \<and> cache_deletions s = []"

lemma settled_mid: "us_db s = Some db \<Longrightarrow> settled L s \<longleftrightarrow> mid_block db (coins (db_Get L db)) s"
  using utxos_clean [of s db L] by (auto simp: settled_def utxo_inv_def mid_block_def)

text \<open>The last steps of a block: the batch is written and the statistics are flushed.\<close>

lemma write_block:
  assumes "leveldb_ok L" "mid_block db c s" "db_Write L db ops = (True, db')" "Flush L (s\<lparr>us_db := Some db', stats := st\<rparr>) = (True, s')"
    "\<And>p e. map_of (utxo_cache s) p = Some e \<Longrightarrow> coins (apply_ops ops (db_Get L db)) p = Some e"
  shows "settled L s' \<and> utxos L s' = coins (apply_ops ops (db_Get L db)) \<and> utxo_cache s' = utxo_cache s \<and>
    (\<exists>db''. us_db s' = Some db'' \<and> db_Get L db'' = (apply_ops ops (db_Get L db))(utxo_stats_key \<mapsto> StatsBytes st)) \<and> stats s' = st"
proof -
  let ?s = "s\<lparr>us_db := Some db', stats := st\<rparr>"
  have g: "db_Get L db' = apply_ops ops (db_Get L db)" using assms(1,3) by (auto simp: leveldb_ok_def)
  have "mid_block db' (coins (db_Get L db')) ?s" using assms(2,5) unfolding g by (auto simp: mid_block_def cache_wf_def)
  then have s: "settled L ?s" by (simp add: settled_mid)
  have c: "cache_additions s = []" "cache_deletions s = []" using assms(2) by (simp_all add: mid_block_def)
  have "utxos L ?s = coins (db_Get L db')" using c by (simp add: utxos_clean)
  moreover obtain db'' where d: "s' = ?s\<lparr>us_db := Some db''\<rparr>" "db_Write L db' [Put utxo_stats_key (StatsBytes st)] = (True, db'')"
    using assms(4) c by (auto simp: Flush_def PendingOps_def split: prod.splits if_splits)
  moreover have "db_Get L db'' = (db_Get L db')(utxo_stats_key \<mapsto> StatsBytes st)"
    using assms(1) d(2) by (auto simp: leveldb_ok_def)
  ultimately show ?thesis using Flush_correct [OF assms(1) _ assms(4)] s g by (auto simp: settled_def)
qed

abbreviation undo_records :: "(COutPoint \<times> CUTXOEntry) list \<Rightarrow> bytes" where
  "undo_records rs \<equiv> concat (map (\<lambda>(p, e). UndoRecord p e) rs)"

definition undo_payload :: "(COutPoint \<times> CUTXOEntry) list \<Rightarrow> bytes" where
  "undo_payload rs = le_bytes 4 (unat (of_nat (length rs) :: u32)) @ undo_records rs"

lemma block_effect_other:
  "p \<notin> created sha3 txs \<Longrightarrow> p \<notin> (\<Union>tx \<in> set (if cb then tl txs else txs). prevout ` set (vin tx)) \<Longrightarrow> block_effect sha3 h cb txs m p = m p"
proof (induction txs arbitrary: cb m)
  case (Cons tx txs)
  then have "p \<notin> created_by (TxId sha3 tx) 0 (vout tx)" "p \<notin> created sha3 txs" by (auto simp: created_def)
  then show ?case using Cons by (cases cb) (auto simp: add_all_other spend_all_eq)
qed simp

lemma block_effect_None: "m p = None \<Longrightarrow> p \<notin> created sha3 txs \<Longrightarrow> block_effect sha3 h cb txs m p = None"
proof (induction txs arbitrary: cb m)
  case (Cons tx txs)
  then have "p \<notin> created_by (TxId sha3 tx) 0 (vout tx)" "p \<notin> created sha3 txs" by (auto simp: created_def)
  then show ?case using Cons by (simp add: add_all_other spend_all_eq)
qed simp

lemma TxId_wf: "\<forall>x. wf256 (sha3 x) \<Longrightarrow> \<not> hash_valid tx \<Longrightarrow> wf256 (TxId sha3 tx)"
  by (simp add: TxId_def GetHash_def Let_def)

lemma ApplyBlock_effect:
  assumes "leveldb_ok L" "settled L s" "\<forall>x. wf256 (sha3 x)" "wf256 bh" "DeserializeBlockTransactions body = Inr txs"
    "ApplyBlock L sha3 body h bh s = (True, s')" "utxos L s (undo_point bh) = None" "undo_point bh \<notin> created sha3 txs"
  shows "settled L s' \<and> map_of (utxo_cache s') (undo_point bh) = None \<and>
    (\<forall>p. p \<noteq> undo_point bh \<longrightarrow> utxos L s' p = block_effect sha3 h True txs (utxos L s) p) \<and>
    (\<exists>rs db'. map fst rs = spent_points txs \<and>
       (\<forall>(p, e) \<in> set rs. wf256 (op_hash p) \<and> small_entry e \<and> (utxos L s p = Some e \<or> p \<in> created sha3 txs)) \<and>
       us_db s' = Some db' \<and> db_Get L db' (UndoKey bh) = Some (undo_payload rs @ sha3 (undo_payload rs)))"
proof -
  obtain db where db: "us_db s = Some db" using assms(2) by (auto simp: settled_def utxo_inv_def)
  let ?g = "db_Get L db" and ?w0 = "\<lparr>undoData = [0, 0, 0, 0], spentCount = 0, bw_batch = []\<rparr>"
  have u: "utxos L s = coins ?g" using assms(2) db by (simp add: utxos_clean settled_def)
  have mid: "mid_block db (coins (apply_ops (bw_batch ?w0) ?g)) s" using assms(2) db by (simp add: settled_mid)
  have ne: "txs \<noteq> []" and wf: "\<forall>tx \<in> set txs. wf_tx tx \<and> wf256 (TxId sha3 tx)"
    using DeserializeBlockTransactions_sound [OF assms(5)] TxId_wf [OF assms(3)] by auto
  obtain w t where t: "ApplyTransactions L sha3 h True txs ?w0 s = (True, w, t)"
    using assms(5,6) db ne by (auto simp: ApplyBlock_def split: prod.splits if_splits)
  define m where "m = apply_ops (bw_batch w) ?g"
  have eff: "mid_block db (coins m) t" "coins m = block_effect sha3 h True txs (coins ?g)"
    using ApplyTransactions_effect [OF t mid wf] unfolding m_def by (blast, simp)
  obtain rs where rs: "map fst rs = spent_points txs" "undoData w = [0, 0, 0, 0] @ undo_records rs" "spentCount w = of_nat (length rs)"
      "\<forall>(p, e) \<in> set rs. wf256 (op_hash p) \<and> small_entry e \<and> (coins ?g p = Some e \<or> p \<in> created sha3 txs)"
    using ApplyTransactions_effect [OF t mid wf] by (auto simp: spent_points_def)
  define undo where "undo = undo_payload rs @ sha3 (undo_payload rs)"
  define st where "st = (stats t)\<lparr>st_nHeight := h\<rparr>"
  have swap: "t\<lparr>stats := x, us_db := y\<rparr> = t\<lparr>us_db := y, stats := x\<rparr>" for x y by simp
  obtain db' where w: "db_Write L db (bw_batch w @ [Put (UndoKey bh) undo]) = (True, db')" "Flush L (t\<lparr>us_db := Some db', stats := st\<rparr>) = (True, s')"
    using assms(5,6) db ne t rs(2,3) eff(1)
    by (auto simp: ApplyBlock_def undo_payload_def undo_def st_def swap Let_def mid_block_def split: prod.splits if_splits)
  have none: "coins m (undo_point bh) = None" unfolding eff(2) using assms(7,8) u by (simp add: block_effect_None)
  have final: "apply_ops (bw_batch w @ [Put (UndoKey bh) undo]) ?g = m(UndoKey bh \<mapsto> undo)" by (simp add: m_def)
  have same: "coins (m(UndoKey bh \<mapsto> undo)) p = coins m p" if "p \<noteq> undo_point bh" for p
    using that key_facts(2) [OF _ assms(4), of p] by (simp add: coins_def entry_at_def)
  have c: "coins (apply_ops (bw_batch w @ [Put (UndoKey bh) undo]) ?g) p = Some e" if "map_of (utxo_cache t) p = Some e" for p e
  proof -
    have "coins m p = Some e" using eff(1) that by (simp add: mid_block_def)
    moreover from this none have "p \<noteq> undo_point bh" by auto
    ultimately show ?thesis unfolding final using same by simp
  qed
  note f = write_block [OF assms(1) eff(1) w c, unfolded final]
  have "map_of (utxo_cache t) (undo_point bh) = None"
    using eff(1) none by (cases "map_of (utxo_cache t) (undo_point bh)") (simp_all add: mid_block_def)
  moreover have "UndoKey bh \<noteq> utxo_stats_key" using key_facts(1) [OF SerializeOutPoint_undo_point(1) [OF assms(4)]] SerializeOutPoint_undo_point(2) [OF assms(4)] by simp
  then have "\<exists>db'. us_db s' = Some db' \<and> db_Get L db' (UndoKey bh) = Some undo" using f by auto
  ultimately show ?thesis using f rs same eff(2) unfolding undo_def u by auto
qed

lemma undo_records_length: "\<forall>(p, e) \<in> set rs. wf256 (op_hash p) \<Longrightarrow> 53 * length rs \<le> length (undo_records rs)"
  by (induction rs) (auto simp: UndoRecord_def Let_def wf256_def)

lemma ReadUndoBlock_back:
  assumes "us_db s = Some db" "db_Get L db (UndoKey bh) = Some (undo_payload rs @ sha3 (undo_payload rs))" "\<forall>x. wf256 (sha3 x)"
    "\<forall>(p, e) \<in> set rs. wf256 (op_hash p) \<and> small_entry e" "length rs < 2 ^ 32"
  shows "ReadUndoBlock L sha3 bh s = Some rs"
proof -
  have l: "length (sha3 x) = 32" for x using assms(3) by (simp add: wf256_def)
  have n: "unat (of_nat (length rs) :: u32) = length rs" using assms(5) by (rule unat_of_nat_u32)
  have "53 * length rs \<le> length (undo_records rs)" using assms(4) by (intro undo_records_length) auto
  moreover have "decode_n (length rs) ReadUndoRecord (undo_records rs) = Inr (rs, [])"
    using undo_record.decode_n_concat [of rs "[]"] assms(4) by auto
  moreover have "le_val (le_bytes 4 (length rs)) = length rs" using assms(5) by (simp add: le_val_le_bytes)
  moreover have p: "take 4 (undo_payload rs) = le_bytes 4 (unat (of_nat (length rs) :: u32))" "drop 4 (undo_payload rs) = undo_records rs"
      "4 \<le> length (undo_payload rs)" by (simp_all add: undo_payload_def)
  ultimately show ?thesis using assms(1,2) n by (simp add: ReadUndoBlock_def l Let_def)
qed

text \<open>Undoing keeps the cache within the outputs of the batch, the entry at the undo data's own key left out.\<close>

lemma atLeastLessThan_insert_low: "{n ..< Suc (n + k)} = insert n {Suc n ..< Suc (n + k)}"
  by auto

definition without :: "COutPoint \<Rightarrow> (COutPoint \<Rightarrow> CUTXOEntry option) \<Rightarrow> COutPoint \<Rightarrow> CUTXOEntry option" where
  "without u m = m(u := None)"

lemma without_upd: "without u (m(p := None)) = (without u m)(p := None)" "p \<noteq> u \<Longrightarrow> without u (m(p \<mapsto> e)) = (without u m)(p \<mapsto> e)"
  by (auto simp: without_def fun_eq_iff)

lemma RemoveBlockOutputs_effect:
  assumes "RemoveBlockOutputs txid n outs ops s = (ops', s')" "mid_block db (without u (coins (apply_ops ops g))) s" "wf256 txid"
  shows "mid_block db (without u (coins (apply_ops ops' g))) s' \<and>
    coins (apply_ops ops' g) = coins (apply_ops ops g) |` (- created_by txid n outs)"
  using assms
proof (induction outs arbitrary: n ops s)
  case Nil
  then show ?case by (simp add: created_by_def restrict_map_def)
next
  case (Cons t outs)
  let ?p = "\<lparr>op_hash = txid, op_n = of_nat n\<rparr>" and ?ops = "ops @ [Delete (SerializeOutPoint \<lparr>op_hash = txid, op_n = of_nat n\<rparr>)]"
  define m1 where "m1 = apply_ops ?ops g"
  have d: "coins m1 = (coins (apply_ops ops g))(?p := None)" using coins_Delete [of ?p] Cons.prems(3) by (simp add: m1_def)
  have m: "mid_block db (without u (coins (apply_ops ?ops g))) (StatsSpend t (RemoveFromCache ?p s))"
    using mid_Remove [OF Cons.prems(2), of ?p] unfolding m1_def [symmetric] d mid_stats without_upd .
  have run: "RemoveBlockOutputs txid (Suc n) outs ?ops (StatsSpend t (RemoveFromCache ?p s)) = (ops', s')"
    using Cons.prems(1) by (simp add: Let_def)
  note ih = Cons.IH [OF run m Cons.prems(3), folded m1_def]
  have "created_by txid n (t # outs) = insert ?p (created_by txid (Suc n) outs)"
    by (simp add: created_by_def atLeastLessThan_insert_low)
  then have "coins m1 |` (- created_by txid (Suc n) outs) = coins (apply_ops ops g) |` (- created_by txid n (t # outs))"
    unfolding d by (auto simp: restrict_map_def fun_eq_iff)
  then show ?case using ih by metis
qed

lemma RemoveTransactions_effect:
  assumes "RemoveTransactions sha3 txs ops s = (ops', s')" "mid_block db (without u (coins (apply_ops ops g))) s"
    "\<forall>tx \<in> set txs. wf256 (TxId sha3 tx)"
  shows "mid_block db (without u (coins (apply_ops ops' g))) s' \<and>
    coins (apply_ops ops' g) = coins (apply_ops ops g) |` (- created sha3 txs)"
  using assms
proof (induction txs arbitrary: ops s)
  case Nil
  then show ?case by (simp add: created_def restrict_map_def)
next
  case (Cons tx txs)
  obtain ops1 s1 where r: "RemoveBlockOutputs (TxId sha3 tx) 0 (vout tx) ops s = (ops1, s1)" by fastforce
  have tx: "wf256 (TxId sha3 tx)" "\<forall>tx \<in> set txs. wf256 (TxId sha3 tx)" using Cons.prems(3) by simp_all
  note o = RemoveBlockOutputs_effect [OF r Cons.prems(2) tx(1)]
  have run: "RemoveTransactions sha3 txs ops1 s1 = (ops', s')" using Cons.prems(1) r by simp
  have c: "- created sha3 (tx # txs) = - created_by (TxId sha3 tx) 0 (vout tx) \<inter> - created sha3 txs" by (simp add: created_def)
  from Cons.IH [OF run o [THEN conjunct1] tx(2)] o [THEN conjunct2] show ?case unfolding c
    by (metis restrict_restrict)
qed

lemma RestoreInputs_effect:
  assumes "mid_block db (without u (coins (apply_ops ops g))) s" "\<forall>(p, e) \<in> set rs. wf256 (op_hash p) \<and> small_entry e \<and> p \<noteq> u"
  shows "\<exists>ops' s'. RestoreInputs (length rs) (undo_records rs) ops s = (True, ops', s') \<and>
    mid_block db (without u (coins (apply_ops ops' g))) s' \<and> coins (apply_ops ops' g) = coins (apply_ops ops g) ++ map_of (rev rs)"
  using assms
proof (induction rs arbitrary: ops s)
  case (Cons r rs)
  obtain p e where r: "r = (p, e)" by force
  then have p: "wf256 (op_hash p)" "small_entry e" "p \<noteq> u" using Cons.prems(2) by auto
  let ?ops = "ops @ [Put (SerializeOutPoint p) (OutputValue (utxo_nHeight e) (fCoinBase e) (utxo_out e))]"
  define m1 where "m1 = apply_ops ?ops g"
  have d: "coins m1 = (coins (apply_ops ops g))(p \<mapsto> e)"
    using coins_Put [OF p(1,2)] OutputValue_entry [OF p(2)] by (simp add: m1_def)
  have m: "mid_block db (without u (coins (apply_ops ?ops g))) (StatsAdd (utxo_out e) (UpdateCache p e s))"
    using mid_Update [OF Cons.prems(1), of p e] unfolding m1_def [symmetric] d mid_stats without_upd(2) [OF p(3)] .
  have "\<forall>(p, e) \<in> set rs. wf256 (op_hash p) \<and> small_entry e \<and> p \<noteq> u" using Cons.prems(2) by simp
  from Cons.IH [OF m this, folded m1_def] obtain ops' s' where
    "RestoreInputs (length rs) (undo_records rs) ?ops (StatsAdd (utxo_out e) (UpdateCache p e s)) = (True, ops', s')"
    "mid_block db (without u (coins (apply_ops ops' g))) s'" "coins (apply_ops ops' g) = coins m1 ++ map_of (rev rs)" by blast
  moreover have "coins m1 ++ map_of (rev rs) = coins (apply_ops ops g) ++ map_of (rev (r # rs))" unfolding d r by simp
  ultimately show ?case using p by (simp add: r ReadUndoRecord_enc)
qed simp

lemma WriteAndFlush_ok: "\<forall>db ops. fst (db_Write L db ops) \<Longrightarrow> us_db s = Some db \<Longrightarrow> cache_additions s = [] \<Longrightarrow> cache_deletions s = [] \<Longrightarrow>
    \<exists>db' s'. db_Write L db ops = (True, db') \<and> Flush L (s\<lparr>us_db := Some db'\<rparr>) = (True, s') \<and> WriteAndFlush L ops s = (True, s')"
  by (auto simp: WriteAndFlush_def Flush_def PendingOps_def split: prod.splits) (metis fst_conv)+

lemma map_of_same: "\<forall>(p, e) \<in> set rs. m p = Some e \<Longrightarrow> map_of rs p = (if p \<in> fst ` set rs then m p else None)"
  by (induction rs) auto

lemma UndoBlock_effect:
  assumes "leveldb_ok L" "\<forall>db ops. fst (db_Write L db ops)" "settled L s" "us_db s = Some db" "wf256 bh" "\<forall>x. wf256 (sha3 x)"
    "map_of (utxo_cache s) (undo_point bh) = None" "DeserializeBlockTransactions body = Inr txs"
    "db_Get L db (UndoKey bh) = Some (undo_payload rs @ sha3 (undo_payload rs))" "length rs < 2 ^ 32"
    "\<forall>(p, e) \<in> set rs. wf256 (op_hash p) \<and> small_entry e \<and> p \<noteq> undo_point bh"
  shows "\<exists>s'. UndoBlock L sha3 body ch bh s = (True, s') \<and> settled L s' \<and>
    utxos L s' = without (undo_point bh) (utxos L s |` (- created sha3 txs) ++ map_of (rev rs))"
proof -
  let ?g = "db_Get L db" and ?u = "undo_point bh"
  have us: "utxos L s = coins ?g" using assms(3,4) by (simp add: utxos_clean settled_def)
  have mid: "mid_block db (without ?u (coins (apply_ops [] ?g))) s"
    using assms(3,4,7) settled_mid [OF assms(4), of L] by (auto simp: mid_block_def without_def)
  have ne: "txs \<noteq> []" and wf: "\<forall>tx \<in> set (rev txs). wf256 (TxId sha3 tx)"
    using DeserializeBlockTransactions_sound [OF assms(8)] TxId_wf [OF assms(6)] by auto
  obtain ops1 s1 where r: "RemoveTransactions sha3 (rev txs) [] s = (ops1, s1)" by fastforce
  note rm = RemoveTransactions_effect [OF r mid wf]
  obtain ops2 s2 where t: "RestoreInputs (length rs) (undo_records rs) ops1 s1 = (True, ops2, s2)"
      "mid_block db (without ?u (coins (apply_ops ops2 ?g))) s2" "coins (apply_ops ops2 ?g) = coins (apply_ops ops1 ?g) ++ map_of (rev rs)"
    using RestoreInputs_effect [OF rm [THEN conjunct1] assms(11)] by blast
  let ?ops = "ops2 @ [Delete (UndoKey bh)]"
  have c: "coins (apply_ops ?ops ?g) = without ?u (coins (apply_ops ops2 ?g))"
    using coins_Delete [OF SerializeOutPoint_undo_point(1) [OF assms(5)]] SerializeOutPoint_undo_point(2) [OF assms(5)] by (simp add: without_def)
  have l: "us_db (LowerHeight s2) = Some db" "cache_additions (LowerHeight s2) = []" "cache_deletions (LowerHeight s2) = []"
    using t(2) by (auto simp: LowerHeight_def mid_block_def)
  obtain db' s' where w: "db_Write L db ?ops = (True, db')" "Flush L ((LowerHeight s2)\<lparr>us_db := Some db'\<rparr>) = (True, s')"
      "WriteAndFlush L ?ops (LowerHeight s2) = (True, s')" using WriteAndFlush_ok [OF assms(2) l] by blast
  have lower: "(LowerHeight s2)\<lparr>us_db := Some db'\<rparr> = s2\<lparr>us_db := Some db', stats := stats (LowerHeight s2)\<rparr>" by (simp add: LowerHeight_def)
  have "coins (apply_ops ?ops ?g) p = Some e" if "map_of (utxo_cache s2) p = Some e" for p e
    using t(2) that unfolding c by (simp add: mid_block_def)
  from write_block [OF assms(1) t(2) w(1) w(2) [unfolded lower] this]
  have "settled L s'" "utxos L s' = without ?u (coins (apply_ops ops2 ?g))" unfolding c by blast+
  moreover have "length (sha3 x) = 32" for x using assms(6) by (simp add: wf256_def)
  then have "UndoBlock L sha3 body ch bh s = (True, s')" using assms(4,8-10) ne r t(1) w(3)
    by (simp add: UndoBlock_def VerifyUndoChecksum_def Let_def undo_payload_def unat_of_nat_u32 le_val_le_bytes)
  ultimately show ?thesis using rm t(3) us by (auto simp: created_def)
qed

section \<open>Blocks that can be applied\<close>

definition nothing_pending :: "'db \<Rightarrow> 'db CUTXOSet \<Rightarrow> bool" where
  "nothing_pending db s \<longleftrightarrow> us_db s = Some db \<and> cache_additions s = [] \<and> cache_deletions s = []"

lemma GetUTXO_finds:
  assumes "nothing_pending db s" "coins (db_Get L db) p \<noteq> None"
  shows "\<exists>e t. GetUTXO L p s = (Some e, t) \<and> nothing_pending db t"
  using assms
  by (cases "map_of (utxo_cache s) p")
    (auto simp: nothing_pending_def GetUTXO_def GetFromCache_def coins_def entry_at_def bind_eq_Some_conv split: option.splits if_splits)

lemma nothing_pending_ops [simp]:
  "nothing_pending db (StatsAdd t s) = nothing_pending db s" "nothing_pending db (StatsSpend t s) = nothing_pending db s"
  "nothing_pending db (UpdateCache p e s) = nothing_pending db s" "nothing_pending db (RemoveFromCache p s) = nothing_pending db s"
  by (simp_all add: nothing_pending_def)

lemma SpendBlockInputs_succeeds:
  assumes "nothing_pending db s" "\<forall>i \<in> set ins. coins (db_Get L db) (prevout i) \<noteq> None"
  shows "\<exists>w' s'. SpendBlockInputs L ins w s = (True, w', s') \<and> nothing_pending db s'"
  using assms
proof (induction ins arbitrary: w s)
  case (Cons i ins)
  obtain e t where e: "GetUTXO L (prevout i) s = (Some e, t)" "nothing_pending db t"
    using GetUTXO_finds [OF Cons.prems(1)] Cons.prems(2) by fastforce
  have "nothing_pending db (StatsSpend (utxo_out e) (RemoveFromCache (prevout i) t))" using e(2) by simp
  from Cons.IH [OF this] show ?case using e(1) Cons.prems(2) by simp
qed simp

lemma AddBlockOutputs_pending:
  "nothing_pending db s \<Longrightarrow> AddBlockOutputs txid h cb n outs w s = (w', s') \<Longrightarrow> nothing_pending db s'"
proof (induction outs arbitrary: n w s)
  case (Cons t outs)
  from Cons.IH [OF _ Cons.prems(2) [unfolded AddBlockOutputs.simps Let_def]] Cons.prems(1) show ?case by simp
qed simp

lemma ApplyTransactions_succeeds:
  assumes "nothing_pending db s" "\<forall>tx \<in> set (if cb then tl txs else txs). \<forall>i \<in> set (vin tx). coins (db_Get L db) (prevout i) \<noteq> None"
  shows "\<exists>w' s'. ApplyTransactions L sha3 h cb txs w s = (True, w', s') \<and> nothing_pending db s'"
  using assms
proof (induction txs arbitrary: cb w s)
  case (Cons tx txs)
  obtain w1 s1 where s1: "(if cb then (True, w, s) else SpendBlockInputs L (vin tx) w s) = (True, w1, s1)" "nothing_pending db s1"
    using SpendBlockInputs_succeeds [OF Cons.prems(1), of "vin tx" L w] Cons.prems by (cases cb) auto
  obtain w2 s2 where s2: "AddBlockOutputs (TxId sha3 tx) h cb 0 (vout tx) w1 s1 = (w2, s2)" by fastforce
  have "\<forall>tx \<in> set (if False then tl txs else txs). \<forall>i \<in> set (vin tx). coins (db_Get L db) (prevout i) \<noteq> None"
    using Cons.prems(2) by (cases cb) auto
  from Cons.IH [OF AddBlockOutputs_pending [OF s1(2) s2] this] show ?case using s1(1) s2 by simp
qed simp

lemma ApplyBlock_finishes:
  assumes "\<forall>db ops. fst (db_Write L db ops)" "us_db s \<noteq> None" "DeserializeBlockTransactions body = Inr txs"
    "ApplyTransactions L sha3 h True txs \<lparr>undoData = [0, 0, 0, 0], spentCount = 0, bw_batch = []\<rparr> s = (True, w, t)" "nothing_pending db t"
  shows "\<exists>s'. ApplyBlock L sha3 body h bh s = (True, s')"
proof -
  have ne: "txs \<noteq> []" using DeserializeBlockTransactions_sound [OF assms(3)] by auto
  have w: "\<exists>db'. db_Write L db'' ops = (True, db')" for db'' ops using assms(1) by (metis prod.collapse)
  have f: "us_db s' \<noteq> None \<Longrightarrow> \<exists>s''. Flush L s' = (True, s'')" for s'
    using w by (auto simp: Flush_def split: prod.splits) (metis fst_conv)
  show ?thesis using ne assms(2-5) w f by (auto simp: ApplyBlock_def nothing_pending_def Let_def split: prod.splits) (metis fst_conv)+
qed

lemma ApplyBlock_succeeds:
  assumes "\<forall>db ops. fst (db_Write L db ops)" "settled L s" "DeserializeBlockTransactions body = Inr txs"
    "\<forall>p \<in> set (spent_points txs). utxos L s p \<noteq> None"
  shows "\<exists>s'. ApplyBlock L sha3 body h bh s = (True, s')"
proof -
  obtain db where db: "us_db s = Some db" using assms(2) by (auto simp: settled_def utxo_inv_def)
  have u: "utxos L s = coins (db_Get L db)" and n: "nothing_pending db s"
    using assms(2) db by (simp_all add: utxos_clean settled_def nothing_pending_def)
  have "\<forall>tx \<in> set (if True then tl txs else txs). \<forall>i \<in> set (vin tx). coins (db_Get L db) (prevout i) \<noteq> None"
    using assms(4) unfolding u by (auto simp: spent_points_def)
  from ApplyTransactions_succeeds [OF n this] obtain w t where
    t: "ApplyTransactions L sha3 h True txs \<lparr>undoData = [0, 0, 0, 0], spentCount = 0, bw_batch = []\<rparr> s = (True, w, t)"
      "nothing_pending db t" by blast
  show ?thesis using ApplyBlock_finishes [OF assms(1) _ assms(3) t] db by simp
qed

section \<open>Properties\<close>

definition ex_level :: "(bytes \<Rightarrow> bytes option) leveldb" where
  "ex_level = \<lparr>db_Get = \<lambda>db k. db k, db_Write = \<lambda>db ops. (True, apply_ops ops db), db_Iterate = \<lambda>db. ([], True)\<rparr>"

definition ex_hash32 :: "bytes \<Rightarrow> uint256" where
  "ex_hash32 x = of_nat (length x) # replicate 31 0"

abbreviation ex_point :: COutPoint where
  "ex_point \<equiv> \<lparr>op_hash = replicate 32 7, op_n = 0\<rparr>"

abbreviation ex_entry :: CUTXOEntry where
  "ex_entry \<equiv> \<lparr>utxo_out = \<lparr>nValue = 1000, scriptPubKey = [1]\<rparr>, utxo_nHeight = 5, fCoinBase = False\<rparr>"

definition ex_set :: "(bytes \<Rightarrow> bytes option) CUTXOSet" where
  "ex_set = CUTXOSet_new\<lparr>us_db := Some [SerializeOutPoint ex_point \<mapsto> SerializeUTXOEntry ex_entry]\<rparr>"

lemma ex_level_ok: "leveldb_ok ex_level" "\<forall>db ops. fst (db_Write ex_level db ops)" "\<forall>x. wf256 (ex_hash32 x)"
  by (simp_all add: leveldb_ok_def ex_level_def ex_hash32_def wf256_def)

lemma utxos_ex_set: "utxos ex_level ex_set = [ex_point \<mapsto> ex_entry]"
proof -
  have "utxos ex_level ex_set = coins [SerializeOutPoint ex_point \<mapsto> SerializeUTXOEntry ex_entry]"
    by (rule utxos_clean [THEN trans]) (auto simp: ex_set_def CUTXOSet_new_def ex_level_def)
  also have "\<dots> = (coins Map.empty)(ex_point \<mapsto> ex_entry)" by (rule coins_Put) (simp_all add: wf256_def small_entry_def)
  finally show ?thesis by (simp add: coins_def entry_at_def fun_eq_iff)
qed

lemma settled_ex_set: "settled ex_level ex_set"
  by (simp add: settled_def utxo_inv_def cache_wf_def ex_set_def CUTXOSet_new_def)



text \<open>
  C6: applying a block. On a set with nothing pending, over a database whose writes report the truth, \<open>ApplyBlock\<close> succeeds
  when all inputs after the first transaction spend outputs of the set and the writes succeed; and whenever it succeeds the
  set has lost the spent outputs and gained the created ones, transaction by transaction, and the undo data that
  \<open>ReadUndoBlock\<close> finds lists the spent outpoints in order with the entries they had. The outpoint whose key is that of
  the undo data is set apart. Nothing here asks that an output is spent only once: a block whose two transactions
  spend the same output of the set is applied too.
\<close>

theorem apply_block_refines:
  assumes "leveldb_ok L" "settled L s" "\<forall>x. wf256 (sha3 x)" "wf256 bh" "DeserializeBlockTransactions body = Inr txs"
    "utxos L s (undo_point bh) = None" "undo_point bh \<notin> created sha3 txs" "length (spent_points txs) < 2 ^ 32"
  shows "((\<forall>p \<in> set (spent_points txs). utxos L s p \<noteq> None) \<and> (\<forall>db ops. fst (db_Write L db ops)) \<longrightarrow>
      fst (ApplyBlock L sha3 body h bh s)) \<and>
    (\<forall>s'. ApplyBlock L sha3 body h bh s = (True, s') \<longrightarrow>
      settled L s' \<and> (\<forall>p. p \<noteq> undo_point bh \<longrightarrow> utxos L s' p = block_effect sha3 h True txs (utxos L s) p) \<and>
      (\<exists>rs. ReadUndoBlock L sha3 bh s' = Some rs \<and> map fst rs = spent_points txs \<and>
         (\<forall>(p, e) \<in> set rs. utxos L s p = Some e \<or> p \<in> created sha3 txs)))"
proof (intro conjI allI impI, goal_cases)
  case 1
  then show ?case using ApplyBlock_succeeds [of L s body txs sha3 h bh] assms(2,5) by auto
next
  case (2 s')
  from ApplyBlock_effect [OF assms(1-5) 2 assms(6,7)] show ?case by blast
next
  case (3 s')
  from ApplyBlock_effect [OF assms(1-5) 3(1) assms(6,7)] 3(2) show ?case by blast
next
  case (4 s')
  from ApplyBlock_effect [OF assms(1-5) 4 assms(6,7)] obtain rs db' where
    r: "map fst rs = spent_points txs" "\<forall>(p, e) \<in> set rs. wf256 (op_hash p) \<and> small_entry e \<and> (utxos L s p = Some e \<or> p \<in> created sha3 txs)"
      "us_db s' = Some db'" "db_Get L db' (UndoKey bh) = Some (undo_payload rs @ sha3 (undo_payload rs))" by blast
  have "length rs < 2 ^ 32" using assms(8) r(1) by (metis length_map)
  then have "ReadUndoBlock L sha3 bh s' = Some rs" using r assms(3) by (intro ReadUndoBlock_back) auto
  then show ?case using r by blast
qed

definition ex_txs :: "CTransaction list" where
  "ex_txs = [ex_coinbase 5000000000 0, ex_spend 7 900]"

abbreviation ex_body :: "CTransaction list \<Rightarrow> bytes" where
  "ex_body txs \<equiv> SerializeTransactionsToVtx (map Some txs)"

lemma fresh_ex_coinbase: "fresh_tx (ex_coinbase v d)"
  by (simp add: fresh_tx_def wf_tx_def ex_coinbase_def CTransaction_default_def wf_txin_def wf_txout_def wf256_def ex_out_def
      DEV_FUND_PUBKEY_HASH_def DEV_REWARD_PUBKEY_HASH_def zero256_def)

lemma ex_body_read: "DeserializeBlockTransactions (ex_body ex_txs) = Inr ex_txs"
  by (rule vtx_decode(2)) (simp_all add: ex_txs_def fresh_ex_coinbase fresh_ex_spend)

lemma created_hash: "p \<in> created ex_hash32 txs \<Longrightarrow> \<forall>tx \<in> set txs. \<not> hash_valid tx \<Longrightarrow> op_hash p ! 1 = 0"
  by (auto simp: created_def created_by_def TxId_def GetHash_def Let_def ex_hash32_def)

lemma ex_txs_points:
  "spent_points ex_txs = [ex_point]" "undo_point (replicate 32 9) \<notin> created ex_hash32 ex_txs" "ex_point \<notin> created ex_hash32 ex_txs"
  "undo_point (replicate 32 9) \<noteq> ex_point"
proof -
  have f: "\<forall>tx \<in> set ex_txs. \<not> hash_valid tx" using fresh_ex_coinbase fresh_ex_spend by (auto simp: ex_txs_def fresh_tx_def)
  show "spent_points ex_txs = [ex_point]" by (simp add: spent_points_def ex_txs_def ex_spend_def)
  show "undo_point (replicate 32 9) \<notin> created ex_hash32 ex_txs" "ex_point \<notin> created ex_hash32 ex_txs"
    using created_hash [OF _ f, of "undo_point (replicate 32 9)"] created_hash [OF _ f, of ex_point] by (auto simp: undo_point_def)
  show "undo_point (replicate 32 9) \<noteq> ex_point" by (auto simp: undo_point_def dest!: arg_cong [of _ _ "\<lambda>x. x ! 1"])
qed

theorem apply_block_refines_witness:
  "\<exists>s' rs. ApplyBlock ex_level ex_hash32 (ex_body ex_txs) 9 (replicate 32 9) ex_set = (True, s') \<and> utxos ex_level s' ex_point = None \<and>
     ReadUndoBlock ex_level ex_hash32 (replicate 32 9) s' = Some [(ex_point, ex_entry)]"
proof -
  have "length (spent_points ex_txs) < 2 ^ 32" "wf256 (replicate 32 9)" by (simp_all add: ex_txs_points wf256_def)
  note a = apply_block_refines [OF ex_level_ok(1) settled_ex_set ex_level_ok(3) this(2) ex_body_read _ ex_txs_points(2) this(1), of 9]
  have u: "utxos ex_level ex_set (undo_point (replicate 32 9)) = None" using ex_txs_points(4) by (simp add: utxos_ex_set)
  have "fst (ApplyBlock ex_level ex_hash32 (ex_body ex_txs) 9 (replicate 32 9) ex_set)"
    using a u ex_level_ok(2) by (simp add: ex_txs_points(1) utxos_ex_set)
  then obtain s' where s': "ApplyBlock ex_level ex_hash32 (ex_body ex_txs) 9 (replicate 32 9) ex_set = (True, s')" by (metis prod.collapse)
  have e: "block_effect ex_hash32 9 True ex_txs (utxos ex_level ex_set) ex_point = None"
    using ex_txs_points(3) by (auto simp: ex_txs_def created_def add_all_other spend_all_eq) (simp add: ex_spend_def)
  obtain rs where r: "ReadUndoBlock ex_level ex_hash32 (replicate 32 9) s' = Some rs" "map fst rs = [ex_point]"
      "\<forall>(p, e) \<in> set rs. utxos ex_level ex_set p = Some e \<or> p \<in> created ex_hash32 ex_txs"
    using a u s' ex_txs_points(1) by auto
  have "rs = [(ex_point, ex_entry)]" using r(2,3) ex_txs_points(3) by (auto simp: utxos_ex_set)
  moreover have "utxos ex_level s' ex_point = None" using a u s' e ex_txs_points(4) by auto
  ultimately show ?thesis using s' r(1) by blast
qed

lemma undo_after_apply:
  assumes "leveldb_ok L" "\<forall>db ops. fst (db_Write L db ops)" "settled L s" "\<forall>x. wf256 (sha3 x)" "wf256 bh"
    "DeserializeBlockTransactions body = Inr txs" "ApplyBlock L sha3 body h bh s = (True, s')"
    "utxos L s (undo_point bh) = None" "undo_point bh \<notin> created sha3 txs" "length (spent_points txs) < 2 ^ 32"
  shows "\<exists>rs s''. map fst rs = spent_points txs \<and> (\<forall>(p, e) \<in> set rs. utxos L s p = Some e \<or> p \<in> created sha3 txs) \<and>
    UndoBlock L sha3 body ch bh s' = (True, s'') \<and> settled L s'' \<and>
    utxos L s'' = (block_effect sha3 h True txs (utxos L s) |` (- created sha3 txs)) ++ map_of (rev rs)"
proof -
  note a = ApplyBlock_effect [OF assms(1,3-9)]
  obtain rs db' where r: "map fst rs = spent_points txs"
      "\<forall>(p, e) \<in> set rs. wf256 (op_hash p) \<and> small_entry e \<and> (utxos L s p = Some e \<or> p \<in> created sha3 txs)"
      "us_db s' = Some db'" "db_Get L db' (UndoKey bh) = Some (undo_payload rs @ sha3 (undo_payload rs))" using a by blast
  have l: "length rs < 2 ^ 32" using assms(10) r(1) by (metis length_map)
  have p: "\<forall>(p, e) \<in> set rs. wf256 (op_hash p) \<and> small_entry e \<and> p \<noteq> undo_point bh" using r(2) assms(8,9) by auto
  from UndoBlock_effect [OF assms(1,2) a [THEN conjunct1] r(3) assms(5,4) a [THEN conjunct2, THEN conjunct1] assms(6) r(4) l p, of ch]
  obtain s'' where u: "UndoBlock L sha3 body ch bh s' = (True, s'')" "settled L s''"
      "utxos L s'' = without (undo_point bh) (utxos L s' |` (- created sha3 txs) ++ map_of (rev rs))" by blast
  have "block_effect sha3 h True txs (utxos L s) (undo_point bh) = None" using assms(8,9) by (rule block_effect_None)
  moreover have "map_of (rev rs) (undo_point bh) = None" using p by (auto simp: map_of_eq_None_iff)
  ultimately have "utxos L s'' q = ((block_effect sha3 h True txs (utxos L s) |` (- created sha3 txs)) ++ map_of (rev rs)) q" for q
    using a u(3) by (cases "q = undo_point bh") (auto simp: without_def map_add_def restrict_map_def split: option.splits)
  then show ?thesis using u(1,2) r by (intro exI [of _ rs] exI [of _ s'']) (auto simp: fun_eq_iff)
qed



text \<open>
  C38: a block that spends an output of its own. Undoing it leaves that output in the set, though the set did not have it
  before the block: the outputs of the block are removed first, then all inputs are restored.
\<close>

theorem undo_phantom:
  assumes "leveldb_ok L" "\<forall>db ops. fst (db_Write L db ops)" "settled L s" "\<forall>x. wf256 (sha3 x)" "wf256 bh"
    "DeserializeBlockTransactions body = Inr txs" "ApplyBlock L sha3 body h bh s = (True, s')"
    "utxos L s (undo_point bh) = None" "undo_point bh \<notin> created sha3 txs" "length (spent_points txs) < 2 ^ 32"
    "p \<in> set (spent_points txs)" "p \<in> created sha3 txs" "utxos L s p = None"
  shows "\<exists>s'' e. UndoBlock L sha3 body ch bh s' = (True, s'') \<and> utxos L s'' p = Some e"
proof -
  from undo_after_apply [OF assms(1-10), of ch] obtain rs s'' where
    r: "map fst rs = spent_points txs" "UndoBlock L sha3 body ch bh s' = (True, s'')"
      "utxos L s'' = (block_effect sha3 h True txs (utxos L s) |` (- created sha3 txs)) ++ map_of (rev rs)" by blast
  have "p \<in> fst ` set (rev rs)" using r(1) assms(11) by (metis set_map set_rev)
  then obtain e where "map_of (rev rs) p = Some e" by (metis map_of_eq_None_iff option.exhaust)
  then show ?thesis using r(2,3) by (auto simp: map_add_def)
qed

definition ex_chain :: "CTransaction list" where
  "ex_chain = [ex_coinbase 5000000000 0, CTransaction_default\<lparr>
     vin := [\<lparr>prevout = \<lparr>op_hash = TxId ex_hash32 (ex_coinbase 5000000000 0), op_n = 0\<rparr>, scriptSig = [], nSequence = SEQUENCE_FINAL\<rparr>],
     vout := [ex_out 7 (replicate 20 2)]\<rparr>]"

abbreviation ex_own :: COutPoint where
  "ex_own \<equiv> \<lparr>op_hash = TxId ex_hash32 (ex_coinbase 5000000000 0), op_n = 0\<rparr>"

lemma ex_own_wf: "wf256 (op_hash ex_own)" "op_hash ex_own ! 1 = 0"
  by (simp_all add: TxId_def GetHash_def ex_coinbase_def CTransaction_default_def Let_def ex_hash32_def wf256_def)

lemma ex_chain_fresh: "\<forall>tx \<in> set ex_chain. fresh_tx tx"
  using ex_own_wf by (simp add: ex_chain_def fresh_ex_coinbase) (simp add: fresh_tx_def wf_tx_def CTransaction_default_def
      wf_txin_def wf_txout_def ex_out_def)

lemma ex_chain_points: "spent_points ex_chain = [ex_own]" "ex_own \<in> created ex_hash32 ex_chain"
  "undo_point (replicate 32 9) \<notin> created ex_hash32 ex_chain"
proof -
  show "spent_points ex_chain = [ex_own]" by (simp add: spent_points_def ex_chain_def)
  have "ex_own \<in> created_by (TxId ex_hash32 (ex_coinbase 5000000000 0)) 0 (vout (ex_coinbase 5000000000 0))"
    by (auto simp: created_by_def ex_coinbase_def intro!: image_eqI [of _ _ 0])
  then show "ex_own \<in> created ex_hash32 ex_chain" by (simp add: created_def ex_chain_def)
  have "\<forall>tx \<in> set ex_chain. \<not> hash_valid tx" using ex_chain_fresh by (auto simp: fresh_tx_def)
  from created_hash [OF _ this, of "undo_point (replicate 32 9)"]
  show "undo_point (replicate 32 9) \<notin> created ex_hash32 ex_chain" by (auto simp: undo_point_def)
qed

lemma ex_chain_read: "DeserializeBlockTransactions (ex_body ex_chain) = Inr ex_chain"
  by (rule vtx_decode(2)) (use ex_chain_fresh in \<open>simp_all add: ex_chain_def\<close>)

lemma ex_chain_applied: "\<exists>s'. ApplyBlock ex_level ex_hash32 (ex_body ex_chain) 9 (replicate 32 9) ex_set = (True, s')"
proof -
  let ?t = "TxId ex_hash32 (ex_coinbase 5000000000 0)" and ?w0 = "\<lparr>undoData = [0, 0, 0, 0], spentCount = 0, bw_batch = []\<rparr>"
  obtain db where db: "nothing_pending db ex_set" by (simp add: nothing_pending_def ex_set_def CUTXOSet_new_def)
  obtain w1 s1 where a: "AddBlockOutputs ?t 9 True 0 (vout (ex_coinbase 5000000000 0)) ?w0 ex_set = (w1, s1)" by fastforce
  have n1: "nothing_pending db s1" using AddBlockOutputs_pending [OF db a] .
  have v: "vout (ex_coinbase 5000000000 0) = [ex_out 5000000000 (replicate 20 1), ex_out 0 DEV_FUND_PUBKEY_HASH, ex_out 0 DEV_REWARD_PUBKEY_HASH]"
    by (simp add: ex_coinbase_def)
  have "\<exists>e. map_of (utxo_cache s1) ex_own = Some e"
    using a unfolding v by (auto simp: Let_def UpdateCache_def ex_set_def CUTXOSet_new_def MAX_CACHE_SIZE_def StatsAdd_def)
  then obtain e where g: "GetUTXO ex_level ex_own s1 = (Some e, s1)" using n1 by (auto simp: GetUTXO_def GetFromCache_def nothing_pending_def)
  let ?s2 = "StatsSpend (utxo_out e) (RemoveFromCache ex_own s1)"
  have n2: "nothing_pending db ?s2" using n1 by simp
  have "\<exists>w t. ApplyTransactions ex_level ex_hash32 9 True ex_chain ?w0 ex_set = (True, w, t) \<and> nothing_pending db t"
    using a g n2 by (auto simp: ex_chain_def Let_def)
  then show ?thesis using ApplyBlock_finishes [OF ex_level_ok(2) _ ex_chain_read] by (auto simp: ex_set_def)
qed

theorem undo_phantom_witness:
  "\<exists>s' s'' e. utxos ex_level ex_set ex_own = None \<and>
     ApplyBlock ex_level ex_hash32 (ex_body ex_chain) 9 (replicate 32 9) ex_set = (True, s') \<and>
     UndoBlock ex_level ex_hash32 (ex_body ex_chain) zero256 (replicate 32 9) s' = (True, s'') \<and> utxos ex_level s'' ex_own = Some e"
proof -
  obtain s' where s: "ApplyBlock ex_level ex_hash32 (ex_body ex_chain) 9 (replicate 32 9) ex_set = (True, s')"
    using ex_chain_applied by blast
  have "wf256 (replicate 32 9)" "utxos ex_level ex_set (undo_point (replicate 32 9)) = None" "length (spent_points ex_chain) < 2 ^ 32"
      "ex_own \<in> set (spent_points ex_chain)" using ex_txs_points(4) by (simp_all add: utxos_ex_set ex_chain_points(1) wf256_def)
  moreover have "ex_own \<noteq> ex_point" using ex_own_wf(2) by auto
  then have n: "utxos ex_level ex_set ex_own = None" by (simp add: utxos_ex_set)
  ultimately show ?thesis using s n
    undo_phantom [OF ex_level_ok(1,2) settled_ex_set ex_level_ok(3) _ ex_chain_read s _ ex_chain_points(3) _ _ ex_chain_points(2) n, of zero256] by blast
qed

end
