(* ===== verification/Mempool.thy ===== *)
theory Mempool
  imports TxValidation "HOL-Library.AList" "HOL-Library.Log_Nat"
begin

text \<open>
  \<open>src/src/node/mempool.cpp\<close>: the pool of unconfirmed transactions with its four indexes, the limits and the
  eviction of cheap transactions, expiry, replacement by fee, and the guard that rolls back an insertion when an
  exception is thrown. Every operation holds the lock for all of its work, so an operation is one step; the background
  thread calls \<open>CleanupExpiredTransactions\<close>. The clock is the argument \<open>now\<close>. What an operation tells the fee
  estimator is part of its result. A place where memory may run out is a \<open>throw_point\<close>, and the argument \<open>oom\<close> says at
  which of them the exception is thrown, if any. An error message is a constructor of \<open>pool_error\<close>.
\<close>

section \<open>Entries\<close>

text \<open>
  A double that is not negative, as the rational number it stands for: \<open>n / d\<close> rounded to 53 significant bits, to the
  nearest and then to the even one. The exponents that occur here are far from the limits of the format.
\<close>

definition round_even :: "nat \<Rightarrow> nat \<Rightarrow> nat" where
  "round_even n d =
     (let q = n div d; r = n mod d in if 2 * r > d \<or> (2 * r = d \<and> odd q) then q + 1 else q)"

definition double_of :: "nat \<Rightarrow> nat \<Rightarrow> rat" where
  "double_of n d =
     (if n = 0 then 0
      else
        (let e = (if d \<le> n then int (floorlog 2 (n div d)) - 53 else - int (floorlog 2 ((d - 1) div n)) - 52)
         in if e \<ge> 0 then of_nat (round_even n (d * 2 ^ nat e)) * 2 ^ nat e
            else of_nat (round_even (n * 2 ^ nat (- e)) d) / 2 ^ nat (- e)))"

definition round53 :: "nat \<Rightarrow> nat" where
  "round53 n = (let e = floorlog 2 n - 53 in round_even n (2 ^ e) * 2 ^ e)"

definition CalculateFeeRate :: "CAmount \<Rightarrow> nat \<Rightarrow> rat" where
  "CalculateFeeRate fee_paid tx_size =
     (if tx_size = 0 then 0
      else if sint fee_paid < 0 then - double_of (round53 (nat (- sint fee_paid))) (round53 tx_size)
      else double_of (round53 (nat (sint fee_paid))) (round53 tx_size))"

record CTxMemPoolEntry =
  e_tx :: CTransaction
  e_tx_hash :: uint256
  e_fee :: CAmount
  e_tx_size :: nat
  e_fee_rate :: rat
  e_time :: int
  e_height :: u32

definition CTxMemPoolEntry_new ::
    "(bytes \<Rightarrow> uint256) \<Rightarrow> CTransaction \<Rightarrow> CAmount \<Rightarrow> int \<Rightarrow> u32 \<Rightarrow> CTxMemPoolEntry" where
  "CTxMemPoolEntry_new sha3 tx fee time height =
     \<lparr>e_tx = tx, e_tx_hash = TxId sha3 tx, e_fee = fee, e_tx_size = GetSerializedSize tx,
      e_fee_rate = CalculateFeeRate fee (GetSerializedSize tx), e_time = time, e_height = height\<rparr>"

text \<open>The order of hashes in containers: \<open>memcmp\<close>.\<close>

fun uint256_less :: "uint256 \<Rightarrow> uint256 \<Rightarrow> bool" where
  "uint256_less (x # xs) (y # ys) \<longleftrightarrow> x < y \<or> x = y \<and> uint256_less xs ys"
| "uint256_less _ _ = False"

definition CompareTxMemPoolEntryByFeeRate :: "CTxMemPoolEntry \<Rightarrow> CTxMemPoolEntry \<Rightarrow> bool" where
  "CompareTxMemPoolEntryByFeeRate a b =
     (if e_fee_rate a \<noteq> e_fee_rate b then e_fee_rate a > e_fee_rate b
      else if e_time a \<noteq> e_time b then e_time a < e_time b
      else uint256_less (e_tx_hash a) (e_tx_hash b))"

section \<open>State\<close>

text \<open>
  A container with an order is a list in this order. \<open>setEntries\<close> holds pointers into \<open>mapTx\<close>, whose entries never change
  while they are there; a pointer is modelled as the entry.
\<close>

record CTxMemPool =
  mapTx :: "(uint256 \<times> CTxMemPoolEntry) list"
  setEntries :: "CTxMemPoolEntry list"
  mapSpentOutpoints :: "COutPoint set"
  mapDescendants :: "uint256 \<Rightarrow> uint256 set option"
  pool_nHeight :: u32
  max_mempool_size :: nat
  mempool_size :: nat
  max_mempool_count :: nat
  mempool_count :: nat
  metric_adds :: u64
  metric_removes :: u64
  metric_evictions :: u64
  metric_expirations :: u64
  metric_rbf_replacements :: u64
  metric_add_failures :: u64
  metric_rbf_failures :: u64
  metric_rebroadcasts :: u64
  m_pending_estimator_evictions :: "uint256 list"

definition DEFAULT_MAX_MEMPOOL_SIZE :: nat where "DEFAULT_MAX_MEMPOOL_SIZE = 300 * 1024 * 1024"
definition DEFAULT_MAX_MEMPOOL_COUNT :: nat where "DEFAULT_MAX_MEMPOOL_COUNT = 100000"
definition MEMPOOL_EXPIRY_SECONDS :: int where "MEMPOOL_EXPIRY_SECONDS = 14 * 24 * 60 * 60"
definition MAX_TIME_SKEW :: int where "MAX_TIME_SKEW = 2 * 60 * 60"
definition MAX_TX_SIZE :: nat where "MAX_TX_SIZE = 1000000"
definition MAX_ORDERED_TXS :: nat where "MAX_ORDERED_TXS = 10000"
definition MAX_GET_TOP_TXS :: nat where "MAX_GET_TOP_TXS = 10000"

definition CTxMemPool_new :: CTxMemPool where
  "CTxMemPool_new =
     \<lparr>mapTx = [], setEntries = [], mapSpentOutpoints = {}, mapDescendants = Map.empty, pool_nHeight = 0,
      max_mempool_size = DEFAULT_MAX_MEMPOOL_SIZE, mempool_size = 0, max_mempool_count = DEFAULT_MAX_MEMPOOL_COUNT, mempool_count = 0,
      metric_adds = 0, metric_removes = 0, metric_evictions = 0, metric_expirations = 0, metric_rbf_replacements = 0,
      metric_add_failures = 0, metric_rbf_failures = 0, metric_rebroadcasts = 0, m_pending_estimator_evictions = []\<rparr>"

datatype pool_error =
    NullTx
  | CoinbaseNotAllowed
  | AlreadyInMempool
  | SpendsSpentOutput
  | NegativeFeeNotAllowed
  | TimeNotPositive
  | TimeTooFarInFuture
  | HeightZero
  | FeeRejected tx_check_error
  | ExceedsMaximumSize
  | MempoolSizeOverflow
  | MempoolFullCount
  | MempoolFullSize
  | CannotEvictEnough
  | FailedToAdd
  | NullReplacement
  | NoConflicts
  | OriginalNotReplaceable
  | ReplacementNotReplaceable
  | ReplacementFeeTooLow
  | ReplacementBandwidth
  | TooManyReplaced
  | ReplacedHasDescendants
  | FailedToRemoveConflict

text \<open>What the fee estimator is told: \<open>removeTx\<close> with \<open>in_block\<close> false, and \<open>processTx\<close>.\<close>

datatype estimator_event = EstRemoveTx uint256 | EstProcessTx uint256 u32 CAmount nat bool

section \<open>Containers\<close>

fun map_emplace :: "uint256 \<Rightarrow> 'v \<Rightarrow> (uint256 \<times> 'v) list \<Rightarrow> (uint256 \<times> 'v) list" where
  "map_emplace k v [] = [(k, v)]"
| "map_emplace k v ((k', v') # xs) =
     (if k = k' then (k', v') # xs
      else if uint256_less k k' then (k, v) # (k', v') # xs
      else (k', v') # map_emplace k v xs)"

fun set_insert :: "CTxMemPoolEntry \<Rightarrow> CTxMemPoolEntry list \<Rightarrow> CTxMemPoolEntry list" where
  "set_insert x [] = [x]"
| "set_insert x (y # ys) =
     (if CompareTxMemPoolEntryByFeeRate x y then x # y # ys
      else if CompareTxMemPoolEntryByFeeRate y x then y # set_insert x ys
      else y # ys)"

definition set_erase :: "CTxMemPoolEntry \<Rightarrow> CTxMemPoolEntry list \<Rightarrow> CTxMemPoolEntry list" where
  "set_erase x ys = filter (\<lambda>y. CompareTxMemPoolEntryByFeeRate x y \<or> CompareTxMemPoolEntryByFeeRate y x) ys"

fun hash_insert :: "uint256 \<Rightarrow> uint256 list \<Rightarrow> uint256 list" where
  "hash_insert k [] = [k]"
| "hash_insert k (x # xs) = (if k = x then x # xs else if uint256_less k x then k # x # xs else x # hash_insert k xs)"

section \<open>Descendants\<close>

definition HasDescendants :: "CTxMemPool \<Rightarrow> uint256 \<Rightarrow> bool" where
  "HasDescendants s txid = (case mapDescendants s txid of None \<Rightarrow> False | Some d \<Rightarrow> d \<noteq> {})"

text \<open>
  The places of an insertion that allocate memory: the entry, the map, the set, the spent outpoint of an input and its copy
  in the guard, and the descendant set of a parent and the element in it.
\<close>

datatype throw_point = AtEntry | AtMap | AtSet | AtOutpoint nat | AtGuard nat | AtDescendants nat | AtDescendant nat

fun UpdateDescendantsAdd ::
    "throw_point option \<Rightarrow> nat \<Rightarrow> uint256 \<Rightarrow> CTxIn list \<Rightarrow> CTxMemPool \<Rightarrow> bool \<times> CTxMemPool" where
  "UpdateDescendantsAdd oom i txid [] s = (False, s)"
| "UpdateDescendantsAdd oom i txid (input # ins) s =
     (let parent_txid = op_hash (prevout input)
      in if map_of (mapTx s) parent_txid = None then UpdateDescendantsAdd oom (Suc i) txid ins s
         else if oom = Some (AtDescendants i) then (True, s)
         else
           (let d = (case mapDescendants s parent_txid of None \<Rightarrow> {} | Some d \<Rightarrow> d)
            in if oom = Some (AtDescendant i) then (True, s\<lparr>mapDescendants := (mapDescendants s)(parent_txid \<mapsto> d)\<rparr>)
               else UpdateDescendantsAdd oom (Suc i) txid ins
                      (s\<lparr>mapDescendants := (mapDescendants s)(parent_txid \<mapsto> insert txid d)\<rparr>)))"

fun RemoveFromParents :: "uint256 \<Rightarrow> CTxIn list \<Rightarrow> (uint256 \<Rightarrow> uint256 set option) \<Rightarrow> uint256 \<Rightarrow> uint256 set option" where
  "RemoveFromParents txid [] m = m"
| "RemoveFromParents txid (input # ins) m =
     (let parent_txid = op_hash (prevout input)
      in RemoveFromParents txid ins
           (case m parent_txid of
              None \<Rightarrow> m
            | Some d \<Rightarrow> m(parent_txid := (if d - {txid} = {} then None else Some (d - {txid})))))"

definition UpdateDescendantsRemove :: "uint256 \<Rightarrow> CTxMemPool \<Rightarrow> CTxMemPool" where
  "UpdateDescendantsRemove txid s =
     (case map_of (mapTx s) txid of
        None \<Rightarrow> s
      | Some entry \<Rightarrow>
          s\<lparr>mapDescendants := (RemoveFromParents txid (vin (e_tx entry)) (mapDescendants s))(txid := None)\<rparr>)"

section \<open>Removal and eviction\<close>

definition RemoveTxUnlocked :: "uint256 \<Rightarrow> CTxMemPool \<Rightarrow> bool \<times> CTxMemPool" where
  "RemoveTxUnlocked txid s =
     (case map_of (mapTx s) txid of
        None \<Rightarrow> (False, s)
      | Some entry \<Rightarrow>
          (let s = UpdateDescendantsRemove txid s;
               s = s\<lparr>mapSpentOutpoints := mapSpentOutpoints s - prevout ` set (vin (e_tx entry))\<rparr>;
               s = s\<lparr>setEntries := set_erase entry (setEntries s)\<rparr>;
               tx_size = e_tx_size entry;
               s = s\<lparr>mempool_size := (if mempool_size s < tx_size then 0 else mempool_size s - tx_size)\<rparr>;
               s = s\<lparr>mempool_count := (if mempool_count s > 0 then mempool_count s - 1 else mempool_count s)\<rparr>
           in (True, s\<lparr>mapTx := AList.delete txid (mapTx s)\<rparr>)))"

fun SelectEvictions :: "CTxMemPool \<Rightarrow> nat \<Rightarrow> CTxMemPoolEntry list \<Rightarrow> nat \<Rightarrow> uint256 list \<times> nat" where
  "SelectEvictions s bytes_needed [] bytes_freed = ([], bytes_freed)"
| "SelectEvictions s bytes_needed (entry # es) bytes_freed =
     (if HasDescendants s (e_tx_hash entry) then SelectEvictions s bytes_needed es bytes_freed
      else
        (let bytes_freed = bytes_freed + e_tx_size entry
         in if bytes_freed \<ge> bytes_needed then ([e_tx_hash entry], bytes_freed)
            else (case SelectEvictions s bytes_needed es bytes_freed of
                    (to_evict, bytes_freed) \<Rightarrow> (e_tx_hash entry # to_evict, bytes_freed))))"

fun EvictSelected :: "uint256 list \<Rightarrow> CTxMemPool \<Rightarrow> CTxMemPool" where
  "EvictSelected [] s = s"
| "EvictSelected (txid # to_evict) s =
     (case RemoveTxUnlocked txid s of
        (removed, s) \<Rightarrow>
          EvictSelected to_evict
            (if removed
             then s\<lparr>metric_evictions := metric_evictions s + 1,
                    m_pending_estimator_evictions := m_pending_estimator_evictions s @ [txid]\<rparr>
             else s))"

definition EvictTransactions :: "nat \<Rightarrow> CTxMemPool \<Rightarrow> pool_error + CTxMemPool" where
  "EvictTransactions bytes_needed s =
     (case SelectEvictions s bytes_needed (rev (setEntries s)) 0 of
        (to_evict, bytes_freed) \<Rightarrow>
          if bytes_freed < bytes_needed then Inl CannotEvictEnough else Inr (EvictSelected to_evict s))"

fun RemoveExpired :: "uint256 list \<Rightarrow> CTxMemPool \<Rightarrow> uint256 list \<times> CTxMemPool" where
  "RemoveExpired [] s = ([], s)"
| "RemoveExpired (txid # to_remove) s =
     (case RemoveTxUnlocked txid s of
        (removed, s) \<Rightarrow>
          (case RemoveExpired to_remove (if removed then s\<lparr>metric_expirations := metric_expirations s + 1\<rparr> else s) of
             (expired_txids, s) \<Rightarrow> (if removed then txid # expired_txids else expired_txids, s)))"

definition CleanupExpiredTransactions :: "bool \<Rightarrow> int \<Rightarrow> CTxMemPool \<Rightarrow> estimator_event list \<times> CTxMemPool" where
  "CleanupExpiredTransactions est now s =
     (let to_remove = [e_tx_hash entry. (_, entry) \<leftarrow> mapTx s,
            now - e_time entry > MEMPOOL_EXPIRY_SECONDS, \<not> HasDescendants s (e_tx_hash entry)]
      in case RemoveExpired to_remove s of
           (expired_txids, s) \<Rightarrow> (if est then map EstRemoveTx expired_txids else [], s))"

section \<open>Insertion\<close>

definition ValidateLocked ::
    "(bytes \<Rightarrow> uint256) \<Rightarrow> int \<Rightarrow> CTransaction option \<Rightarrow> CAmount \<Rightarrow> int \<Rightarrow> u32 \<Rightarrow> bool \<Rightarrow> CTxMemPool \<Rightarrow> pool_error + unit" where
  "ValidateLocked sha3 now tx_ref fee time height bypass_fee_check s =
     (case tx_ref of
        None \<Rightarrow> Inl NullTx
      | Some tx \<Rightarrow>
          if IsCoinBase tx then Inl CoinbaseNotAllowed
          else if map_of (mapTx s) (TxId sha3 tx) \<noteq> None then Inl AlreadyInMempool
          else if list_ex (\<lambda>input. prevout input \<in> mapSpentOutpoints s) (vin tx) then Inl SpendsSpentOutput
          else if sint fee < 0 then Inl NegativeFeeNotAllowed
          else if time \<le> 0 then Inl TimeNotPositive
          else if time > now + MAX_TIME_SKEW then Inl TimeTooFarInFuture
          else if height = 0 then Inl HeightZero
          else
            bindE (if bypass_fee_check then Inr ()
                   else (case CheckFee tx fee True of Inl e \<Rightarrow> Inl (FeeRejected e) | Inr _ \<Rightarrow> Inr ())) (\<lambda>_.
              let tx_size = GetSerializedSize tx
              in if tx_size > MAX_TX_SIZE then Inl ExceedsMaximumSize
                 else if mempool_size s > 2 ^ 64 - 1 - tx_size then Inl MempoolSizeOverflow
                 else if mempool_count s \<ge> max_mempool_count s then Inl MempoolFullCount
                 else if mempool_size s + tx_size > max_mempool_size s then Inl MempoolFullSize
                 else Inr ()))"

record MempoolInsertionGuard =
  map_inserted :: bool
  set_inserted :: bool
  outpoints_added :: "COutPoint list"
  size_added :: nat
  count_incremented :: bool
  descendants_updated :: bool

definition MempoolInsertionGuard_new :: MempoolInsertionGuard where
  "MempoolInsertionGuard_new =
     \<lparr>map_inserted = False, set_inserted = False, outpoints_added = [], size_added = 0, count_incremented = False,
      descendants_updated = False\<rparr>"

definition Rollback :: "uint256 \<Rightarrow> MempoolInsertionGuard \<Rightarrow> CTxMemPool \<Rightarrow> CTxMemPool" where
  "Rollback txid guard s =
     (let s = (if descendants_updated guard then UpdateDescendantsRemove txid s else s);
          s = (if count_incremented guard \<and> mempool_count s > 0 then s\<lparr>mempool_count := mempool_count s - 1\<rparr> else s);
          s = (if size_added guard > 0
               then s\<lparr>mempool_size := (if mempool_size s \<ge> size_added guard then mempool_size s - size_added guard else 0)\<rparr> else s);
          s = s\<lparr>mapSpentOutpoints := mapSpentOutpoints s - set (outpoints_added guard)\<rparr>;
          s = (if set_inserted guard
               then (case map_of (mapTx s) txid of
                       None \<Rightarrow> s | Some entry \<Rightarrow> s\<lparr>setEntries := set_erase entry (setEntries s)\<rparr>)
               else s)
      in if map_inserted guard then s\<lparr>mapTx := AList.delete txid (mapTx s)\<rparr> else s)"

fun TrackOutpoints ::
    "throw_point option \<Rightarrow> nat \<Rightarrow> CTxIn list \<Rightarrow> MempoolInsertionGuard \<Rightarrow> CTxMemPool \<Rightarrow>
     bool \<times> MempoolInsertionGuard \<times> CTxMemPool" where
  "TrackOutpoints oom i [] guard s = (False, guard, s)"
| "TrackOutpoints oom i (input # ins) guard s =
     (if oom = Some (AtOutpoint i) then (True, guard, s)
      else
        (let s = s\<lparr>mapSpentOutpoints := insert (prevout input) (mapSpentOutpoints s)\<rparr>
         in if oom = Some (AtGuard i) then (True, guard, s)
            else TrackOutpoints oom (Suc i) ins (guard\<lparr>outpoints_added := outpoints_added guard @ [prevout input]\<rparr>) s))"

text \<open>The body of the \<open>try\<close> block: whether it threw, with the guard and the pool it left.\<close>

definition InsertSteps ::
    "(bytes \<Rightarrow> uint256) \<Rightarrow> throw_point option \<Rightarrow> CTransaction \<Rightarrow> CAmount \<Rightarrow> int \<Rightarrow> u32 \<Rightarrow> CTxMemPool \<Rightarrow>
     bool \<times> MempoolInsertionGuard \<times> CTxMemPool" where
  "InsertSteps sha3 oom tx fee time height s =
     (let txid = TxId sha3 tx; guard = MempoolInsertionGuard_new
      in if oom = Some AtEntry \<or> oom = Some AtMap then (True, guard, s)
         else
           (let s = s\<lparr>mapTx := map_emplace txid (CTxMemPoolEntry_new sha3 tx fee time height) (mapTx s)\<rparr>;
                guard = guard\<lparr>map_inserted := True\<rparr>
            in if oom = Some AtSet then (True, guard, s)
               else
                 (let s = s\<lparr>setEntries := set_insert (the (map_of (mapTx s) txid)) (setEntries s)\<rparr>;
                      guard = guard\<lparr>set_inserted := True\<rparr>
                  in case TrackOutpoints oom 0 (vin tx) guard s of
                       (thrown, guard, s) \<Rightarrow>
                         if thrown then (True, guard, s)
                         else
                           (let s = s\<lparr>mempool_size := mempool_size s + GetSerializedSize tx, mempool_count := mempool_count s + 1\<rparr>;
                                guard = guard\<lparr>size_added := GetSerializedSize tx, count_incremented := True\<rparr>
                            in case UpdateDescendantsAdd oom 0 txid (vin tx) s of
                                 (thrown, s) \<Rightarrow>
                                   if thrown then (True, guard, s)
                                   else (False, guard\<lparr>descendants_updated := True\<rparr>, s\<lparr>metric_adds := metric_adds s + 1\<rparr>)))))"

definition MakeRoomCount :: "CTxMemPool \<Rightarrow> pool_error + CTxMemPool" where
  "MakeRoomCount s = (if mempool_count s \<ge> max_mempool_count s then EvictTransactions 1 s else Inr s)"

definition MakeRoomSize :: "nat \<Rightarrow> CTxMemPool \<Rightarrow> pool_error + CTxMemPool" where
  "MakeRoomSize tx_size s =
     (if mempool_size s + tx_size > max_mempool_size s
      then EvictTransactions (mempool_size s + tx_size - max_mempool_size s) s else Inr s)"

definition AddValidated ::
    "(bytes \<Rightarrow> uint256) \<Rightarrow> throw_point option \<Rightarrow> CTransaction \<Rightarrow> CAmount \<Rightarrow> int \<Rightarrow> u32 \<Rightarrow> CTxMemPool \<Rightarrow>
     (pool_error + unit) \<times> CTxMemPool" where
  "AddValidated sha3 oom tx fee time height s =
     (case MakeRoomCount s of
        Inl e \<Rightarrow> (Inl e, s)
      | Inr s \<Rightarrow>
          (case MakeRoomSize (GetSerializedSize tx) s of
             Inl e \<Rightarrow> (Inl e, s)
           | Inr s \<Rightarrow>
               (case InsertSteps sha3 oom tx fee time height s of
                  (thrown, guard, s) \<Rightarrow>
                    if \<not> thrown then (Inr (), s)
                    else (Inl FailedToAdd,
                          Rollback (TxId sha3 tx) guard (s\<lparr>metric_add_failures := metric_add_failures s + 1\<rparr>)))))"

definition AddTxUnlocked ::
    "(bytes \<Rightarrow> uint256) \<Rightarrow> int \<Rightarrow> throw_point option \<Rightarrow> CTransaction option \<Rightarrow> CAmount \<Rightarrow> int \<Rightarrow> u32 \<Rightarrow> bool \<Rightarrow> CTxMemPool \<Rightarrow>
     (pool_error + unit) \<times> CTxMemPool" where
  "AddTxUnlocked sha3 now oom tx_ref fee time height bypass_fee_check s =
     (case ValidateLocked sha3 now tx_ref fee time height bypass_fee_check s of
        Inl e \<Rightarrow>
          if e \<noteq> MempoolFullCount \<and> e \<noteq> MempoolFullSize then (Inl e, s)
          else AddValidated sha3 oom (the tx_ref) fee time height s
      | Inr _ \<Rightarrow> AddValidated sha3 oom (the tx_ref) fee time height s)"

text \<open>\<open>est\<close> tells whether there is a fee estimator.\<close>

definition AddTx ::
    "(bytes \<Rightarrow> uint256) \<Rightarrow> bool \<Rightarrow> int \<Rightarrow> throw_point option \<Rightarrow> CTransaction option \<Rightarrow> CAmount \<Rightarrow> int \<Rightarrow> u32 \<Rightarrow> bool \<Rightarrow> CTxMemPool \<Rightarrow>
     (pool_error + unit) \<times> estimator_event list \<times> CTxMemPool" where
  "AddTx sha3 est now oom tx_ref fee time height bypass_fee_check s =
     (case AddTxUnlocked sha3 now oom tx_ref fee time height bypass_fee_check (s\<lparr>m_pending_estimator_evictions := []\<rparr>) of
        (res, s) \<Rightarrow>
          (res,
           if est
           then map EstRemoveTx (m_pending_estimator_evictions s) @
                (case res of
                   Inl _ \<Rightarrow> []
                 | Inr _ \<Rightarrow> [EstProcessTx (TxId sha3 (the tx_ref)) height fee (GetSerializedSize (the tx_ref)) (\<not> bypass_fee_check)])
           else [],
           s\<lparr>m_pending_estimator_evictions := []\<rparr>))"

definition TestAccept ::
    "(bytes \<Rightarrow> uint256) \<Rightarrow> int \<Rightarrow> CTransaction option \<Rightarrow> CAmount \<Rightarrow> int \<Rightarrow> u32 \<Rightarrow> bool \<Rightarrow> CTxMemPool \<Rightarrow> pool_error + unit" where
  "TestAccept sha3 now tx_ref fee time height bypass_fee_check s =
     ValidateLocked sha3 now tx_ref fee time height bypass_fee_check s"

section \<open>Replacement by fee\<close>

fun ConflictsOf ::
    "CTxIn \<Rightarrow> (uint256 \<times> CTxMemPoolEntry) list \<Rightarrow> uint256 list \<times> CAmount \<Rightarrow> uint256 list \<times> CAmount" where
  "ConflictsOf input [] (conflicts, replaced_fees) = (conflicts, replaced_fees)"
| "ConflictsOf input ((_, entry) # m) (conflicts, replaced_fees) =
     ConflictsOf input m
       (if list_ex (\<lambda>tx_input. prevout tx_input = prevout input) (vin (e_tx entry))
        then (hash_insert (e_tx_hash entry) conflicts, replaced_fees + e_fee entry)
        else (conflicts, replaced_fees))"

fun FindConflicts :: "CTxMemPool \<Rightarrow> CTxIn list \<Rightarrow> uint256 list \<times> CAmount \<Rightarrow> uint256 list \<times> CAmount" where
  "FindConflicts s [] acc = acc"
| "FindConflicts s (input # ins) acc =
     FindConflicts s ins (if prevout input \<in> mapSpentOutpoints s then ConflictsOf input (mapTx s) acc else acc)"

definition SignalsRBF :: "CTransaction \<Rightarrow> bool" where
  "SignalsRBF tx \<longleftrightarrow> list_ex (\<lambda>input. nSequence input < 0xfffffffe) (vin tx)"

fun RemoveConflicts :: "uint256 list \<Rightarrow> CTxMemPool \<Rightarrow> bool \<times> uint256 list \<times> CTxMemPool" where
  "RemoveConflicts [] s = (True, [], s)"
| "RemoveConflicts (txid # conflicts) s =
     (case RemoveTxUnlocked txid s of
        (removed, s) \<Rightarrow>
          if \<not> removed then (False, [], s)
          else (case RemoveConflicts conflicts s of (ok, evicted, s) \<Rightarrow> (ok, txid # evicted, s)))"

definition CheckReplacement :: "CTransaction \<Rightarrow> CAmount \<Rightarrow> CTxMemPool \<Rightarrow> pool_error + uint256 list" where
  "CheckReplacement replacement_tx replacement_fee s =
     (case FindConflicts s (vin replacement_tx) ([], 0) of
        (conflicts, replaced_fees) \<Rightarrow>
          if conflicts = [] then Inl NoConflicts
          else if list_ex (\<lambda>txid. case map_of (mapTx s) txid of None \<Rightarrow> False | Some entry \<Rightarrow> \<not> SignalsRBF (e_tx entry)) conflicts
          then Inl OriginalNotReplaceable
          else if \<not> SignalsRBF replacement_tx then Inl ReplacementNotReplaceable
          else if sint replacement_fee \<le> sint replaced_fees then Inl ReplacementFeeTooLow
          else if sint (replacement_fee - replaced_fees) < sint (of_nat (GetSerializedSize replacement_tx) :: CAmount)
          then Inl ReplacementBandwidth
          else if length conflicts > 100 then Inl TooManyReplaced
          else if list_ex (HasDescendants s) conflicts then Inl ReplacedHasDescendants
          else Inr conflicts)"

definition ReplaceTransactionLocked ::
    "(bytes \<Rightarrow> uint256) \<Rightarrow> int \<Rightarrow> throw_point option \<Rightarrow> CTransaction option \<Rightarrow> CAmount \<Rightarrow> int \<Rightarrow> u32 \<Rightarrow> CTxMemPool \<Rightarrow>
     (pool_error + unit) \<times> uint256 list \<times> CTxMemPool" where
  "ReplaceTransactionLocked sha3 now oom replacement_ref replacement_fee time height s =
     (case replacement_ref of
        None \<Rightarrow> (Inl NullReplacement, [], s)
      | Some replacement_tx \<Rightarrow>
          (case CheckReplacement replacement_tx replacement_fee s of
             Inl e \<Rightarrow> (Inl e, [], s)
           | Inr conflicts \<Rightarrow>
               (case RemoveConflicts conflicts s of
                  (ok, evicted_conflicts, s) \<Rightarrow>
                    if \<not> ok then (Inl FailedToRemoveConflict, evicted_conflicts, s)
                    else
                      (case AddTxUnlocked sha3 now oom (Some replacement_tx) replacement_fee time height False s of
                         (Inl e, s) \<Rightarrow> (Inl e, evicted_conflicts, s\<lparr>metric_rbf_failures := metric_rbf_failures s + 1\<rparr>)
                       | (Inr _, s) \<Rightarrow>
                           (Inr (), evicted_conflicts, s\<lparr>metric_rbf_replacements := metric_rbf_replacements s + 1\<rparr>)))))"

definition ReplaceTransaction ::
    "(bytes \<Rightarrow> uint256) \<Rightarrow> bool \<Rightarrow> int \<Rightarrow> throw_point option \<Rightarrow> CTransaction option \<Rightarrow> CAmount \<Rightarrow> int \<Rightarrow> u32 \<Rightarrow> bool \<Rightarrow> CTxMemPool \<Rightarrow>
     (pool_error + unit) \<times> estimator_event list \<times> CTxMemPool" where
  "ReplaceTransaction sha3 est now oom replacement_ref replacement_fee time height bypass_fee_check s =
     (case ReplaceTransactionLocked sha3 now oom replacement_ref replacement_fee time height (s\<lparr>m_pending_estimator_evictions := []\<rparr>) of
        (res, evicted_conflicts, s) \<Rightarrow>
          (res,
           if est
           then map EstRemoveTx evicted_conflicts @ map EstRemoveTx (m_pending_estimator_evictions s) @
                (case res of
                   Inl _ \<Rightarrow> []
                 | Inr _ \<Rightarrow> [EstProcessTx (TxId sha3 (the replacement_ref)) height replacement_fee
                              (GetSerializedSize (the replacement_ref)) (\<not> bypass_fee_check)])
           else [],
           s\<lparr>m_pending_estimator_evictions := []\<rparr>))"

section \<open>Other operations\<close>

definition RemoveTx :: "bool \<Rightarrow> uint256 \<Rightarrow> CTxMemPool \<Rightarrow> bool \<times> estimator_event list \<times> CTxMemPool" where
  "RemoveTx est txid s =
     (case RemoveTxUnlocked txid s of
        (removed, s) \<Rightarrow> (removed, if removed \<and> est then [EstRemoveTx txid] else [], s))"

text \<open>The loop body repeats the body of \<open>RemoveTxUnlocked\<close>.\<close>

fun RemoveConfirmedTxs :: "(bytes \<Rightarrow> uint256) \<Rightarrow> CTransaction list \<Rightarrow> CTxMemPool \<Rightarrow> CTxMemPool" where
  "RemoveConfirmedTxs sha3 [] s = s"
| "RemoveConfirmedTxs sha3 (tx # block_txs) s = RemoveConfirmedTxs sha3 block_txs (snd (RemoveTxUnlocked (TxId sha3 tx) s))"

definition Exists :: "uint256 \<Rightarrow> CTxMemPool \<Rightarrow> bool" where
  "Exists txid s \<longleftrightarrow> map_of (mapTx s) txid \<noteq> None"

definition IsSpent :: "COutPoint \<Rightarrow> CTxMemPool \<Rightarrow> bool" where
  "IsSpent outpoint s \<longleftrightarrow> outpoint \<in> mapSpentOutpoints s"

definition GetTx :: "uint256 \<Rightarrow> CTxMemPool \<Rightarrow> CTxMemPoolEntry option" where
  "GetTx txid s = map_of (mapTx s) txid"

definition GetTxIfExists :: "uint256 \<Rightarrow> CTxMemPool \<Rightarrow> CTxMemPoolEntry option" where
  "GetTxIfExists txid s = map_of (mapTx s) txid"

definition GetOrderedTxs :: "CTxMemPool \<Rightarrow> CTransaction list" where
  "GetOrderedTxs s = map e_tx (take (min MAX_ORDERED_TXS (length (setEntries s))) (setEntries s))"

definition GetAllEntries :: "CTxMemPool \<Rightarrow> CTxMemPoolEntry list" where
  "GetAllEntries s = map snd (mapTx s)"

definition GetTopTxs :: "nat \<Rightarrow> CTxMemPool \<Rightarrow> CTransaction list" where
  "GetTopTxs n s =
     (let n = (if n > MAX_GET_TOP_TXS then MAX_GET_TOP_TXS else n)
      in map e_tx (take (min n (length (setEntries s))) (setEntries s)))"

definition Mempool_Clear :: "CTxMemPool \<Rightarrow> CTxMemPool" where
  "Mempool_Clear s =
     s\<lparr>mapTx := [], setEntries := [], mapSpentOutpoints := {}, mapDescendants := Map.empty, mempool_size := 0, mempool_count := 0\<rparr>"

definition Mempool_Size :: "CTxMemPool \<Rightarrow> nat" where
  "Mempool_Size s = length (mapTx s)"

definition GetMempoolSize :: "CTxMemPool \<Rightarrow> nat" where
  "GetMempoolSize s = mempool_size s"

definition GetStats :: "CTxMemPool \<Rightarrow> nat \<times> nat \<times> rat \<times> rat" where
  "GetStats s =
     (length (mapTx s), mempool_size s,
      if setEntries s = [] then (0, 0) else (e_fee_rate (last (setEntries s)), e_fee_rate (hd (setEntries s))))"

definition SetHeight :: "u32 \<Rightarrow> CTxMemPool \<Rightarrow> CTxMemPool" where
  "SetHeight height s = s\<lparr>pool_nHeight := height\<rparr>"

record MempoolMetrics =
  total_adds :: u64
  total_removes :: u64
  total_evictions :: u64
  total_expirations :: u64
  total_rbf_replacements :: u64
  total_add_failures :: u64
  total_rbf_failures :: u64
  total_rebroadcasts :: u64

definition GetMetrics :: "CTxMemPool \<Rightarrow> MempoolMetrics" where
  "GetMetrics s =
     \<lparr>total_adds = metric_adds s, total_removes = metric_removes s, total_evictions = metric_evictions s,
      total_expirations = metric_expirations s, total_rbf_replacements = metric_rbf_replacements s,
      total_add_failures = metric_add_failures s, total_rbf_failures = metric_rbf_failures s,
      total_rebroadcasts = metric_rebroadcasts s\<rparr>"

definition SetMaxMempoolCountForTesting :: "nat \<Rightarrow> CTxMemPool \<Rightarrow> CTxMemPool" where
  "SetMaxMempoolCountForTesting count s = s\<lparr>max_mempool_count := (if count = 0 then 1 else count)\<rparr>"

definition GetUnconfirmedOlderThan :: "int \<Rightarrow> int \<Rightarrow> CTxMemPool \<Rightarrow> CTransaction list" where
  "GetUnconfirmedOlderThan now age_seconds s =
     (let cutoff_time = now - age_seconds in [e_tx entry. (_, entry) \<leftarrow> mapTx s, e_time entry < cutoff_time])"

definition MarkRebroadcast :: "uint256 \<Rightarrow> CTxMemPool \<Rightarrow> CTxMemPool" where
  "MarkRebroadcast txid s =
     (if map_of (mapTx s) txid \<noteq> None then s\<lparr>metric_rebroadcasts := metric_rebroadcasts s + 1\<rparr> else s)"

section \<open>The order of entries\<close>

lemma uint256_less_irrefl [simp]: "\<not> uint256_less x x"
  by (induction x) auto

lemma uint256_less_trans: "uint256_less x y \<Longrightarrow> uint256_less y z \<Longrightarrow> uint256_less x z"
proof (induction x arbitrary: y z)
  case (Cons a x)
  then show ?case by (cases y; cases z) auto
qed simp

lemma uint256_less_total: "length x = length y \<Longrightarrow> x = y \<or> uint256_less x y \<or> uint256_less y x"
  by (induction x y rule: list_induct2) auto

abbreviation before :: "CTxMemPoolEntry \<Rightarrow> CTxMemPoolEntry \<Rightarrow> bool" where
  "before \<equiv> CompareTxMemPoolEntryByFeeRate"

lemma before_irrefl [simp]: "\<not> before x x"
  by (simp add: CompareTxMemPoolEntryByFeeRate_def)

lemma before_trans: "before x y \<Longrightarrow> before y z \<Longrightarrow> before x z"
  using uint256_less_trans [of "e_tx_hash x" "e_tx_hash y" "e_tx_hash z"]
  by (auto simp: CompareTxMemPoolEntryByFeeRate_def split: if_splits)

lemma before_asym: "before x y \<Longrightarrow> \<not> before y x"
  using before_trans [of x y x] by auto

lemma before_total: "wf256 (e_tx_hash x) \<Longrightarrow> wf256 (e_tx_hash y) \<Longrightarrow> e_tx_hash x \<noteq> e_tx_hash y \<Longrightarrow> before x y \<or> before y x"
  using uint256_less_total [of "e_tx_hash x" "e_tx_hash y"] by (auto simp: CompareTxMemPoolEntryByFeeRate_def wf256_def)

lemma before_rate: "before x y \<Longrightarrow> e_fee_rate y \<le> e_fee_rate x"
  by (auto simp: CompareTxMemPoolEntryByFeeRate_def split: if_splits)

section \<open>Containers\<close>

lemma set_insert_set: "\<forall>y \<in> set ys. before x y \<or> before y x \<Longrightarrow> set (set_insert x ys) = insert x (set ys)"
  by (induction ys) auto

lemma set_insert_sorted: "\<forall>y \<in> set ys. before x y \<or> before y x \<Longrightarrow> sorted_wrt before ys \<Longrightarrow> sorted_wrt before (set_insert x ys)"
  by (induction ys) (auto simp: set_insert_set intro: before_trans)

lemma set_erase_eq: "\<forall>y \<in> set ys. y = x \<or> before x y \<or> before y x \<Longrightarrow> set_erase x ys = removeAll x ys"
  by (induction ys) (auto simp: set_erase_def)

lemma set_erase_insert: "\<forall>y \<in> set ys. before x y \<or> before y x \<Longrightarrow> set_erase x (set_insert x ys) = ys"
proof (induction ys)
  case (Cons y ys)
  have "\<forall>y \<in> set ys. before x y \<or> before y x" using Cons.prems by simp
  then have "filter (\<lambda>y. before x y \<or> before y x) ys = ys" by (simp add: filter_id_conv)
  then show ?case using Cons by (auto simp: set_erase_def)
qed (simp add: set_erase_def)

lemma sorted_removeAll: "sorted_wrt r xs \<Longrightarrow> sorted_wrt r (removeAll x xs)"
  by (induction xs) auto

lemma map_emplace_set: "k \<notin> fst ` set xs \<Longrightarrow> set (map_emplace k v xs) = insert (k, v) (set xs)"
  by (induction xs rule: map_emplace.induct [of _ k v]) auto

lemma map_emplace_keys: "k \<notin> fst ` set xs \<Longrightarrow> distinct (map fst xs) \<Longrightarrow> distinct (map fst (map_emplace k v xs))"
proof (induction k v xs rule: map_emplace.induct)
  case (2 k v k' v' xs)
  then show ?case by (auto simp: map_emplace_set image_iff)
qed simp

lemma map_emplace_sum: "k \<notin> fst ` set xs \<Longrightarrow> sum_list (map f (map_emplace k v xs)) = f (k, v) + (sum_list (map f xs) :: nat)"
  by (induction k v xs rule: map_emplace.induct) auto

lemma map_emplace_length: "k \<notin> fst ` set xs \<Longrightarrow> length (map_emplace k v xs) = Suc (length xs)"
  by (induction k v xs rule: map_emplace.induct) auto

lemma map_emplace_of: "k \<notin> fst ` set xs \<Longrightarrow> map_of (map_emplace k v xs) k = Some v"
  by (induction k v xs rule: map_emplace.induct) auto

lemma delete_emplace: "k \<notin> fst ` set xs \<Longrightarrow> AList.delete k (map_emplace k v xs) = xs"
  by (induction k v xs rule: map_emplace.induct) auto

lemma delete_set: "set (AList.delete k xs) = {(k', v) \<in> set xs. k' \<noteq> k}"
  by (auto simp: AList.delete_eq)

lemma delete_parts:
  assumes "distinct (map fst xs)" "(k, v) \<in> set xs"
  shows "sum_list (map f xs) = f (k, v) + (sum_list (map f (AList.delete k xs)) :: nat)" "length xs = Suc (length (AList.delete k xs))"
    "distinct (map fst (AList.delete k xs))" "set (AList.delete k xs) = set xs - {(k, v)}"
proof -
  show d: "sum_list (map f xs) = f (k, v) + (sum_list (map f (AList.delete k xs)) :: nat)" for f
    using assms
  proof (induction xs)
    case (Cons x xs)
    show ?case
    proof (cases "fst x = k")
      case True
      then have "k \<notin> fst ` set xs" using Cons.prems(1) by simp
      moreover from this have "x = (k, v)" using Cons.prems(2) by force
      ultimately show ?thesis by (simp add: delete_idem)
    next
      case False
      then show ?thesis using Cons by (cases x) auto
    qed
  qed simp
  show "length xs = Suc (length (AList.delete k xs))" using d [of "\<lambda>_. 1"] by (simp add: sum_list_triv)
  show "distinct (map fst (AList.delete k xs))" using assms(1) by (rule AList.distinct_delete)
  show "set (AList.delete k xs) = set xs - {(k, v)}"
    using assms by (auto simp: delete_set dest: eq_key_imp_eq_value)
qed

section \<open>Invariant\<close>

definition prevouts :: "CTxMemPoolEntry \<Rightarrow> COutPoint set" where
  "prevouts e = prevout ` set (vin (e_tx e))"

text \<open>The map is keyed by the hashes of its transactions, and no two of them spend the same output.\<close>

definition txs_ok :: "(bytes \<Rightarrow> uint256) \<Rightarrow> (uint256 \<times> CTxMemPoolEntry) list \<Rightarrow> bool" where
  "txs_ok sha3 m \<longleftrightarrow> distinct (map fst m) \<and>
     (\<forall>(k, e) \<in> set m. wf256 k \<and> k = e_tx_hash e \<and> k = TxId sha3 (e_tx e) \<and> e_tx_size e = GetSerializedSize (e_tx e)) \<and>
     (\<forall>(k, e) \<in> set m. \<forall>(k', e') \<in> set m. k \<noteq> k' \<longrightarrow> prevouts e \<inter> prevouts e' = {})"

definition children :: "(uint256 \<times> CTxMemPoolEntry) list \<Rightarrow> uint256 \<Rightarrow> uint256 set" where
  "children m p = {c. \<exists>e. (c, e) \<in> set m \<and> p \<in> op_hash ` prevouts e}"

definition descendants_ok :: "(uint256 \<times> CTxMemPoolEntry) list \<Rightarrow> (uint256 \<Rightarrow> uint256 set option) \<Rightarrow> bool" where
  "descendants_ok m d \<longleftrightarrow> (\<forall>p c. d p = Some c \<longrightarrow> c \<noteq> {} \<and> p \<in> fst ` set m \<and> c \<subseteq> children m p)"

definition pool_inv :: "(bytes \<Rightarrow> uint256) \<Rightarrow> CTxMemPool \<Rightarrow> bool" where
  "pool_inv sha3 s \<longleftrightarrow> txs_ok sha3 (mapTx s) \<and>
     sorted_wrt before (setEntries s) \<and> set (setEntries s) = snd ` set (mapTx s) \<and>
     mapSpentOutpoints s = \<Union> (prevouts ` snd ` set (mapTx s)) \<and>
     mempool_size s = sum_list (map (e_tx_size \<circ> snd) (mapTx s)) \<and> mempool_count s = length (mapTx s) \<and>
     descendants_ok (mapTx s) (mapDescendants s)"

definition within_limits :: "CTxMemPool \<Rightarrow> bool" where
  "within_limits s \<longleftrightarrow> mempool_size s \<le> max_mempool_size s \<and> mempool_count s \<le> max_mempool_count s"

lemma txs_ok_D:
  assumes "txs_ok sha3 m" "(k, e) \<in> set m"
  shows "wf256 k" "k = e_tx_hash e" "k = TxId sha3 (e_tx e)" "e_tx_size e = GetSerializedSize (e_tx e)" "map_of m k = Some e"
    "\<And>k' e'. (k', e') \<in> set m \<Longrightarrow> k \<noteq> k' \<Longrightarrow> prevouts e \<inter> prevouts e' = {}"
proof -
  have "distinct (map fst m)" and b: "\<forall>(k, e) \<in> set m. wf256 k \<and> k = e_tx_hash e \<and> k = TxId sha3 (e_tx e) \<and> e_tx_size e = GetSerializedSize (e_tx e)"
      "\<forall>(k, e) \<in> set m. \<forall>(k', e') \<in> set m. k \<noteq> k' \<longrightarrow> prevouts e \<inter> prevouts e' = {}"
    using assms(1) unfolding txs_ok_def by blast+
  then show "map_of m k = Some e" using assms(2) by simp
  show "wf256 k" "k = e_tx_hash e" "k = TxId sha3 (e_tx e)" "e_tx_size e = GetSerializedSize (e_tx e)"
    using bspec [OF b(1) assms(2), unfolded prod.case] by blast+
  show "prevouts e \<inter> prevouts e' = {}" if "(k', e') \<in> set m" "k \<noteq> k'" for k' e'
    using bspec [OF b(2) assms(2)] that by auto
qed

lemma txs_ok_distinct: "txs_ok sha3 m \<Longrightarrow> distinct (map fst m)"
  by (simp add: txs_ok_def)

lemma entries_comparable:
  assumes "txs_ok sha3 m" "(k, e) \<in> set m" "(k', e') \<in> set m"
  shows "e = e' \<or> before e e' \<or> before e' e"
proof (cases "k = k'")
  case True
  then show ?thesis using txs_ok_D(5) [OF assms(1,2)] txs_ok_D(5) [OF assms(1,3)] by simp
next
  case False
  then show ?thesis using txs_ok_D(1,2) [OF assms(1,2)] txs_ok_D(1,2) [OF assms(1,3)] before_total [of e e'] by simp
qed

lemma in_snd_image: "x \<in> snd ` S \<longleftrightarrow> (\<exists>k. (k, x) \<in> S)"
  by force

lemma snd_delete:
  assumes "txs_ok sha3 m" "(k, e) \<in> set m"
  shows "snd ` (set m - {(k, e)}) = snd ` set m - {e}"
proof -
  have u: "(k', e) \<in> set m \<longleftrightarrow> k' = k" for k'
    using txs_ok_D(2) [OF assms(1), of k' e] txs_ok_D(2) [OF assms] assms(2) by auto
  have "x \<in> snd ` (set m - {(k, e)}) \<longleftrightarrow> x \<noteq> e \<and> x \<in> snd ` set m" for x
    unfolding in_snd_image using u by blast
  then show ?thesis by blast
qed

lemma txs_ok_subset:
  assumes "txs_ok sha3 m" "distinct (map fst m')" "set m' \<subseteq> set m"
  shows "txs_ok sha3 m'"
proof -
  have "(k, e) \<in> set m" if "(k, e) \<in> set m'" for k e using that assms(3) by blast
  note d = txs_ok_D [OF assms(1) this]
  have "\<forall>(k, e) \<in> set m'. wf256 k \<and> k = e_tx_hash e \<and> k = TxId sha3 (e_tx e) \<and> e_tx_size e = GetSerializedSize (e_tx e)"
    using d(1-4) by blast
  moreover have "\<forall>(k, e) \<in> set m'. \<forall>(k', e') \<in> set m'. k \<noteq> k' \<longrightarrow> prevouts e \<inter> prevouts e' = {}"
    using d(6) assms(3) by blast
  ultimately show ?thesis unfolding txs_ok_def using assms(2) by blast
qed

lemma RemoveFromParents_eq:
  "RemoveFromParents txid ins m p =
     (if p \<in> op_hash ` prevout ` set ins
      then (case m p of None \<Rightarrow> None | Some d \<Rightarrow> if d - {txid} = {} then None else Some (d - {txid})) else m p)"
proof (induction ins arbitrary: m)
  case (Cons i ins)
  show ?case unfolding RemoveFromParents.simps Let_def Cons.IH by (auto split: option.splits)
qed simp

lemma descendants_ok_remove:
  assumes "descendants_ok m d" "txs_ok sha3 m" "(k, e) \<in> set m"
  shows "descendants_ok (AList.delete k m) ((RemoveFromParents k (vin (e_tx e)) d)(k := None))"
proof -
  have s: "set (AList.delete k m) = set m - {(k, e)}" by (rule delete_parts(4) [OF txs_ok_distinct [OF assms(2)] assms(3)])
  have "c \<noteq> {} \<and> p \<in> fst ` set (AList.delete k m) \<and> c \<subseteq> children (AList.delete k m) p"
    if c: "RemoveFromParents k (vin (e_tx e)) d p = Some c" "p \<noteq> k" for p c
  proof -
    obtain c' where c': "d p = Some c'" "c = (if p \<in> op_hash ` prevouts e then c' - {k} else c')"
      using c(1) unfolding RemoveFromParents_eq prevouts_def by (auto split: if_splits option.splits)
    have "c \<noteq> {}" using c(1) assms(1) c' unfolding RemoveFromParents_eq prevouts_def descendants_ok_def by (auto split: if_splits)
    note c' = c' this
    have o: "p \<in> fst ` set m" "c' \<subseteq> children m p" using assms(1) c'(1) by (auto simp: descendants_ok_def)
    have "p \<in> op_hash ` prevouts e" if "k \<in> c'"
      using that o(2) txs_ok_D(5) [OF assms(2)] txs_ok_D(5) [OF assms(2,3)] by (fastforce simp: children_def)
    then have "k \<notin> c" using c'(2) by auto
    moreover have "c \<subseteq> c'" using c'(2) by auto
    ultimately have "c \<subseteq> children (AList.delete k m) p" using o(2) unfolding children_def s by fastforce
    then show ?thesis using c'(3) o(1) c(2) unfolding s by force
  qed
  then show ?thesis unfolding descendants_ok_def by auto
qed

lemma RemoveTxUnlocked_fields [simp]:
  "max_mempool_size (snd (RemoveTxUnlocked txid s)) = max_mempool_size s"
  "max_mempool_count (snd (RemoveTxUnlocked txid s)) = max_mempool_count s"
  "m_pending_estimator_evictions (snd (RemoveTxUnlocked txid s)) = m_pending_estimator_evictions s"
  "metric_removes (snd (RemoveTxUnlocked txid s)) = metric_removes s"
  by (auto simp: RemoveTxUnlocked_def UpdateDescendantsRemove_def Let_def split: option.splits)

lemma RemoveTxUnlocked_None: "map_of (mapTx s) txid = None \<Longrightarrow> RemoveTxUnlocked txid s = (False, s)"
  by (simp add: RemoveTxUnlocked_def)

lemma RemoveTxUnlocked_Some:
  assumes "pool_inv sha3 s" "(txid, e) \<in> set (mapTx s)"
  shows "\<exists>s'. RemoveTxUnlocked txid s = (True, s') \<and> pool_inv sha3 s' \<and> mapTx s' = AList.delete txid (mapTx s) \<and>
    set (mapTx s') = set (mapTx s) - {(txid, e)} \<and> mempool_size s = mempool_size s' + e_tx_size e \<and>
    mempool_count s = mempool_count s' + 1 \<and>
    mapDescendants s' = (RemoveFromParents txid (vin (e_tx e)) (mapDescendants s))(txid := None)"
proof -
  have ok: "txs_ok sha3 (mapTx s)" using assms(1) by (simp add: pool_inv_def)
  note d = delete_parts [OF _ assms(2)] and m = txs_ok_D(5) [OF ok assms(2)]
  obtain s' where r: "RemoveTxUnlocked txid s = (True, s')" using m by (simp add: RemoveTxUnlocked_def Let_def)
  have dist: "distinct (map fst (mapTx s))" using ok by (simp add: txs_ok_def)
  have f: "mapTx s' = AList.delete txid (mapTx s)" "mapSpentOutpoints s' = mapSpentOutpoints s - prevouts e"
      "setEntries s' = set_erase e (setEntries s)" "mempool_count s' = mempool_count s - 1"
      "mempool_size s' = mempool_size s - e_tx_size e"
      "mapDescendants s' = (RemoveFromParents txid (vin (e_tx e)) (mapDescendants s))(txid := None)"
    using r m by (auto simp: RemoveTxUnlocked_def UpdateDescendantsRemove_def Let_def prevouts_def)
  have inv: "sorted_wrt before (setEntries s)" "set (setEntries s) = snd ` set (mapTx s)"
      "mapSpentOutpoints s = \<Union> (prevouts ` snd ` set (mapTx s))" "mempool_size s = sum_list (map (e_tx_size \<circ> snd) (mapTx s))"
      "mempool_count s = length (mapTx s)" "descendants_ok (mapTx s) (mapDescendants s)" using assms(1) unfolding pool_inv_def by blast+
  have "\<forall>y \<in> set (setEntries s). y = e \<or> before e y \<or> before y e"
    unfolding inv(2) using entries_comparable [OF ok assms(2)] by fastforce
  then have se: "setEntries s' = removeAll e (setEntries s)" unfolding f by (rule set_erase_eq)
  have "e' = e \<or> prevouts e \<inter> prevouts e' = {}" if "(k', e') \<in> set (mapTx s)" for k' e'
    using txs_ok_D(6) [OF ok assms(2) that] txs_ok_D(5) [OF ok that] m by (cases "txid = k'") auto
  then have x: "\<forall>e' \<in> snd ` set (mapTx s). e' = e \<or> prevouts e \<inter> prevouts e' = {}" unfolding Ball_def in_snd_image by blast
  have set: "set (mapTx s') = set (mapTx s) - {(txid, e)}" "distinct (map fst (mapTx s'))"
    unfolding f(1) using d(4,3) [OF dist] by blast+
  have snd: "snd ` set (mapTx s') = snd ` set (mapTx s) - {e}" unfolding set(1) by (rule snd_delete [OF ok assms(2)])
  have sum: "mempool_size s = e_tx_size e + sum_list (map (e_tx_size \<circ> snd) (mapTx s'))" "mempool_count s = Suc (length (mapTx s'))"
    using d(1) [OF dist, of "e_tx_size \<circ> snd"] d(2) [OF dist] inv(4,5) unfolding f(1) by simp_all
  have "sorted_wrt before (setEntries s')" unfolding se by (rule sorted_removeAll [OF inv(1)])
  moreover have "set (setEntries s') = snd ` set (mapTx s')" unfolding se snd using inv(2) by simp
  moreover have "mapSpentOutpoints s' = \<Union> (prevouts ` snd ` set (mapTx s'))" unfolding snd f(2) inv(3) using x by blast
  moreover have "txs_ok sha3 (mapTx s')" using set by (intro txs_ok_subset [OF ok]) auto
  moreover have "descendants_ok (mapTx s') (mapDescendants s')" unfolding f using inv(6) ok assms(2) by (rule descendants_ok_remove)
  moreover have c: "mempool_size s' = sum_list (map (e_tx_size \<circ> snd) (mapTx s'))" "mempool_count s' = length (mapTx s')"
    unfolding f(4,5) sum by simp_all
  ultimately have "pool_inv sha3 s'" unfolding pool_inv_def by blast
  moreover have "mempool_size s = mempool_size s' + e_tx_size e" "mempool_count s = mempool_count s' + 1" unfolding sum c by simp_all
  ultimately show ?thesis using r f(1,6) set(1) by blast
qed

section \<open>Removing several transactions\<close>

lemma pool_inv_counters [simp]:
  "pool_inv sha3 (s\<lparr>metric_evictions := x\<rparr>) = pool_inv sha3 s" "pool_inv sha3 (s\<lparr>metric_expirations := x\<rparr>) = pool_inv sha3 s"
  "pool_inv sha3 (s\<lparr>metric_adds := x\<rparr>) = pool_inv sha3 s" "pool_inv sha3 (s\<lparr>metric_add_failures := x\<rparr>) = pool_inv sha3 s"
  "pool_inv sha3 (s\<lparr>metric_rbf_failures := x\<rparr>) = pool_inv sha3 s" "pool_inv sha3 (s\<lparr>metric_rbf_replacements := x\<rparr>) = pool_inv sha3 s"
  "pool_inv sha3 (s\<lparr>metric_rebroadcasts := x\<rparr>) = pool_inv sha3 s" "pool_inv sha3 (s\<lparr>m_pending_estimator_evictions := ys\<rparr>) = pool_inv sha3 s"
  "pool_inv sha3 (s\<lparr>pool_nHeight := h\<rparr>) = pool_inv sha3 s" "pool_inv sha3 (s\<lparr>max_mempool_count := n\<rparr>) = pool_inv sha3 s"
  by (simp_all add: pool_inv_def)

definition registered :: "CTxMemPool \<Rightarrow> uint256 \<Rightarrow> uint256 set" where
  "registered s p = (case mapDescendants s p of None \<Rightarrow> {} | Some c \<Rightarrow> c)"

lemma registered_counters [simp]:
  "registered (s\<lparr>metric_evictions := x\<rparr>) = registered s" "registered (s\<lparr>metric_expirations := x\<rparr>) = registered s"
  "registered (s\<lparr>m_pending_estimator_evictions := ys\<rparr>) = registered s"
  by (simp_all add: registered_def fun_eq_iff)

lemma HasDescendants_registered: "HasDescendants s p \<longleftrightarrow> registered s p \<noteq> {}"
  by (simp add: HasDescendants_def registered_def split: option.splits)

text \<open>\<open>s'\<close> is \<open>s\<close> without the transactions of \<open>R\<close>.\<close>

definition removed :: "(bytes \<Rightarrow> uint256) \<Rightarrow> uint256 set \<Rightarrow> CTxMemPool \<Rightarrow> CTxMemPool \<Rightarrow> bool" where
  "removed sha3 R s s' \<longleftrightarrow> pool_inv sha3 s' \<and> set (mapTx s') = {(k, e) \<in> set (mapTx s). k \<notin> R} \<and>
     max_mempool_size s' = max_mempool_size s \<and> max_mempool_count s' = max_mempool_count s \<and>
     metric_removes s' = metric_removes s \<and> mempool_size s' \<le> mempool_size s \<and> mempool_count s' \<le> mempool_count s \<and>
     (\<forall>p. p \<notin> R \<longrightarrow> registered s p - R \<subseteq> registered s' p)"

lemma removed_refl: "pool_inv sha3 s \<Longrightarrow> removed sha3 {} s s"
  by (auto simp: removed_def)

lemma removed_trans:
  assumes "removed sha3 R s t" "removed sha3 Q t u"
  shows "removed sha3 (R \<union> Q) s u"
proof -
  have "registered s p - (R \<union> Q) \<subseteq> registered u p" if "p \<notin> R \<union> Q" for p using that assms unfolding removed_def by blast
  moreover have "set (mapTx u) = {(k, e) \<in> set (mapTx s). k \<notin> R \<union> Q}" using assms unfolding removed_def by blast
  ultimately show ?thesis using assms unfolding removed_def by simp
qed

lemma removed_counters [simp]:
  "removed sha3 R s (t\<lparr>metric_evictions := x\<rparr>) = removed sha3 R s t" "removed sha3 R s (t\<lparr>metric_expirations := x\<rparr>) = removed sha3 R s t"
  "removed sha3 R s (t\<lparr>m_pending_estimator_evictions := ys\<rparr>) = removed sha3 R s t"
  by (simp_all add: removed_def)

lemma RemoveTxUnlocked_removed:
  assumes "pool_inv sha3 s" "RemoveTxUnlocked txid s = (r, s')"
  shows "removed sha3 {txid} s s' \<and> (r \<longleftrightarrow> txid \<in> fst ` set (mapTx s))"
proof (cases "map_of (mapTx s) txid")
  case None
  then have "s' = s" "\<not> r" using assms(2) by (simp_all add: RemoveTxUnlocked_None)
  moreover have "txid \<notin> fst ` set (mapTx s)" using None by (simp add: map_of_eq_None_iff)
  moreover from this have "{(k, e) \<in> set (mapTx s). k \<notin> {txid}} = set (mapTx s)" by force
  ultimately show ?thesis using assms(1) by (auto simp: removed_def)
next
  case (Some e)
  then have e: "(txid, e) \<in> set (mapTx s)" by (rule map_of_SomeD)
  obtain t where t: "RemoveTxUnlocked txid s = (True, t)" "pool_inv sha3 t" "set (mapTx t) = set (mapTx s) - {(txid, e)}"
      "mempool_size s = mempool_size t + e_tx_size e" "mempool_count s = mempool_count t + 1"
      "mapDescendants t = (RemoveFromParents txid (vin (e_tx e)) (mapDescendants s))(txid := None)"
    using RemoveTxUnlocked_Some [OF assms(1) e] by blast
  have ok: "txs_ok sha3 (mapTx s)" using assms(1) by (simp add: pool_inv_def)
  have "set (mapTx t) = {(k, e) \<in> set (mapTx s). k \<notin> {txid}}"
    unfolding t(3) using txs_ok_D(5) [OF ok e] txs_ok_D(5) [OF ok] by fastforce
  moreover have "max_mempool_size t = max_mempool_size s" "max_mempool_count t = max_mempool_count s" "metric_removes t = metric_removes s"
    using RemoveTxUnlocked_fields [of txid s] t(1) by simp_all
  moreover have "registered s p - {txid} \<subseteq> registered t p" if "p \<notin> {txid}" for p
    using that by (auto simp: registered_def t(6) RemoveFromParents_eq split: option.splits)
  ultimately have "removed sha3 {txid} s t" unfolding removed_def using t(2,4,5) by simp
  then show ?thesis using t(1) assms(2) e by force
qed

lemma EvictSelected_removed:
  assumes "pool_inv sha3 s"
  shows "removed sha3 (set to) s (EvictSelected to s)"
  using assms
proof (induction to arbitrary: s)
  case (Cons txid to)
  obtain r t where r: "RemoveTxUnlocked txid s = (r, t)" by fastforce
  define u where "u = (if r then t\<lparr>metric_evictions := metric_evictions t + 1,
     m_pending_estimator_evictions := m_pending_estimator_evictions t @ [txid]\<rparr> else t)"
  have u: "removed sha3 {txid} s u" using RemoveTxUnlocked_removed [OF Cons.prems r] by (simp add: u_def)
  have "removed sha3 (set to) u (EvictSelected to u)" by (rule Cons.IH) (use u in \<open>simp add: removed_def\<close>)
  from removed_trans [OF u this] show ?case using r by (simp add: u_def)
qed (simp add: removed_refl)

lemma RemoveExpired_removed:
  assumes "pool_inv sha3 s" "RemoveExpired to s = (ex, s')"
  shows "removed sha3 (set to) s s'"
  using assms
proof (induction to arbitrary: s ex)
  case (Cons txid to)
  obtain r t where r: "RemoveTxUnlocked txid s = (r, t)" by fastforce
  define u where "u = (if r then t\<lparr>metric_expirations := metric_expirations t + 1\<rparr> else t)"
  have u: "removed sha3 {txid} s u" using RemoveTxUnlocked_removed [OF Cons.prems(1) r] by (simp add: u_def)
  obtain ex2 where "RemoveExpired to u = (ex2, s')" using Cons.prems(2) r by (auto simp: u_def split: prod.splits)
  then have "removed sha3 (set to) u s'" by (rule Cons.IH [rotated]) (use u in \<open>simp add: removed_def\<close>)
  from removed_trans [OF u this] show ?case by simp
qed (simp add: removed_refl)

lemma RemoveConflicts_removed:
  assumes "pool_inv sha3 s" "RemoveConflicts cs s = (ok, ev, s')"
  shows "removed sha3 (set ev) s s' \<and> (ok \<longrightarrow> ev = cs) \<and> (distinct cs \<and> set cs \<subseteq> fst ` set (mapTx s) \<longrightarrow> ok)"
  using assms
proof (induction cs arbitrary: s ev)
  case (Cons txid cs)
  obtain r t where r: "RemoveTxUnlocked txid s = (r, t)" by fastforce
  note rem = RemoveTxUnlocked_removed [OF Cons.prems(1) r]
  show ?case
  proof (cases r)
    case True
    then obtain ev2 where c: "RemoveConflicts cs t = (ok, ev2, s')" "ev = txid # ev2" using Cons.prems(2) r by (auto split: prod.splits)
    have "pool_inv sha3 t" "set (mapTx t) = {(k, e) \<in> set (mapTx s). k \<notin> {txid}}" using rem by (simp_all add: removed_def)
    then show ?thesis using Cons.IH [OF _ c(1)] removed_trans [of sha3 "{txid}" s t "set ev2" s'] rem c(2) by force
  next
    case False
    then have "t = s" using r by (auto simp: RemoveTxUnlocked_def Let_def split: option.splits)
    then show ?thesis using False rem Cons.prems r by (auto simp: removed_refl)
  qed
qed (simp add: removed_refl)

lemma RemoveConfirmedTxs_removed:
  "pool_inv sha3 s \<Longrightarrow> removed sha3 (TxId sha3 ` set txs) s (RemoveConfirmedTxs sha3 txs s)"
proof (induction txs arbitrary: s)
  case (Cons tx txs)
  obtain r t where r: "RemoveTxUnlocked (TxId sha3 tx) s = (r, t)" by fastforce
  have t: "removed sha3 {TxId sha3 tx} s t" using RemoveTxUnlocked_removed [OF Cons.prems r] by simp
  have "removed sha3 (TxId sha3 ` set txs) t (RemoveConfirmedTxs sha3 txs t)" by (rule Cons.IH) (use t in \<open>simp add: removed_def\<close>)
  from removed_trans [OF t this] show ?case using r by simp
qed (simp add: removed_refl)

section \<open>Eviction\<close>

text \<open>The transactions without registered children, those of the lowest fee rate first.\<close>

definition childless :: "CTxMemPool \<Rightarrow> CTxMemPoolEntry list" where
  "childless s = filter (\<lambda>e. \<not> HasDescendants s (e_tx_hash e)) (rev (setEntries s))"

abbreviation bytes_of :: "CTxMemPoolEntry list \<Rightarrow> nat" where
  "bytes_of es \<equiv> sum_list (map e_tx_size es)"

lemma SelectEvictions_eq:
  assumes "SelectEvictions s n es f = (ev, f')"
  shows "\<exists>k \<le> length (filter (\<lambda>e. \<not> HasDescendants s (e_tx_hash e)) es).
    ev = map e_tx_hash (take k (filter (\<lambda>e. \<not> HasDescendants s (e_tx_hash e)) es)) \<and>
    f' = f + bytes_of (take k (filter (\<lambda>e. \<not> HasDescendants s (e_tx_hash e)) es)) \<and>
    (\<forall>j. 0 < j \<longrightarrow> j < k \<longrightarrow> f + bytes_of (take j (filter (\<lambda>e. \<not> HasDescendants s (e_tx_hash e)) es)) < n)"
  using assms
proof (induction s n es f arbitrary: ev f' rule: SelectEvictions.induct)
  case (2 s n e es f)
  let ?F = "filter (\<lambda>e. \<not> HasDescendants s (e_tx_hash e)) es"
  show ?case
  proof (cases "HasDescendants s (e_tx_hash e)")
    case True
    then show ?thesis using 2 by simp
  next
    case no: False
    show ?thesis
    proof (cases "n \<le> f + e_tx_size e")
      case True
      then show ?thesis using 2(3) no by (intro exI [of _ "1"]) auto
    next
      case False
      obtain ev2 where e: "SelectEvictions s n es (f + e_tx_size e) = (ev2, f')" "ev = e_tx_hash e # ev2"
        using 2(3) no False by (auto simp: Let_def split: prod.splits)
      obtain k where k: "k \<le> length ?F" "ev2 = map e_tx_hash (take k ?F)" "f' = f + e_tx_size e + bytes_of (take k ?F)"
          "\<forall>j. 0 < j \<longrightarrow> j < k \<longrightarrow> f + e_tx_size e + bytes_of (take j ?F) < n"
        using 2(2) [OF no refl _ e(1)] False by auto
      have "f + bytes_of (take j (e # ?F)) < n" if "0 < j" "j < Suc k" for j
        using that k(4) False by (cases j; cases "j - 1") auto
      then show ?thesis using k(1-3) e(2) no by (intro exI [of _ "Suc k"]) auto
    qed
  qed
qed simp

abbreviation entries :: "CTxMemPool \<Rightarrow> CTxMemPoolEntry set" where
  "entries s \<equiv> snd ` set (mapTx s)"

lemma inj_entries:
  assumes "txs_ok sha3 m"
  shows "inj_on snd (set m)" "inj_on e_tx_hash (snd ` set m)" "distinct m"
proof -
  have h: "x = (e_tx_hash (snd x), snd x)" if "x \<in> set m" for x using txs_ok_D(2) [OF assms, of "fst x" "snd x"] that by (cases x) simp
  show "inj_on snd (set m)"
  proof (rule inj_onI)
    fix x y
    assume "x \<in> set m" "y \<in> set m" "snd x = snd y"
    then show "x = y" using h [of x] h [of y] by simp
  qed
  show "inj_on e_tx_hash (snd ` set m)"
  proof (rule inj_onI)
    fix x y
    assume "x \<in> snd ` set m" "y \<in> snd ` set m" "e_tx_hash x = e_tx_hash y"
    then show "x = y" using txs_ok_D(2,5) [OF assms] unfolding in_snd_image by (metis option.inject)
  qed
  show "distinct m" using txs_ok_distinct [OF assms] by (simp add: distinct_map)
qed

lemma pool_sums:
  assumes "pool_inv sha3 s"
  shows "mempool_size s = sum e_tx_size (entries s)" "mempool_count s = card (entries s)"
proof -
  have ok: "txs_ok sha3 (mapTx s)" using assms by (simp add: pool_inv_def)
  show "mempool_size s = sum e_tx_size (entries s)"
    using assms inj_entries [OF ok] by (simp add: pool_inv_def sum_list_distinct_conv_sum_set sum.reindex)
  show "mempool_count s = card (entries s)"
    using assms inj_entries [OF ok] by (simp add: pool_inv_def card_image distinct_card)
qed

lemma removed_entries:
  assumes "removed sha3 R s s'" "pool_inv sha3 s"
  shows "entries s' = {e \<in> entries s. e_tx_hash e \<notin> R}"
proof -
  have ok: "txs_ok sha3 (mapTx s)" and m: "set (mapTx s') = {(k, e) \<in> set (mapTx s). k \<notin> R}"
    using assms by (simp_all add: pool_inv_def removed_def)
  have "k = e_tx_hash e" if "(k, e) \<in> set (mapTx s)" for k e using txs_ok_D(2) [OF ok that] .
  then have "(k, e) \<in> set (mapTx s') \<longleftrightarrow> (k, e) \<in> set (mapTx s) \<and> e_tx_hash e \<notin> R" for k e unfolding m by blast
  then show ?thesis unfolding set_eq_iff mem_Collect_eq in_snd_image by blast
qed

lemma sorted_distinct: "sorted_wrt before xs \<Longrightarrow> distinct xs"
  by (induction xs) (auto dest: before_irrefl [THEN notE])

lemma childless_facts:
  assumes "pool_inv sha3 s"
  shows "set (childless s) = {e \<in> entries s. \<not> HasDescendants s (e_tx_hash e)}" "distinct (childless s)"
    "sorted_wrt (\<lambda>x y. e_fee_rate x \<le> e_fee_rate y) (childless s)"
proof -
  have i: "set (setEntries s) = entries s" "sorted_wrt before (setEntries s)" using assms by (simp_all add: pool_inv_def)
  show "set (childless s) = {e \<in> entries s. \<not> HasDescendants s (e_tx_hash e)}" unfolding childless_def by (simp add: i(1))
  show "distinct (childless s)" unfolding childless_def using sorted_distinct [OF i(2)] by simp
  have "sorted_wrt (\<lambda>x y. e_fee_rate x \<le> e_fee_rate y) (rev (setEntries s))"
    unfolding sorted_wrt_rev by (rule sorted_wrt_mono_rel [OF _ i(2)]) (rule before_rate)
  then show "sorted_wrt (\<lambda>x y. e_fee_rate x \<le> e_fee_rate y) (childless s)" unfolding childless_def by (rule sorted_wrt_filter)
qed

lemma EvictTransactions_effect:
  assumes "pool_inv sha3 s" "EvictTransactions n s = Inr s'" "0 < n"
  shows "\<exists>k. 0 < k \<and> k \<le> length (childless s) \<and> removed sha3 (e_tx_hash ` set (take k (childless s))) s s' \<and>
    n \<le> bytes_of (take k (childless s)) \<and> (\<forall>j. 0 < j \<longrightarrow> j < k \<longrightarrow> bytes_of (take j (childless s)) < n) \<and>
    entries s' = entries s - set (take k (childless s)) \<and>
    mempool_size s = mempool_size s' + bytes_of (take k (childless s)) \<and> mempool_count s = mempool_count s' + k"
proof -
  obtain ev f where e: "SelectEvictions s n (rev (setEntries s)) 0 = (ev, f)" "\<not> f < n" "s' = EvictSelected ev s"
    using assms(2) by (auto simp: EvictTransactions_def split: prod.splits if_splits)
  obtain k where k: "k \<le> length (childless s)" "ev = map e_tx_hash (take k (childless s))" "f = bytes_of (take k (childless s))"
      "\<forall>j. 0 < j \<longrightarrow> j < k \<longrightarrow> bytes_of (take j (childless s)) < n"
    using SelectEvictions_eq [OF e(1)] unfolding childless_def by auto
  let ?E = "take k (childless s)"
  have r: "removed sha3 (e_tx_hash ` set ?E) s s'" using EvictSelected_removed [OF assms(1), of ev] e(3) k(2) by simp
  have ok: "txs_ok sha3 (mapTx s)" and inv': "pool_inv sha3 s'" using assms(1) r by (simp_all add: pool_inv_def removed_def)
  have sub: "set ?E \<subseteq> entries s" using childless_facts(1) [OF assms(1)] set_take_subset [of k "childless s"] by auto
  have "{e \<in> entries s. e_tx_hash e \<notin> e_tx_hash ` set ?E} = entries s - set ?E"
    using inj_on_image_mem_iff [OF inj_entries(2) [OF ok] _ sub] by blast
  then have en: "entries s' = entries s - set ?E" using removed_entries [OF r assms(1)] by simp
  have d: "distinct ?E" using childless_facts(2) [OF assms(1)] by simp
  have fin: "finite (entries s)" by simp
  have "sum e_tx_size (entries s) = sum e_tx_size (entries s - set ?E) + sum e_tx_size (set ?E)"
    using sum.subset_diff [OF sub fin] .
  moreover have "card (entries s) = card (entries s - set ?E) + card (set ?E)"
    using card_Diff_subset [OF finite_set sub] card_mono [OF fin sub] by simp
  moreover have "sum e_tx_size (set ?E) = bytes_of ?E" "card (set ?E) = k"
    using d k(1) by (simp_all add: sum_list_distinct_conv_sum_set distinct_card)
  ultimately have "mempool_size s = mempool_size s' + bytes_of ?E" "mempool_count s = mempool_count s' + k"
    using pool_sums [OF assms(1)] pool_sums [OF inv'] en by simp_all
  moreover have "0 < k" using e(2) k(3) assms(3) by (cases k) auto
  ultimately show ?thesis using k(1,3,4) e(2) r en by (intro exI [of _ k]) simp
qed

section \<open>Insertion and its rollback\<close>

text \<open>The throw points after which the guard can undo all that was done.\<close>

definition clean_throw :: "throw_point option \<Rightarrow> bool" where
  "clean_throw oom \<longleftrightarrow> (\<forall>j. oom \<noteq> Some (AtGuard j) \<and> oom \<noteq> Some (AtDescendants j) \<and> oom \<noteq> Some (AtDescendant j))"

lemma TrackOutpoints_clean:
  assumes "TrackOutpoints oom i ins g s = (th, g', s')" "clean_throw oom"
  shows "\<exists>ps. set ps \<subseteq> prevout ` set ins \<and> s' = s\<lparr>mapSpentOutpoints := mapSpentOutpoints s \<union> set ps\<rparr> \<and>
    g' = g\<lparr>outpoints_added := outpoints_added g @ ps\<rparr> \<and> (\<not> th \<longrightarrow> ps = map prevout ins) \<and> (oom = None \<longrightarrow> \<not> th)"
  using assms
proof (induction oom i ins g s rule: TrackOutpoints.induct)
  case (1 oom i g s)
  then show ?case by (intro exI [of _ "[]"]) simp
next
  case (2 oom i input ins g s)
  show ?case
  proof (cases "oom = Some (AtOutpoint i)")
    case True
    then show ?thesis using 2 by (intro exI [of _ "[]"]) simp
  next
    case False
    then have run: "TrackOutpoints oom (Suc i) ins (g\<lparr>outpoints_added := outpoints_added g @ [prevout input]\<rparr>)
        (s\<lparr>mapSpentOutpoints := insert (prevout input) (mapSpentOutpoints s)\<rparr>) = (th, g', s')"
      using 2(2,3) by (auto simp: clean_throw_def)
    have "oom \<noteq> Some (AtGuard i)" using 2(3) by (simp add: clean_throw_def)
    from 2(1) [OF False refl this run 2(3)] obtain ps where
      ps: "set ps \<subseteq> prevout ` set ins" "s' = s\<lparr>mapSpentOutpoints := insert (prevout input) (mapSpentOutpoints s) \<union> set ps\<rparr>"
        "g' = g\<lparr>outpoints_added := (outpoints_added g @ [prevout input]) @ ps\<rparr>" "\<not> th \<longrightarrow> ps = map prevout ins" "oom = None \<longrightarrow> \<not> th"
      by auto
    then show ?thesis by (intro exI [of _ "prevout input # ps"]) auto
  qed
qed

definition add_child :: "uint256 \<Rightarrow> uint256 set \<Rightarrow> (uint256 \<Rightarrow> uint256 set option) \<Rightarrow> uint256 \<Rightarrow> uint256 set option" where
  "add_child txid P d p = (if p \<in> P then Some (insert txid (case d p of None \<Rightarrow> {} | Some c \<Rightarrow> c)) else d p)"

lemma UpdateDescendantsAdd_clean:
  assumes "clean_throw oom"
  shows "UpdateDescendantsAdd oom i txid ins s =
    (False, s\<lparr>mapDescendants := add_child txid (op_hash ` prevout ` set ins \<inter> fst ` set (mapTx s)) (mapDescendants s)\<rparr>)"
proof (induction ins arbitrary: i s)
  case Nil
  have "add_child txid {} (mapDescendants s) = mapDescendants s" by (simp add: add_child_def fun_eq_iff)
  then show ?case by simp
next
  case (Cons input ins)
  let ?p = "op_hash (prevout input)" and ?P = "op_hash ` prevout ` set ins \<inter> fst ` set (mapTx s)"
  have th: "oom \<noteq> Some (AtDescendants i)" "oom \<noteq> Some (AtDescendant i)" using assms by (simp_all add: clean_throw_def)
  show ?case
  proof (cases "map_of (mapTx s) ?p = None")
    case True
    then have "?p \<notin> fst ` set (mapTx s)" by (simp add: map_of_eq_None_iff)
    then show ?thesis using Cons.IH [of "Suc i" s] True by (simp add: Int_insert_left)
  next
    case False
    then have p: "?p \<in> fst ` set (mapTx s)" by (simp add: map_of_eq_None_iff)
    define d1 where "d1 = (mapDescendants s)(?p \<mapsto> insert txid (case mapDescendants s ?p of None \<Rightarrow> {} | Some d \<Rightarrow> d))"
    have run: "UpdateDescendantsAdd oom i txid (input # ins) s = UpdateDescendantsAdd oom (Suc i) txid ins (s\<lparr>mapDescendants := d1\<rparr>)"
      using False th by (auto simp: d1_def Let_def)
    have "add_child txid ?P d1 = add_child txid (insert ?p ?P) (mapDescendants s)"
      by (auto simp: d1_def add_child_def fun_eq_iff split: option.splits)
    then show ?thesis unfolding run Cons.IH using p by (simp add: Int_insert_left)
  qed
qed

lemma fresh_comparable:
  assumes "pool_inv sha3 s" "e_tx_hash x \<notin> fst ` set (mapTx s)" "wf256 (e_tx_hash x)"
  shows "\<forall>y \<in> set (setEntries s). before x y \<or> before y x"
proof
  fix y
  assume "y \<in> set (setEntries s)"
  then have "y \<in> entries s" using assms(1) unfolding pool_inv_def by blast
  then obtain k where k: "(k, y) \<in> set (mapTx s)" unfolding in_snd_image by blast
  have ok: "txs_ok sha3 (mapTx s)" using assms(1) by (simp add: pool_inv_def)
  have "e_tx_hash x \<noteq> e_tx_hash y" using txs_ok_D(2) [OF ok k] k assms(2) by force
  then show "before x y \<or> before y x" using before_total assms(3) txs_ok_D(1,2) [OF ok k] by simp
qed

lemma children_mono: "set m \<subseteq> set m' \<Longrightarrow> children m p \<subseteq> children m' p"
  by (auto simp: children_def)

lemma descendants_ok_add:
  assumes "descendants_ok m d" "set m' = insert (k, e) (set m)" "P = op_hash ` prevouts e \<inter> fst ` set m'"
  shows "descendants_ok m' (add_child k P d)"
proof -
  have "c \<noteq> {} \<and> p \<in> fst ` set m' \<and> c \<subseteq> children m' p" if "add_child k P d p = Some c" for p c
  proof -
    have old: "c' \<noteq> {} \<and> p \<in> fst ` set m' \<and> c' \<subseteq> children m' p" if "d p = Some c'" for c'
      using assms(1) that children_mono [of m m' p] assms(2) unfolding descendants_ok_def by blast
    show ?thesis
    proof (cases "p \<in> P")
      case True
      then have "k \<in> children m' p" "p \<in> fst ` set m'" using assms(2,3) by (auto simp: children_def)
      then show ?thesis using that True old by (auto simp: add_child_def split: option.splits)
    next
      case False
      then show ?thesis using that old by (simp add: add_child_def)
    qed
  qed
  then show ?thesis unfolding descendants_ok_def by blast
qed

lemma txs_ok_add:
  assumes "txs_ok sha3 m" "distinct (map fst m')" "set m' = insert (k, e) (set m)" "k \<notin> fst ` set m"
    "wf256 k" "k = e_tx_hash e" "k = TxId sha3 (e_tx e)" "e_tx_size e = GetSerializedSize (e_tx e)"
    "prevouts e \<inter> \<Union> (prevouts ` snd ` set m) = {}"
  shows "txs_ok sha3 m'"
proof -
  have "\<forall>(k, e) \<in> set m'. wf256 k \<and> k = e_tx_hash e \<and> k = TxId sha3 (e_tx e) \<and> e_tx_size e = GetSerializedSize (e_tx e)"
    unfolding assms(3) ball_simps prod.case using assms(1,5-8) unfolding txs_ok_def by (intro conjI) (assumption | blast)+
  moreover have "prevouts e \<inter> prevouts e' = {}" if "(k', e') \<in> set m" for k' e'
    using assms(9) that by force
  then have "\<forall>(k, e) \<in> set m'. \<forall>(k', e') \<in> set m'. k \<noteq> k' \<longrightarrow> prevouts e \<inter> prevouts e' = {}"
    using txs_ok_D(6) [OF assms(1)] unfolding assms(3) by blast
  ultimately show ?thesis unfolding txs_ok_def using assms(2) by blast
qed

abbreviation fresh_for :: "(bytes \<Rightarrow> uint256) \<Rightarrow> CTransaction \<Rightarrow> CTxMemPool \<Rightarrow> bool" where
  "fresh_for sha3 tx s \<equiv> wf256 (TxId sha3 tx) \<and> TxId sha3 tx \<notin> fst ` set (mapTx s) \<and> prevout ` set (vin tx) \<inter> mapSpentOutpoints s = {}"

lemma entry_new [simp]:
  "e_tx_hash (CTxMemPoolEntry_new sha3 tx fee time height) = TxId sha3 tx" "e_tx (CTxMemPoolEntry_new sha3 tx fee time height) = tx"
  "e_tx_size (CTxMemPoolEntry_new sha3 tx fee time height) = GetSerializedSize tx" "e_fee (CTxMemPoolEntry_new sha3 tx fee time height) = fee"
  "e_time (CTxMemPoolEntry_new sha3 tx fee time height) = time"
  by (simp_all add: CTxMemPoolEntry_new_def)

text \<open>What the pool is after each of the steps, where the exception may come.\<close>

lemma InsertSteps_cases:
  assumes "InsertSteps sha3 oom tx fee time height s = (th, g, s')" "clean_throw oom" "fresh_for sha3 tx s"
  defines "e \<equiv> CTxMemPoolEntry_new sha3 tx fee time height"
  defines "s1 \<equiv> s\<lparr>mapTx := map_emplace (TxId sha3 tx) e (mapTx s)\<rparr>"
  defines "s2 \<equiv> s1\<lparr>setEntries := set_insert e (setEntries s)\<rparr>"
  shows "th \<and> g = MempoolInsertionGuard_new \<and> s' = s \<or>
    th \<and> g = MempoolInsertionGuard_new\<lparr>map_inserted := True\<rparr> \<and> s' = s1 \<or>
    (\<exists>ps. set ps \<subseteq> prevout ` set (vin tx) \<and> th \<and>
       g = MempoolInsertionGuard_new\<lparr>map_inserted := True, set_inserted := True, outpoints_added := ps\<rparr> \<and>
       s' = s2\<lparr>mapSpentOutpoints := mapSpentOutpoints s \<union> set ps\<rparr>) \<or>
    \<not> th \<and> s' = s2\<lparr>mapSpentOutpoints := mapSpentOutpoints s \<union> prevout ` set (vin tx),
      mempool_size := mempool_size s + GetSerializedSize tx, mempool_count := mempool_count s + 1,
      mapDescendants := add_child (TxId sha3 tx) (op_hash ` prevouts e \<inter> fst ` set (mapTx s1)) (mapDescendants s),
      metric_adds := metric_adds s + 1\<rparr>"
proof (cases "oom = Some AtEntry \<or> oom = Some AtMap \<or> oom = Some AtSet")
  case True
  then show ?thesis using assms(1) by (auto simp: InsertSteps_def Let_def s1_def e_def)
next
  case False
  have m: "map_of (map_emplace (TxId sha3 tx) e (mapTx s)) (TxId sha3 tx) = Some e" using assms(3) by (simp add: map_emplace_of)
  let ?g2 = "MempoolInsertionGuard_new\<lparr>map_inserted := True, set_inserted := True\<rparr>"
  obtain th2 g3 s3 where t: "TrackOutpoints oom 0 (vin tx) ?g2 s2 = (th2, g3, s3)" by (metis prod_cases3)
  obtain ps where ps: "set ps \<subseteq> prevout ` set (vin tx)" "s3 = s2\<lparr>mapSpentOutpoints := mapSpentOutpoints s \<union> set ps\<rparr>"
      "g3 = ?g2\<lparr>outpoints_added := ps\<rparr>" "\<not> th2 \<longrightarrow> ps = map prevout (vin tx)"
    using TrackOutpoints_clean [OF t assms(2)] by (auto simp: s2_def s1_def MempoolInsertionGuard_new_def)
  have run: "InsertSteps sha3 oom tx fee time height s =
      (if th2 then (True, g3, s3)
       else (let s4 = s3\<lparr>mempool_size := mempool_size s3 + GetSerializedSize tx, mempool_count := mempool_count s3 + 1\<rparr>;
               g4 = g3\<lparr>size_added := GetSerializedSize tx, count_incremented := True\<rparr>
             in case UpdateDescendantsAdd oom 0 (TxId sha3 tx) (vin tx) s4 of
                  (thrown, s) \<Rightarrow> if thrown then (True, g4, s) else (False, g4\<lparr>descendants_updated := True\<rparr>, s\<lparr>metric_adds := metric_adds s + 1\<rparr>)))"
    using False t m unfolding InsertSteps_def Let_def e_def [symmetric] s2_def s1_def by simp
  show ?thesis
  proof (cases th2)
    case True
    then show ?thesis using run assms(1) ps by auto
  next
    case False
    then show ?thesis using run assms(1) ps UpdateDescendantsAdd_clean [OF assms(2)]
      by (auto simp: Let_def prevouts_def e_def s2_def s1_def)
  qed
qed

lemma pool_inv_D:
  assumes "pool_inv sha3 s"
  shows "txs_ok sha3 (mapTx s)" "sorted_wrt before (setEntries s)" "set (setEntries s) = entries s"
    "mapSpentOutpoints s = \<Union> (prevouts ` entries s)" "mempool_size s = sum_list (map (e_tx_size \<circ> snd) (mapTx s))"
    "mempool_count s = length (mapTx s)" "descendants_ok (mapTx s) (mapDescendants s)"
  using assms unfolding pool_inv_def by blast+

lemma InsertSteps_added:
  assumes "pool_inv sha3 s" "InsertSteps sha3 oom tx fee time height s = (False, g, s')" "clean_throw oom" "fresh_for sha3 tx s"
  defines "e \<equiv> CTxMemPoolEntry_new sha3 tx fee time height"
  shows "pool_inv sha3 s' \<and> set (mapTx s') = insert (TxId sha3 tx, e) (set (mapTx s)) \<and>
    mempool_size s' = mempool_size s + GetSerializedSize tx \<and> mempool_count s' = mempool_count s + 1 \<and>
    max_mempool_size s' = max_mempool_size s \<and> max_mempool_count s' = max_mempool_count s \<and> metric_removes s' = metric_removes s \<and>
    (\<forall>p. registered s' p = registered s p \<union> (if p \<in> op_hash ` prevouts e \<inter> fst ` set (mapTx s') then {TxId sha3 tx} else {}))"
proof -
  let ?k = "TxId sha3 tx" and ?m = "map_emplace (TxId sha3 tx) e (mapTx s)"
  note i = pool_inv_D [OF assms(1)]
  have k: "?k \<notin> fst ` set (mapTx s)" "wf256 ?k" "prevouts e \<inter> mapSpentOutpoints s = {}" using assms(4) by (auto simp: prevouts_def e_def)
  note em = map_emplace_set [OF k(1), of e] map_emplace_keys [OF k(1) txs_ok_distinct [OF i(1)], of e]
  have s': "s' = s\<lparr>mapTx := ?m, setEntries := set_insert e (setEntries s), mapSpentOutpoints := mapSpentOutpoints s \<union> prevouts e,
      mempool_size := mempool_size s + GetSerializedSize tx, mempool_count := mempool_count s + 1,
      mapDescendants := add_child ?k (op_hash ` prevouts e \<inter> fst ` set ?m) (mapDescendants s), metric_adds := metric_adds s + 1\<rparr>"
    using InsertSteps_cases [OF assms(2-4)] by (simp add: e_def prevouts_def)
  have c: "\<forall>y \<in> set (setEntries s). before e y \<or> before y e" using fresh_comparable [OF assms(1), of e] k by (simp add: e_def)
  have "txs_ok sha3 ?m" using i(4) k by (intro txs_ok_add [OF i(1) em(2,1) k(1,2)]) (simp_all add: e_def)
  moreover have "sorted_wrt before (set_insert e (setEntries s))" using c i(2) by (rule set_insert_sorted)
  moreover have "set (set_insert e (setEntries s)) = snd ` set ?m" unfolding em(1) set_insert_set [OF c] i(3) by simp
  moreover have "mapSpentOutpoints s \<union> prevouts e = \<Union> (prevouts ` snd ` set ?m)" unfolding em(1) i(4) by auto
  moreover have "mempool_size s + GetSerializedSize tx = sum_list (map (e_tx_size \<circ> snd) ?m)"
    unfolding map_emplace_sum [OF k(1)] i(5) by (simp add: e_def)
  moreover have "mempool_count s + 1 = length ?m" unfolding map_emplace_length [OF k(1)] i(6) by simp
  moreover have "descendants_ok ?m (add_child ?k (op_hash ` prevouts e \<inter> fst ` set ?m) (mapDescendants s))"
    by (rule descendants_ok_add [OF i(7) em(1) refl])
  ultimately have "pool_inv sha3 s'" unfolding pool_inv_def s' by simp
  moreover have "registered s' p = registered s p \<union> (if p \<in> op_hash ` prevouts e \<inter> fst ` set (mapTx s') then {?k} else {})" for p
    by (simp add: s' registered_def add_child_def split: option.splits)
  ultimately show ?thesis using em(1) by (simp add: s')
qed

lemma InsertSteps_rollback:
  assumes "pool_inv sha3 s" "InsertSteps sha3 oom tx fee time height s = (True, g, s')" "clean_throw oom" "fresh_for sha3 tx s"
  shows "Rollback (TxId sha3 tx) g (s'\<lparr>metric_add_failures := x\<rparr>) = s\<lparr>metric_add_failures := x\<rparr>"
proof -
  let ?k = "TxId sha3 tx"
  define e where "e = CTxMemPoolEntry_new sha3 tx fee time height"
  have k: "?k \<notin> fst ` set (mapTx s)" "wf256 (e_tx_hash e)" "e_tx_hash e \<notin> fst ` set (mapTx s)" using assms(4) by (simp_all add: e_def)
  have m: "map_of (map_emplace ?k e (mapTx s)) ?k = Some e" "AList.delete ?k (map_emplace ?k e (mapTx s)) = mapTx s"
    using k(1) by (simp_all add: map_emplace_of delete_emplace)
  have c: "set_erase e (set_insert e (setEntries s)) = setEntries s" using fresh_comparable [OF assms(1) k(3,2)] by (rule set_erase_insert)
  from InsertSteps_cases [OF assms(2-4), folded e_def] consider
      "g = MempoolInsertionGuard_new" "s' = s"
    | "g = MempoolInsertionGuard_new\<lparr>map_inserted := True\<rparr>" "s' = s\<lparr>mapTx := map_emplace ?k e (mapTx s)\<rparr>"
    | ps where "set ps \<subseteq> prevout ` set (vin tx)"
        "g = MempoolInsertionGuard_new\<lparr>map_inserted := True, set_inserted := True, outpoints_added := ps\<rparr>"
        "s' = s\<lparr>mapTx := map_emplace ?k e (mapTx s), setEntries := set_insert e (setEntries s),
           mapSpentOutpoints := mapSpentOutpoints s \<union> set ps\<rparr>"
    by auto
  then show ?thesis
  proof cases
    case (3 ps)
    have "mapSpentOutpoints s \<union> set ps - set ps = mapSpentOutpoints s" using assms(4) 3(1) by auto
    then show ?thesis unfolding 3(2,3) using m c by (simp add: Rollback_def MempoolInsertionGuard_new_def)
  qed (simp_all add: Rollback_def MempoolInsertionGuard_new_def m)
qed

lemma removed_fresh:
  assumes "removed sha3 R s s'" "pool_inv sha3 s" "fresh_for sha3 tx s"
  shows "fresh_for sha3 tx s'"
proof -
  have sp: "mapSpentOutpoints s' = \<Union> (prevouts ` entries s')" "mapSpentOutpoints s = \<Union> (prevouts ` entries s)"
    using assms(1,2) by (auto simp: removed_def pool_inv_def)
  have sub: "entries s' \<subseteq> entries s" "fst ` set (mapTx s') \<subseteq> fst ` set (mapTx s)"
    using assms(1) by (auto simp: removed_def)
  have "mapSpentOutpoints s' \<subseteq> mapSpentOutpoints s" unfolding sp by (intro Union_mono image_mono sub)
  then show ?thesis using sub(2) assms(3) by blast
qed

lemma MakeRoomCount_effect:
  assumes "pool_inv sha3 s" "MakeRoomCount s = Inr s'"
  shows "\<exists>R. removed sha3 R s s' \<and> (mempool_count s \<le> max_mempool_count s \<longrightarrow> 0 < max_mempool_count s \<longrightarrow> mempool_count s' < max_mempool_count s')"
proof (cases "mempool_count s \<ge> max_mempool_count s")
  case True
  then have ev: "EvictTransactions 1 s = Inr s'" using assms(2) by (simp add: MakeRoomCount_def)
  obtain k where "removed sha3 (e_tx_hash ` set (take k (childless s))) s s'" "0 < k" "mempool_count s = mempool_count s' + k"
    using EvictTransactions_effect [OF assms(1) ev] by auto
  then show ?thesis by (intro exI [of _ "e_tx_hash ` set (take k (childless s))"]) (auto simp: removed_def)
next
  case False
  then show ?thesis using assms removed_refl [OF assms(1)] by (auto simp: MakeRoomCount_def)
qed

lemma MakeRoomSize_effect:
  assumes "pool_inv sha3 s" "MakeRoomSize n s = Inr s'"
  shows "\<exists>R. removed sha3 R s s' \<and> mempool_size s' + n \<le> max_mempool_size s'"
proof (cases "mempool_size s + n > max_mempool_size s")
  case True
  then have ev: "EvictTransactions (mempool_size s + n - max_mempool_size s) s = Inr s'" using assms(2) by (simp add: MakeRoomSize_def)
  obtain k where k: "removed sha3 (e_tx_hash ` set (take k (childless s))) s s'" "mempool_size s = mempool_size s' + bytes_of (take k (childless s))"
      "mempool_size s + n - max_mempool_size s \<le> bytes_of (take k (childless s))"
    using EvictTransactions_effect [OF assms(1) ev] True by auto
  then have "mempool_size s' + n \<le> max_mempool_size s'" by (auto simp: removed_def)
  then show ?thesis using k(1) by blast
next
  case False
  then show ?thesis using assms removed_refl [OF assms(1)] by (auto simp: MakeRoomSize_def)
qed

section \<open>Adding and replacing\<close>

lemma AddValidated_effect:
  assumes "pool_inv sha3 s" "AddValidated sha3 oom tx fee time height s = (res, s')" "clean_throw oom" "fresh_for sha3 tx s"
  shows "pool_inv sha3 s' \<and> max_mempool_size s' = max_mempool_size s \<and> max_mempool_count s' = max_mempool_count s \<and>
    metric_removes s' = metric_removes s \<and> (within_limits s \<longrightarrow> 0 < max_mempool_count s \<longrightarrow> within_limits s') \<and>
    (\<exists>R. set (mapTx s') = (case res of Inl _ \<Rightarrow> {} | Inr _ \<Rightarrow> {(TxId sha3 tx, CTxMemPoolEntry_new sha3 tx fee time height)}) \<union>
       {(k, e) \<in> set (mapTx s). k \<notin> R})"
proof (cases "MakeRoomCount s")
  case (Inl e)
  then have "s' = s" "\<exists>e. res = Inl e" using assms(2) by (auto simp: AddValidated_def)
  then show ?thesis using assms(1) by (auto intro: exI [of _ "{}"])
next
  case c: (Inr s1)
  obtain R1 where r1: "removed sha3 R1 s s1"
      "mempool_count s \<le> max_mempool_count s \<longrightarrow> 0 < max_mempool_count s \<longrightarrow> mempool_count s1 < max_mempool_count s1"
    using MakeRoomCount_effect [OF assms(1) c] by (elim exE conjE) (rule that)
  then have inv1: "pool_inv sha3 s1" by (simp add: removed_def)
  show ?thesis
  proof (cases "MakeRoomSize (GetSerializedSize tx) s1")
    case (Inl e)
    then have "s' = s1" "\<exists>e. res = Inl e" using assms(2) c by (auto simp: AddValidated_def)
    then show ?thesis using r1(1) by (auto simp: removed_def within_limits_def intro: exI [of _ R1])
  next
    case z: (Inr s2)
    obtain R2 where r2: "removed sha3 R2 s1 s2" "mempool_size s2 + GetSerializedSize tx \<le> max_mempool_size s2"
      using MakeRoomSize_effect [OF inv1 z] by blast
    have r: "removed sha3 (R1 \<union> R2) s s2" using removed_trans [OF r1(1) r2(1)] .
    then have inv2: "pool_inv sha3 s2" by (simp add: removed_def)
    have f2: "fresh_for sha3 tx s2" using removed_fresh [OF r assms(1,4)] .
    obtain th g s3 where i: "InsertSteps sha3 oom tx fee time height s2 = (th, g, s3)" by (metis prod_cases3)
    have lim: "within_limits s \<longrightarrow> 0 < max_mempool_count s \<longrightarrow>
        mempool_count s2 < max_mempool_count s2 \<and> mempool_size s2 \<le> max_mempool_size s2"
      using r1 r2 by (auto simp: within_limits_def removed_def)
    show ?thesis
    proof (cases th)
      case True
      then have rb: "Rollback (TxId sha3 tx) g (s3\<lparr>metric_add_failures := metric_add_failures s3 + 1\<rparr>) =
          s2\<lparr>metric_add_failures := metric_add_failures s3 + 1\<rparr>"
        using InsertSteps_rollback [OF inv2 i [unfolded eqTrueI [OF True]] assms(3) f2] by simp
      then have "s' = s2\<lparr>metric_add_failures := metric_add_failures s3 + 1\<rparr>" "res = Inl FailedToAdd"
        using assms(2) c z i True rb by (simp_all add: AddValidated_def)
      then show ?thesis using r lim by (auto simp: removed_def within_limits_def intro: exI [of _ "R1 \<union> R2"])
    next
      case False
      then have "s' = s3" "res = Inr ()" using assms(2) c z i by (simp_all add: AddValidated_def)
      moreover have "InsertSteps sha3 oom tx fee time height s2 = (False, g, s3)" using i False by simp
      note a = InsertSteps_added [OF inv2 this assms(3) f2]
      ultimately show ?thesis using a r lim r2(2) by (auto simp: removed_def within_limits_def intro!: exI [of _ "R1 \<union> R2"])
    qed
  qed
qed

lemma ValidateLocked_pass:
  assumes "ValidateLocked sha3 now tx_ref fee time height bypass s = r" "r = Inr () \<or> r = Inl MempoolFullCount \<or> r = Inl MempoolFullSize"
  shows "\<exists>tx. tx_ref = Some tx \<and> map_of (mapTx s) (TxId sha3 tx) = None \<and> prevout ` set (vin tx) \<inter> mapSpentOutpoints s = {} \<and>
    (bypass \<or> CheckFee tx fee True = Inr ()) \<and>
    (r = Inr () \<longrightarrow> mempool_count s < max_mempool_count s \<and> mempool_size s + GetSerializedSize tx \<le> max_mempool_size s)"
proof -
  obtain tx where tx: "tx_ref = Some tx" using assms by (cases tx_ref) (auto simp: ValidateLocked_def)
  have c: "map_of (mapTx s) (TxId sha3 tx) = None" "\<not> list_ex (\<lambda>input. prevout input \<in> mapSpentOutpoints s) (vin tx)"
      "bypass \<or> CheckFee tx fee True = Inr ()"
      "r = Inr () \<longrightarrow> mempool_count s < max_mempool_count s \<and> mempool_size s + GetSerializedSize tx \<le> max_mempool_size s"
    using assms by (cases bypass; cases "CheckFee tx fee True"; auto simp: ValidateLocked_def tx Let_def split: if_splits)+
  moreover have "prevout ` set (vin tx) \<inter> mapSpentOutpoints s = {}" using c(2) by (auto simp: list_ex_iff)
  ultimately show ?thesis using tx c(1,3,4) by simp
qed

lemma AddTxUnlocked_effect:
  assumes "pool_inv sha3 s" "AddTxUnlocked sha3 now oom tx_ref fee time height bypass s = (res, s')" "clean_throw oom"
    "\<forall>tx. tx_ref = Some tx \<longrightarrow> wf256 (TxId sha3 tx)"
  shows "pool_inv sha3 s' \<and> max_mempool_size s' = max_mempool_size s \<and> max_mempool_count s' = max_mempool_count s \<and>
    metric_removes s' = metric_removes s \<and> (within_limits s \<longrightarrow> 0 < max_mempool_count s \<longrightarrow> within_limits s')"
proof (cases "ValidateLocked sha3 now tx_ref fee time height bypass s = Inr () \<or>
    ValidateLocked sha3 now tx_ref fee time height bypass s = Inl MempoolFullCount \<or>
    ValidateLocked sha3 now tx_ref fee time height bypass s = Inl MempoolFullSize")
  case True
  from ValidateLocked_pass [OF refl True] obtain tx where tx: "tx_ref = Some tx" "map_of (mapTx s) (TxId sha3 tx) = None"
      "prevout ` set (vin tx) \<inter> mapSpentOutpoints s = {}" by blast
  then have "fresh_for sha3 tx s" using assms(4) by (simp add: map_of_eq_None_iff)
  moreover have "AddValidated sha3 oom tx fee time height s = (res, s')" using assms(2) True tx(1) by (auto simp: AddTxUnlocked_def)
  note e = AddValidated_effect [OF assms(1) this assms(3)]
  ultimately show ?thesis by blast
next
  case False
  then have "s' = s" using assms(2) by (auto simp: AddTxUnlocked_def split: sum.splits if_splits)
  then show ?thesis using assms(1) by simp
qed

definition hash_set :: "uint256 list \<Rightarrow> bool" where
  "hash_set xs \<longleftrightarrow> (\<forall>x \<in> set xs. wf256 x) \<and> sorted_wrt uint256_less xs"

lemma hash_set_distinct: "hash_set xs \<Longrightarrow> distinct xs"
  by (induction xs) (auto simp: hash_set_def)

lemma hash_insert_set: "set (hash_insert x xs) = insert x (set xs)"
  by (induction xs) auto

lemma hash_insert_hash_set: "hash_set xs \<Longrightarrow> wf256 x \<Longrightarrow> hash_set (hash_insert x xs)"
proof (induction xs)
  case (Cons y xs)
  have t: "x = y \<or> uint256_less x y \<or> uint256_less y x" using uint256_less_total [of x y] Cons.prems by (simp add: hash_set_def wf256_def)
  have "hash_set xs" using Cons.prems by (simp add: hash_set_def)
  then show ?case using Cons t by (auto simp: hash_set_def hash_insert_set intro: uint256_less_trans)
qed (simp add: hash_set_def)

lemma ConflictsOf_set:
  assumes "ConflictsOf input m (cs, f) = (cs', f')" "\<forall>(k, e) \<in> set m. wf256 (e_tx_hash e)"
  shows "set cs' = set cs \<union> {h. \<exists>k e. (k, e) \<in> set m \<and> prevout input \<in> prevouts e \<and> h = e_tx_hash e} \<and> (hash_set cs \<longrightarrow> hash_set cs')"
  using assms
proof (induction m arbitrary: cs f)
  case (Cons ke m)
  have c: "list_ex (\<lambda>i. prevout i = prevout input) (vin (e_tx e)) \<longleftrightarrow> prevout input \<in> prevouts e" for e
    by (auto simp: list_ex_iff prevouts_def image_iff) metis+
  obtain k e where ke: "ke = (k, e)" by force
  have wf: "wf256 (e_tx_hash e)" "\<forall>(k, e) \<in> set m. wf256 (e_tx_hash e)" using Cons.prems(2) ke by auto
  show ?case
  proof (cases "prevout input \<in> prevouts e")
    case True
    then have "ConflictsOf input m (hash_insert (e_tx_hash e) cs, f + e_fee e) = (cs', f')" using Cons.prems(1) ke c by simp
    from Cons.IH [OF this wf(2)] show ?thesis
      using True hash_insert_hash_set [OF _ wf(1), of cs] unfolding ke by (auto simp: hash_insert_set)
  next
    case False
    then have "ConflictsOf input m (cs, f) = (cs', f')" using Cons.prems(1) ke c by simp
    from Cons.IH [OF this wf(2)] show ?thesis using False unfolding ke by auto
  qed
qed simp

definition conflicting :: "CTxMemPool \<Rightarrow> COutPoint set \<Rightarrow> uint256 set" where
  "conflicting s P = {h. \<exists>k e. (k, e) \<in> set (mapTx s) \<and> prevouts e \<inter> P \<noteq> {} \<and> h = e_tx_hash e}"

lemma conflicting_insert: "conflicting s (insert p P) = {h. \<exists>k e. (k, e) \<in> set (mapTx s) \<and> p \<in> prevouts e \<and> h = e_tx_hash e} \<union> conflicting s P"
  unfolding conflicting_def Int_insert_right by (auto split: if_splits)

lemma FindConflicts_set:
  assumes "FindConflicts s ins (cs, f) = (cs', f')" "pool_inv sha3 s"
  shows "set cs' = set cs \<union> conflicting s (prevout ` set ins) \<and> (hash_set cs \<longrightarrow> hash_set cs')"
  using assms(1)
proof (induction ins arbitrary: cs f)
  case Nil
  then show ?case by (simp add: conflicting_def)
next
  case (Cons i ins)
  define H where "H = {h. \<exists>k e. (k, e) \<in> set (mapTx s) \<and> prevout i \<in> prevouts e \<and> h = e_tx_hash e}"
  obtain cs1 f1 where c: "(if prevout i \<in> mapSpentOutpoints s then ConflictsOf i (mapTx s) (cs, f) else (cs, f)) = (cs1, f1)" by fastforce
  have wf: "\<forall>(k, e) \<in> set (mapTx s). wf256 (e_tx_hash e)"
    using txs_ok_D(1,2) [OF pool_inv_D(1) [OF assms(2)]] by fastforce
  have 1: "set cs1 = set cs \<union> H \<and> (hash_set cs \<longrightarrow> hash_set cs1)"
  proof (cases "prevout i \<in> mapSpentOutpoints s")
    case True
    then show ?thesis using ConflictsOf_set [OF _ wf, of i cs f cs1 f1] c unfolding H_def by simp
  next
    case False
    then have "H = {}" unfolding H_def pool_inv_D(4) [OF assms(2)] by force
    then show ?thesis using c False by simp
  qed
  have "FindConflicts s ins (cs1, f1) = (cs', f')" using Cons.prems c by simp
  note Cons.IH [OF this]
  then show ?case using 1 by (simp add: conflicting_insert H_def [symmetric] Un_assoc)
qed

section \<open>Every operation keeps the invariant\<close>

definition pool_good :: "(bytes \<Rightarrow> uint256) \<Rightarrow> CTxMemPool \<Rightarrow> bool" where
  "pool_good sha3 s \<longleftrightarrow> pool_inv sha3 s \<and> within_limits s \<and> max_mempool_size s = DEFAULT_MAX_MEMPOOL_SIZE \<and>
     max_mempool_count s = DEFAULT_MAX_MEMPOOL_COUNT \<and> metric_removes s = 0"

lemma pool_good_counters [simp]:
  "pool_good sha3 (s\<lparr>metric_rbf_failures := x\<rparr>) = pool_good sha3 s" "pool_good sha3 (s\<lparr>metric_rbf_replacements := x\<rparr>) = pool_good sha3 s"
  "pool_good sha3 (s\<lparr>metric_rebroadcasts := x\<rparr>) = pool_good sha3 s" "pool_good sha3 (s\<lparr>m_pending_estimator_evictions := ys\<rparr>) = pool_good sha3 s"
  "pool_good sha3 (s\<lparr>pool_nHeight := h\<rparr>) = pool_good sha3 s"
  by (simp_all add: pool_good_def within_limits_def)

lemma removed_good: "removed sha3 R s s' \<Longrightarrow> pool_good sha3 s \<Longrightarrow> pool_good sha3 s'"
  by (auto simp: removed_def pool_good_def within_limits_def)

lemma AddTxUnlocked_good:
  assumes "pool_good sha3 s" "AddTxUnlocked sha3 now oom tx_ref fee time height bypass s = (res, s')" "clean_throw oom"
    "\<forall>tx. tx_ref = Some tx \<longrightarrow> wf256 (TxId sha3 tx)"
  shows "pool_good sha3 s'"
proof -
  have i: "pool_inv sha3 s" using assms(1) by (simp add: pool_good_def)
  show ?thesis using AddTxUnlocked_effect [OF i assms(2-4)] assms(1) by (simp add: pool_good_def DEFAULT_MAX_MEMPOOL_COUNT_def)
qed

lemma ReplaceTransactionLocked_good:
  assumes "pool_good sha3 s" "ReplaceTransactionLocked sha3 now oom tx_ref fee time height s = (res, ev, s')" "clean_throw oom"
    "\<forall>tx. tx_ref = Some tx \<longrightarrow> wf256 (TxId sha3 tx)"
  shows "pool_good sha3 s'"
proof (cases "\<exists>tx cs. tx_ref = Some tx \<and> CheckReplacement tx fee s = Inr cs")
  case False
  then show ?thesis using assms(1,2) by (auto simp: ReplaceTransactionLocked_def split: option.splits sum.splits)
next
  case True
  then obtain tx cs where tx: "tx_ref = Some tx" "CheckReplacement tx fee s = Inr cs" by blast
  have i: "pool_inv sha3 s" using assms(1) by (simp add: pool_good_def)
  obtain ok ev1 s1 where r: "RemoveConflicts cs s = (ok, ev1, s1)" by (metis prod_cases3)
  have g1: "pool_good sha3 s1" using RemoveConflicts_removed [OF i r] removed_good assms(1) by blast
  obtain a s2 where a: "AddTxUnlocked sha3 now oom tx_ref fee time height False s1 = (a, s2)" by fastforce
  have "pool_good sha3 s2" by (rule AddTxUnlocked_good [OF g1 a assms(3,4)])
  then show ?thesis using assms(2) tx r a g1 by (cases a) (auto simp: ReplaceTransactionLocked_def split: if_splits)
qed

text \<open>
  The public operations, in any order: a transaction that is handed over has its hash cached correctly or not at all, and
  an exception comes at one of the throw points that the guard covers.
\<close>

inductive pool_step :: "(bytes \<Rightarrow> uint256) \<Rightarrow> CTxMemPool \<Rightarrow> CTxMemPool \<Rightarrow> bool" for sha3 where
  step_add: "AddTx sha3 est now oom tx_ref fee time height bypass s = (res, ev, s') \<Longrightarrow> clean_throw oom \<Longrightarrow>
    \<forall>tx. tx_ref = Some tx \<longrightarrow> hash_inv sha3 tx \<Longrightarrow> pool_step sha3 s s'"
| step_replace: "ReplaceTransaction sha3 est now oom tx_ref fee time height bypass s = (res, ev, s') \<Longrightarrow> clean_throw oom \<Longrightarrow>
    \<forall>tx. tx_ref = Some tx \<longrightarrow> hash_inv sha3 tx \<Longrightarrow> pool_step sha3 s s'"
| step_remove: "RemoveTx est txid s = (r, ev, s') \<Longrightarrow> pool_step sha3 s s'"
| step_confirmed: "pool_step sha3 s (RemoveConfirmedTxs sha3 txs s)"
| step_expired: "CleanupExpiredTransactions est now s = (ev, s') \<Longrightarrow> pool_step sha3 s s'"
| step_clear: "pool_step sha3 s (Mempool_Clear s)"
| step_height: "pool_step sha3 s (SetHeight h s)"
| step_rebroadcast: "pool_step sha3 s (MarkRebroadcast txid s)"

lemma TxId_hash_inv: "\<forall>x. wf256 (sha3 x) \<Longrightarrow> hash_inv sha3 tx \<Longrightarrow> wf256 (TxId sha3 tx)"
  by (auto simp: TxId_def GetHash_def hash_inv_def Let_def)

lemma pool_step_good:
  assumes "pool_step sha3 s s'" "pool_good sha3 s" "\<forall>x. wf256 (sha3 x)"
  shows "pool_good sha3 s'"
  using assms(1)
proof cases
  case (step_add est now oom tx_ref fee time height bypass res ev)
  then obtain s1 where "AddTxUnlocked sha3 now oom tx_ref fee time height bypass (s\<lparr>m_pending_estimator_evictions := []\<rparr>) = (res, s1)"
      "s' = s1\<lparr>m_pending_estimator_evictions := []\<rparr>" by (auto simp: AddTx_def split: prod.splits)
  then show ?thesis using AddTxUnlocked_good [of sha3 "s\<lparr>m_pending_estimator_evictions := []\<rparr>" now oom tx_ref fee time height bypass res s1] step_add(2,3) assms(2) TxId_hash_inv [OF assms(3)] by simp
next
  case (step_replace est now oom tx_ref fee time height bypass res ev)
  then obtain c s1 where "ReplaceTransactionLocked sha3 now oom tx_ref fee time height (s\<lparr>m_pending_estimator_evictions := []\<rparr>) = (res, c, s1)"
      "s' = s1\<lparr>m_pending_estimator_evictions := []\<rparr>" by (auto simp: ReplaceTransaction_def split: prod.splits)
  then show ?thesis using ReplaceTransactionLocked_good [of sha3 "s\<lparr>m_pending_estimator_evictions := []\<rparr>" now oom tx_ref fee time height res c s1] step_replace(2,3) assms(2) TxId_hash_inv [OF assms(3)] by simp
next
  case (step_remove est txid r ev)
  then have "RemoveTxUnlocked txid s = (r, s')" by (auto simp: RemoveTx_def split: prod.splits)
  then show ?thesis using RemoveTxUnlocked_removed removed_good assms(2) by (metis pool_good_def)
next
  case (step_confirmed txs)
  then show ?thesis using RemoveConfirmedTxs_removed [of sha3 s txs] removed_good assms(2) by (metis pool_good_def)
next
  case (step_expired est now ev)
  then obtain to ex where "RemoveExpired to s = (ex, s')" by (auto simp: CleanupExpiredTransactions_def Let_def split: prod.splits)
  then show ?thesis using RemoveExpired_removed removed_good assms(2) by (metis pool_good_def)
next
  case step_clear
  then show ?thesis using assms(2)
    by (simp add: pool_good_def pool_inv_def within_limits_def Mempool_Clear_def txs_ok_def descendants_ok_def)
next
  case (step_height h)
  then show ?thesis using assms(2) by (simp add: SetHeight_def)
next
  case (step_rebroadcast txid)
  then show ?thesis using assms(2) by (simp add: MarkRebroadcast_def)
qed

lemma new_pool_good: "pool_good sha3 CTxMemPool_new"
  by (simp add: pool_good_def pool_inv_def within_limits_def CTxMemPool_new_def txs_ok_def descendants_ok_def)

lemma reachable_good: "(pool_step sha3)\<^sup>*\<^sup>* CTxMemPool_new s \<Longrightarrow> \<forall>x. wf256 (sha3 x) \<Longrightarrow> pool_good sha3 s"
  by (induction rule: rtranclp_induct) (auto intro: new_pool_good pool_step_good)

section \<open>Properties\<close>


text \<open>
  C9: eviction. When it succeeds it has removed transactions that had no registered children, the cheapest first, as
  few as free the bytes that were asked for; a transaction that stays though it pays a lower rate than an evicted one has a
  registered child. If all children were registered, no transaction that stays has lost a parent.
\<close>

theorem eviction_policy:
  assumes "pool_inv sha3 s" "EvictTransactions n s = Inr s'" "0 < n"
  shows "\<exists>gone. distinct gone \<and> gone \<noteq> [] \<and> set gone \<subseteq> entries s \<and> entries s' = entries s - set gone \<and>
    (\<forall>e \<in> set gone. \<not> HasDescendants s (e_tx_hash e)) \<and> bytes_of (butlast gone) < n \<and> n \<le> bytes_of gone \<and>
    mempool_size s' = mempool_size s - bytes_of gone \<and>
    (\<forall>e \<in> set gone. \<forall>e' \<in> entries s'. e_fee_rate e' < e_fee_rate e \<longrightarrow> HasDescendants s (e_tx_hash e')) \<and>
    ((\<forall>p. children (mapTx s) p \<subseteq> registered s p) \<longrightarrow>
       (\<forall>e \<in> entries s'. \<forall>p \<in> op_hash ` prevouts e. p \<in> fst ` set (mapTx s) \<longrightarrow> p \<in> fst ` set (mapTx s')))"
proof -
  obtain k where k: "0 < k" "k \<le> length (childless s)" "removed sha3 (e_tx_hash ` set (take k (childless s))) s s'"
      "n \<le> bytes_of (take k (childless s))" "\<forall>j. 0 < j \<longrightarrow> j < k \<longrightarrow> bytes_of (take j (childless s)) < n"
      "entries s' = entries s - set (take k (childless s))" "mempool_size s = mempool_size s' + bytes_of (take k (childless s))"
    using EvictTransactions_effect [OF assms] by (elim exE conjE) (rule that)
  let ?F = "childless s"
  note c = childless_facts [OF assms(1)]
  have "butlast (take k ?F) = take (k - 1) ?F" using k(2) by (simp add: butlast_take)
  then have m: "bytes_of (butlast (take k ?F)) < n" using k(1,5) assms(3) by (cases "k = 1") auto
  have sub: "set (take k ?F) \<subseteq> set ?F" by (rule set_take_subset)
  have "e_fee_rate e \<le> e_fee_rate e'" if "e \<in> set (take k ?F)" "e' \<in> set (drop k ?F)" for e e'
    using c(3) that append_take_drop_id [of k ?F] by (metis sorted_wrt_append)
  moreover have "e' \<in> set (drop k ?F)" if "e' \<in> entries s'" "\<not> HasDescendants s (e_tx_hash e')" for e'
    using that c(1) k(6) append_take_drop_id [of k ?F] by (metis (no_types, lifting) DiffE UnE mem_Collect_eq set_append)
  ultimately have "\<forall>e \<in> set (take k ?F). \<forall>e' \<in> entries s'. e_fee_rate e' < e_fee_rate e \<longrightarrow> HasDescendants s (e_tx_hash e')"
    by (meson leD)
  moreover have "p \<in> fst ` set (mapTx s')"
    if "\<forall>p. children (mapTx s) p \<subseteq> registered s p" "e \<in> entries s'" "p \<in> op_hash ` prevouts e" "p \<in> fst ` set (mapTx s)" for e p
  proof -
    have "e \<in> entries s" using that(2) k(6) by blast
    then obtain q where q: "(q, e) \<in> set (mapTx s)" unfolding in_snd_image by blast
    have "q \<in> registered s p" using that(1,3) q unfolding children_def by blast
    then have "HasDescendants s p" unfolding HasDescendants_registered by blast
    then have "p \<notin> e_tx_hash ` set (take k ?F)" using sub c(1) by blast
    moreover from that(4) obtain e' where "(p, e') \<in> set (mapTx s)" by (metis imageE prod.collapse)
    ultimately have "(p, e') \<in> set (mapTx s')" using k(3) unfolding removed_def by blast
    then show ?thesis by (rule image_eqI [rotated]) simp
  qed
  ultimately show ?thesis
    using k m sub c(1,2) by (intro exI [of _ "take k ?F"]) (auto simp del: butlast_take)
qed


lemma AddTxUnlocked_room:
  assumes "ValidateLocked sha3 now (Some tx) fee time height bypass s = Inr ()" "wf256 (TxId sha3 tx)"
  shows "fresh_for sha3 tx s" "AddTxUnlocked sha3 now oom (Some tx) fee time height bypass s =
      (case InsertSteps sha3 oom tx fee time height s of
         (thrown, g, t) \<Rightarrow> if \<not> thrown then (Inr (), t)
           else (Inl FailedToAdd, Rollback (TxId sha3 tx) g (t\<lparr>metric_add_failures := metric_add_failures t + 1\<rparr>)))"
proof -
  have v: "map_of (mapTx s) (TxId sha3 tx) = None" "prevout ` set (vin tx) \<inter> mapSpentOutpoints s = {}"
      "mempool_count s < max_mempool_count s" "mempool_size s + GetSerializedSize tx \<le> max_mempool_size s"
    using ValidateLocked_pass [OF assms(1)] by simp_all
  show "fresh_for sha3 tx s" using assms(2) v(1,2) by (simp add: map_of_eq_None_iff)
  show "AddTxUnlocked sha3 now oom (Some tx) fee time height bypass s =
      (case InsertSteps sha3 oom tx fee time height s of
         (thrown, g, t) \<Rightarrow> if \<not> thrown then (Inr (), t)
           else (Inl FailedToAdd, Rollback (TxId sha3 tx) g (t\<lparr>metric_add_failures := metric_add_failures t + 1\<rparr>)))"
    using v(3,4) by (simp add: AddTxUnlocked_def assms(1) AddValidated_def MakeRoomCount_def MakeRoomSize_def)
qed

lemma InsertSteps_no_throw: "fst (InsertSteps sha3 None tx fee time height s) = False"
proof -
  have t: "fst (TrackOutpoints None i ins g s) = False" for i ins g s by (induction ins arbitrary: i g s) (simp_all add: Let_def)
  then show ?thesis
    by (auto simp: InsertSteps_def Let_def UpdateDescendantsAdd_clean clean_throw_def split: prod.splits) (metis fst_conv)
qed

lemma AddTxUnlocked_valid:
  assumes "pool_inv sha3 s" "ValidateLocked sha3 now (Some tx) fee time height bypass s = Inr ()" "wf256 (TxId sha3 tx)"
    "clean_throw oom" "AddTxUnlocked sha3 now oom (Some tx) fee time height bypass s = (res, s')"
  shows "(oom = None \<longrightarrow> res = Inr ()) \<and>
    (case res of
       Inl e \<Rightarrow> e = FailedToAdd \<and> s' = s\<lparr>metric_add_failures := metric_add_failures s + 1\<rparr>
     | Inr _ \<Rightarrow> pool_inv sha3 s' \<and> set (mapTx s') = insert (TxId sha3 tx, CTxMemPoolEntry_new sha3 tx fee time height) (set (mapTx s)))"
proof -
  note run = AddTxUnlocked_room(2) [OF assms(2,3), of oom] and f = AddTxUnlocked_room(1) [OF assms(2,3)]
  obtain th g t where i: "InsertSteps sha3 oom tx fee time height s = (th, g, t)" by (metis prod_cases3)
  show ?thesis
  proof (cases th)
    case True
    then have "metric_add_failures t = metric_add_failures s" using InsertSteps_cases [OF i assms(4) f] by auto
    then show ?thesis using InsertSteps_rollback [OF assms(1) i [unfolded eqTrueI [OF True]] assms(4) f] assms(5) i True
        InsertSteps_no_throw [of sha3 tx fee time height s] unfolding run by auto
  next
    case False
    have "InsertSteps sha3 oom tx fee time height s = (False, g, t)" using i False by simp
    from InsertSteps_added [OF assms(1) this assms(4) f] show ?thesis using assms(5) i False unfolding run by auto
  qed
qed

text \<open>
  C15: insertion is all or nothing where the guard can see it. For a transaction that passes validation into a pool with
  room, an exception at a covered throw point leaves the pool as it was but for the counter of failures, and without an
  exception the transaction is in. An exception of the guard's own list, right after an outpoint was recorded, leaves that outpoint
  spent by no transaction, so that every later spend of it is refused.
\<close>

theorem insertion_atomic:
  assumes "pool_inv sha3 s" "ValidateLocked sha3 now (Some tx) fee time height bypass s = Inr ()" "wf256 (TxId sha3 tx)"
  shows "(clean_throw oom \<longrightarrow> AddTxUnlocked sha3 now oom (Some tx) fee time height bypass s = (res, s') \<longrightarrow>
      (case res of
         Inl e \<Rightarrow> e = FailedToAdd \<and> s' = s\<lparr>metric_add_failures := metric_add_failures s + 1\<rparr>
       | Inr _ \<Rightarrow> pool_inv sha3 s' \<and> set (mapTx s') = insert (TxId sha3 tx, CTxMemPoolEntry_new sha3 tx fee time height) (set (mapTx s)))) \<and>
    (oom = None \<longrightarrow> fst (AddTxUnlocked sha3 now oom (Some tx) fee time height bypass s) = Inr ()) \<and>
    (oom = Some (AtGuard 0) \<longrightarrow> vin tx \<noteq> [] \<longrightarrow>
      AddTxUnlocked sha3 now oom (Some tx) fee time height bypass s =
        (Inl FailedToAdd, s\<lparr>metric_add_failures := metric_add_failures s + 1,
           mapSpentOutpoints := insert (prevout (hd (vin tx))) (mapSpentOutpoints s)\<rparr>))"
proof -
  note run = AddTxUnlocked_room(2) [OF assms(2,3), of oom] and f = AddTxUnlocked_room(1) [OF assms(2,3)]
  have "AddTxUnlocked sha3 now (Some (AtGuard 0)) (Some tx) fee time height bypass s =
        (Inl FailedToAdd, s\<lparr>metric_add_failures := metric_add_failures s + 1,
           mapSpentOutpoints := insert (prevout (hd (vin tx))) (mapSpentOutpoints s)\<rparr>)" if ne: "vin tx \<noteq> []"
  proof -
    let ?k = "TxId sha3 tx" and ?e = "CTxMemPoolEntry_new sha3 tx fee time height"
    obtain i ins where vin: "vin tx = i # ins" using ne by (cases "vin tx") auto
    have k: "?k \<notin> fst ` set (mapTx s)" using f by simp
    have "set_erase ?e (set_insert ?e (setEntries s)) = setEntries s"
      using fresh_comparable [OF assms(1), of ?e] f by (intro set_erase_insert) simp
    then show ?thesis unfolding AddTxUnlocked_room(2) [OF assms(2,3)]
      using k by (simp add: InsertSteps_def Let_def vin map_emplace_of delete_emplace Rollback_def MempoolInsertionGuard_new_def)
  qed
  moreover have "fst (AddTxUnlocked sha3 now None (Some tx) fee time height bypass s) = Inr ()"
    using InsertSteps_no_throw [of sha3 tx fee time height s] unfolding AddTxUnlocked_room(2) [OF assms(2,3)] by (auto split: prod.splits)
  ultimately show ?thesis using AddTxUnlocked_valid [OF assms, of oom res s'] by simp
qed


text \<open>
  C17: replacement is not atomic. When the rules for a replacement are met, with a fee above the maximum of \<open>CheckFee\<close>, the
  call fails, and the transactions that were to be replaced are gone from the pool all the same.
\<close>

theorem replacement_drops_conflicts:
  assumes "pool_inv sha3 s" "CheckReplacement tx fee s = Inr conflicts" "sint MAX_REASONABLE_FEE < sint fee"
  shows "conflicts \<noteq> [] \<and> set conflicts = conflicting s (prevout ` set (vin tx)) \<and>
    (\<exists>e ev s'. ReplaceTransaction sha3 est now oom (Some tx) fee time height bypass s = (Inl e, ev, s') \<and>
       set (mapTx s') = {(k, x) \<in> set (mapTx s). k \<notin> set conflicts})"
proof -
  let ?s = "s\<lparr>m_pending_estimator_evictions := []\<rparr>"
  have i: "pool_inv sha3 ?s" using assms(1) by simp
  have fc: "FindConflicts ?s ins acc = FindConflicts s ins acc" for ins acc by (induction ins arbitrary: acc) simp_all
  have hd: "HasDescendants ?s = HasDescendants s" by (simp add: HasDescendants_def fun_eq_iff)
  have r: "CheckReplacement tx fee ?s = Inr conflicts" using assms(2) hd unfolding CheckReplacement_def fc by (simp cong: if_cong)
  obtain cs f where c: "FindConflicts s (vin tx) ([], 0) = (cs, f)" by fastforce
  then have cs: "conflicts = cs" "conflicts \<noteq> []" using assms(2) by (auto simp: CheckReplacement_def split: if_splits)
  have set: "set conflicts = conflicting s (prevout ` set (vin tx))" "hash_set conflicts"
    using FindConflicts_set [OF c assms(1)] cs by (simp_all add: hash_set_def)
  have sub: "set conflicts \<subseteq> fst ` set (mapTx ?s)"
  proof
    fix h
    assume "h \<in> set conflicts"
    then obtain k e where "(k, e) \<in> set (mapTx s)" "h = e_tx_hash e" unfolding set(1) conflicting_def by blast
    then show "h \<in> fst ` set (mapTx ?s)" using txs_ok_D(2) [OF pool_inv_D(1) [OF assms(1)]] by force
  qed
  obtain ok ev t where rem: "RemoveConflicts conflicts ?s = (ok, ev, t)" by (metis prod_cases3)
  have t: "ok" "set (mapTx t) = {(k, x) \<in> set (mapTx s). k \<notin> set conflicts}"
    using RemoveConflicts_removed [OF i rem] sub hash_set_distinct [OF set(2)] by (auto simp: removed_def)
  have "CheckFee tx fee True \<noteq> Inr ()" using assms(3) by (simp add: CheckFee_def Let_def)
  then have "ValidateLocked sha3 now (Some tx) fee time height False t \<notin> {Inr (), Inl MempoolFullCount, Inl MempoolFullSize}"
    using ValidateLocked_pass [OF refl, of sha3 now "Some tx" fee time height False t] by auto
  then obtain e where "AddTxUnlocked sha3 now oom (Some tx) fee time height False t = (Inl e, t)"
    by (cases "ValidateLocked sha3 now (Some tx) fee time height False t") (auto simp: AddTxUnlocked_def)
  then show ?thesis using cs(2) set(1) r rem t by (auto simp: ReplaceTransaction_def ReplaceTransactionLocked_def)
qed

text \<open>
  C18: a newcomer can push out its own parent. In a pool that is full by count, adding a transaction that spends the cheapest
  transaction without registered children removes this parent first, and the newcomer enters with its input gone.
\<close>

theorem newcomer_evicts_parent:
  assumes "pool_inv sha3 s" "max_mempool_count s \<le> mempool_count s" "childless s = parent # rest"
    "e_tx_hash parent \<in> op_hash ` prevout ` set (vin tx)" "clean_throw oom" "hash_inv sha3 tx" "\<forall>x. wf256 (sha3 x)"
    "AddTxUnlocked sha3 now oom (Some tx) fee time height bypass s = (Inr (), s')"
  shows "TxId sha3 tx \<in> fst ` set (mapTx s') \<and> e_tx_hash parent \<in> fst ` set (mapTx s) \<and> e_tx_hash parent \<notin> fst ` set (mapTx s')"
proof -
  have "ValidateLocked sha3 now (Some tx) fee time height bypass s \<in> {Inr (), Inl MempoolFullCount, Inl MempoolFullSize}"
    using assms(8) by (auto simp: AddTxUnlocked_def split: sum.splits if_splits)
  then have "map_of (mapTx s) (TxId sha3 tx) = None" "prevout ` set (vin tx) \<inter> mapSpentOutpoints s = {}"
    using ValidateLocked_pass [OF refl, of sha3 now "Some tx" fee time height bypass s] by auto
  then have f: "fresh_for sha3 tx s" using TxId_hash_inv [OF assms(7,6)] by (simp add: map_of_eq_None_iff)
  have run: "AddValidated sha3 oom tx fee time height s = (Inr (), s')" using assms(8) by (auto simp: AddTxUnlocked_def split: sum.splits if_splits)
  then obtain s1 where s1: "EvictTransactions 1 s = Inr s1" using assms(2) by (auto simp: AddValidated_def MakeRoomCount_def split: sum.splits)
  obtain k where k: "0 < k" "removed sha3 (e_tx_hash ` set (take k (childless s))) s s1"
    using EvictTransactions_effect [OF assms(1) s1] by auto
  then have p1: "e_tx_hash parent \<notin> fst ` set (mapTx s1)" unfolding removed_def assms(3) by (cases k) force+
  obtain s2 where s2: "MakeRoomSize (GetSerializedSize tx) s1 = Inr s2" using run s1 assms(2) by (auto simp: AddValidated_def MakeRoomCount_def split: sum.splits)
  have i1: "pool_inv sha3 s1" using k(2) by (simp add: removed_def)
  obtain R where r2: "removed sha3 R s1 s2" using MakeRoomSize_effect [OF i1 s2] by blast
  have i2: "pool_inv sha3 s2" and f2: "fresh_for sha3 tx s2"
    using r2 removed_fresh [OF r2 i1] removed_fresh [OF k(2) assms(1) f] by (simp_all add: removed_def)
  obtain g where g: "InsertSteps sha3 oom tx fee time height s2 = (False, g, s')"
    using run s1 s2 assms(2) by (auto simp: AddValidated_def MakeRoomCount_def split: prod.splits if_splits)
  have "parent \<in> entries s" using childless_facts(1) [OF assms(1)] assms(3) by auto
  then have p: "e_tx_hash parent \<in> fst ` set (mapTx s)" using txs_ok_D(2) [OF pool_inv_D(1) [OF assms(1)]] unfolding in_snd_image by (metis fst_conv image_eqI)
  have "fst ` set (mapTx s2) \<subseteq> fst ` set (mapTx s1)" using r2 unfolding removed_def by auto
  moreover have "fst ` set (mapTx s') = insert (TxId sha3 tx) (fst ` set (mapTx s2))" using InsertSteps_added [OF i2 g assms(5) f2] by simp
  moreover have "e_tx_hash parent \<noteq> TxId sha3 tx" using p f by metis
  ultimately show ?thesis using p1 p by blast
qed

definition ex_pool_hash :: "bytes \<Rightarrow> uint256" where
  "ex_pool_hash x = replicate 32 (x ! 5 + 1)"

text \<open>Two transactions, the second of which spends the first, and the pool with the first.\<close>

definition ex_parent :: CTransaction where
  "ex_parent = CTransaction_default\<lparr>
     vin := [\<lparr>prevout = \<lparr>op_hash = replicate 32 7, op_n = 0\<rparr>, scriptSig = [], nSequence = 5\<rparr>], vout := [ex_out 900 (replicate 20 2)]\<rparr>"

definition ex_pool_entry :: CTxMemPoolEntry where
  "ex_pool_entry = CTxMemPoolEntry_new ex_pool_hash ex_parent 20000 50 1"

definition ex_pool :: CTxMemPool where
  "ex_pool = CTxMemPool_new\<lparr>mapTx := [(replicate 32 8, ex_pool_entry)], setEntries := [ex_pool_entry],
     mapSpentOutpoints := {\<lparr>op_hash = replicate 32 7, op_n = 0\<rparr>}, mempool_size := 85, mempool_count := 1, metric_adds := 1\<rparr>"

lemma ex_parent_id: "TxId ex_pool_hash ex_parent = replicate 32 8" "GetSerializedSize ex_parent = 85"
  "TxId ex_pool_hash (ex_spend 8 5) = replicate 32 9" "GetSerializedSize (ex_spend 8 5) = 85"
  by code_simp+

lemma ex_parent_vin [simp]: "vin ex_parent = [\<lparr>prevout = \<lparr>op_hash = replicate 32 7, op_n = 0\<rparr>, scriptSig = [], nSequence = 5\<rparr>]"
  "vin (ex_spend 8 5) = [\<lparr>prevout = \<lparr>op_hash = replicate 32 8, op_n = 0\<rparr>, scriptSig = [], nSequence = SEQUENCE_FINAL\<rparr>]"
  "\<not> IsCoinBase ex_parent" "\<not> IsCoinBase (ex_spend 8 5)" "hash_inv f ex_parent" "hash_inv f (ex_spend 8 5)"
  "replicate 32 (7 :: 8 word) \<noteq> replicate 32 8" "replicate 32 (9 :: 8 word) \<noteq> replicate 32 8"
  by (simp_all add: ex_parent_def ex_spend_def CTransaction_default_def hash_inv_def IsCoinBase_def COutPoint_IsNull_def IsNull256_def zero256_def
      replicate_eq_replicate)

lemma ex_pool_entry_simps [simp]:
  "e_tx_hash ex_pool_entry = replicate 32 8" "e_tx ex_pool_entry = ex_parent" "e_tx_size ex_pool_entry = 85" "e_fee ex_pool_entry = 20000"
  by (simp_all add: ex_pool_entry_def ex_parent_id)

lemma ex_pool_simps [simp]:
  "mapTx ex_pool = [(replicate 32 8, ex_pool_entry)]" "setEntries ex_pool = [ex_pool_entry]"
  "mapSpentOutpoints ex_pool = {\<lparr>op_hash = replicate 32 7, op_n = 0\<rparr>}" "mempool_size ex_pool = 85" "mempool_count ex_pool = 1"
  "mapDescendants ex_pool = Map.empty" "max_mempool_size ex_pool = 314572800" "max_mempool_count ex_pool = 100000"
  by (simp_all add: ex_pool_def CTxMemPool_new_def DEFAULT_MAX_MEMPOOL_SIZE_def DEFAULT_MAX_MEMPOOL_COUNT_def)

lemma ex_pool_hash_wf: "\<forall>x. wf256 (ex_pool_hash x)"
  by (simp add: ex_pool_hash_def wf256_def)

lemma ex_pool_reached: "(pool_step ex_pool_hash)\<^sup>*\<^sup>* CTxMemPool_new ex_pool"
proof -
  have "AddTx ex_pool_hash False 100 None (Some ex_parent) 20000 50 1 True CTxMemPool_new = (Inr (), [], ex_pool)"
    by (simp add: AddTx_def AddTxUnlocked_def ValidateLocked_def CTxMemPool_new_def Let_def ex_parent_id AddValidated_def MakeRoomCount_def
        MakeRoomSize_def InsertSteps_def MAX_TIME_SKEW_def MAX_TX_SIZE_def DEFAULT_MAX_MEMPOOL_SIZE_def DEFAULT_MAX_MEMPOOL_COUNT_def
        ex_pool_def ex_pool_entry_def)
  then show ?thesis by (intro r_into_rtranclp step_add) (auto simp: clean_throw_def)
qed

lemma ex_pool_inv: "pool_inv ex_pool_hash ex_pool"
  using reachable_good [OF ex_pool_reached ex_pool_hash_wf] by (simp add: pool_good_def)


theorem eviction_policy_witness: "\<exists>s'. EvictTransactions 10 ex_pool = Inr s' \<and> entries s' = {} \<and> mempool_size s' = 0"
proof -
  have "\<exists>s'. EvictTransactions 10 ex_pool = Inr s'" by (simp add: EvictTransactions_def HasDescendants_def Let_def)
  then obtain s' where s': "EvictTransactions 10 ex_pool = Inr s'" by blast
  have "0 < (10 :: nat)" by simp
  from eviction_policy [OF ex_pool_inv s' this] obtain gone where
    g: "gone \<noteq> []" "set gone \<subseteq> entries ex_pool" "entries s' = entries ex_pool - set gone" "distinct gone"
      "mempool_size s' = mempool_size ex_pool - bytes_of gone" by (elim exE conjE) (rule that; assumption)
  then have "gone = [ex_pool_entry]" by (cases gone; cases "tl gone") auto
  then show ?thesis using s' g by simp
qed

lemma ex_validate:
  "ValidateLocked ex_pool_hash 100 (Some (ex_spend 8 5)) 20000 50 1 True ex_pool = Inr ()"
  by (simp add: ValidateLocked_def ex_parent_id MAX_TIME_SKEW_def MAX_TX_SIZE_def)

theorem insertion_atomic_witness:
  "AddTxUnlocked ex_pool_hash 100 (Some (AtGuard 0)) (Some (ex_spend 8 5)) 20000 50 1 True ex_pool =
     (Inl FailedToAdd, ex_pool\<lparr>metric_add_failures := metric_add_failures ex_pool + 1,
        mapSpentOutpoints := insert \<lparr>op_hash = replicate 32 8, op_n = 0\<rparr> (mapSpentOutpoints ex_pool)\<rparr>) \<and>
   fst (AddTxUnlocked ex_pool_hash 100 None (Some (ex_spend 8 5)) 20000 50 1 True ex_pool) = Inr () \<and>
   AddTxUnlocked ex_pool_hash 100 (Some AtSet) (Some (ex_spend 8 5)) 20000 50 1 True ex_pool =
     (Inl FailedToAdd, ex_pool\<lparr>metric_add_failures := metric_add_failures ex_pool + 1\<rparr>)"
proof -
  have wf: "wf256 (TxId ex_pool_hash (ex_spend 8 5))" by (simp add: ex_parent_id wf256_def)
  obtain res s' where r: "AddTxUnlocked ex_pool_hash 100 (Some AtSet) (Some (ex_spend 8 5)) 20000 50 1 True ex_pool = (res, s')" by fastforce
  have "res = Inl FailedToAdd" using r
    by (simp add: AddTxUnlocked_def ex_validate AddValidated_def MakeRoomCount_def MakeRoomSize_def InsertSteps_def Let_def ex_parent_id)
  then show ?thesis
    using insertion_atomic [OF ex_pool_inv ex_validate wf, of "Some AtSet" res s']
      insertion_atomic [OF ex_pool_inv ex_validate wf, of "Some (AtGuard 0)"] insertion_atomic [OF ex_pool_inv ex_validate wf, of None] r
    by (simp add: clean_throw_def)
qed


theorem replacement_drops_conflicts_witness:
  "\<exists>e ev s'. ReplaceTransaction ex_pool_hash True 100 None (Some (ex_parent\<lparr>nLockTime := 3\<rparr>)) 20000000 60 1 False ex_pool = (Inl e, ev, s') \<and>
     mapTx s' = []"
proof -
  have size: "GetSerializedSize (ex_parent\<lparr>nLockTime := 3\<rparr>) = 85" by code_simp
  have "CheckReplacement (ex_parent\<lparr>nLockTime := 3\<rparr>) 20000000 ex_pool = Inr [replicate 32 8]"
    by (simp add: CheckReplacement_def SignalsRBF_def HasDescendants_def size)
  moreover have "sint MAX_REASONABLE_FEE < sint (20000000 :: CAmount)" by (simp add: MAX_REASONABLE_FEE_def)
  ultimately have "\<exists>e ev s'. ReplaceTransaction ex_pool_hash True 100 None (Some (ex_parent\<lparr>nLockTime := 3\<rparr>)) 20000000 60 1 False ex_pool = (Inl e, ev, s') \<and>
       set (mapTx s') = {(k, x) \<in> set (mapTx ex_pool). k \<notin> set [replicate 32 8]}"
    using replacement_drops_conflicts [OF ex_pool_inv, of "ex_parent\<lparr>nLockTime := 3\<rparr>" 20000000 "[replicate 32 8]" True 100 None 60 1 False] by blast
  moreover have "{(k, x) \<in> set (mapTx ex_pool). k \<notin> set [replicate 32 8]} = {}" by auto
  ultimately show ?thesis by (metis set_empty)
qed

theorem newcomer_evicts_parent_witness:
  "\<exists>s'. AddTxUnlocked ex_pool_hash 100 None (Some (ex_spend 8 5)) 20000 50 1 True (SetMaxMempoolCountForTesting 1 ex_pool) = (Inr (), s') \<and>
     replicate 32 9 \<in> fst ` set (mapTx s') \<and> replicate 32 8 \<notin> fst ` set (mapTx s')"
proof -
  let ?s = "SetMaxMempoolCountForTesting 1 ex_pool"
  have i: "pool_inv ex_pool_hash ?s" using ex_pool_inv by (simp add: SetMaxMempoolCountForTesting_def)
  have "\<exists>s'. AddTxUnlocked ex_pool_hash 100 None (Some (ex_spend 8 5)) 20000 50 1 True ?s = (Inr (), s')"
    by (simp add: AddTxUnlocked_def ValidateLocked_def SetMaxMempoolCountForTesting_def Let_def ex_parent_id AddValidated_def MakeRoomCount_def
        EvictTransactions_def HasDescendants_def RemoveTxUnlocked_def UpdateDescendantsRemove_def set_erase_def
        MakeRoomSize_def InsertSteps_def MAX_TIME_SKEW_def MAX_TX_SIZE_def)
  then obtain s' where s': "AddTxUnlocked ex_pool_hash 100 None (Some (ex_spend 8 5)) 20000 50 1 True ?s = (Inr (), s')" by blast
  have "childless ?s = ex_pool_entry # []" by (simp add: childless_def SetMaxMempoolCountForTesting_def HasDescendants_def)
  from newcomer_evicts_parent [OF i _ this _ _ _ ex_pool_hash_wf s'] show ?thesis using s'
    by (auto simp: SetMaxMempoolCountForTesting_def ex_parent_id clean_throw_def)
qed

end
