(* ===== verification/Spec2Isabelle.thy ===== *)
theory Spec2Isabelle
  imports Htlc Difficulty CompactBlock BatchVerifier UtxoSet Mempool
begin

text \<open>
  Dilithion: a model of the consensus core of the C++ node under \<open>src/src\<close>.

  \<^item> \<open>Prelude\<close>: machine types, little-endian byte strings, fallible operations.
  \<^item> \<open>Codec\<close>: the interface between serializers and deserializers.
  \<^item> \<open>Transaction\<close>: \<open>primitives/transaction.h\<close> and \<open>transaction.cpp\<close>.
\<close>

end
